(* ===== verification/Js_Prelude.thy ===== *)
theory Js_Prelude
  imports Main "HOL-Library.AList"
begin

text \<open>
  Prelude of the development: the JavaScript data that every modelled component uses.

  A JavaScript \<open>Map\<close> iterates in insertion order, keeps the position of a key that is set
  again, and forgets a deleted key. That is exactly an association list with the library's
  \<open>AList.update\<close> and \<open>AList.delete\<close>. A JavaScript \<open>Set\<close> iterates in insertion order as
  well: it is a duplicate-free list. A value thrown by the program is a string (main.js
  throws template strings) or an error object with a name and a message; string
  concatenation prints the latter as "name: message".

  The locale \<open>ordered_collection\<close> states what a client of such a collection relies on; it is
  interpreted on the list implementation of \<open>Set\<close> below and again on the per-key view of
  the multimap in Stimulus\_Multimap.
\<close>

named_theorems js_simps "computation rules of the JavaScript containers"
named_theorems js_wf "well-formedness facts of the JavaScript containers"

type_synonym jsstr = string
type_synonym ('k, 'v) jsmap = "('k \<times> 'v) list"
type_synonym 'a jsset = "'a list"

abbreviation map_get :: "('k, 'v) jsmap \<Rightarrow> 'k \<Rightarrow> 'v option" where
  "map_get m k \<equiv> map_of m k"

abbreviation map_set :: "'k \<Rightarrow> 'v \<Rightarrow> ('k, 'v) jsmap \<Rightarrow> ('k, 'v) jsmap" where
  "map_set k v m \<equiv> AList.update k v m"

abbreviation map_delete :: "'k \<Rightarrow> ('k, 'v) jsmap \<Rightarrow> ('k, 'v) jsmap" where
  "map_delete k m \<equiv> AList.delete k m"

abbreviation map_has :: "('k, 'v) jsmap \<Rightarrow> 'k \<Rightarrow> bool" where
  "map_has m k \<equiv> map_of m k \<noteq> None"

abbreviation map_keys :: "('k, 'v) jsmap \<Rightarrow> 'k list" where
  "map_keys m \<equiv> map fst m"

abbreviation map_values :: "('k, 'v) jsmap \<Rightarrow> 'v list" where
  "map_values m \<equiv> map snd m"

section \<open>Errors\<close>

datatype js_error =
    Thrown jsstr
  | ErrorObject jsstr jsstr

fun error_text :: "js_error \<Rightarrow> jsstr" where
  "error_text (Thrown s) = s"
| "error_text (ErrorObject name message) = name @ '': '' @ message"

section \<open>Ordered maps\<close>

lemma map_of_update [js_simps, simp]:
  "map_of (map_set k v m) k' = (if k' = k then Some v else map_of m k')"
  by (simp add: update_conv')

lemma map_of_delete [js_simps, simp]:
  "map_of (map_delete k m) k' = (if k' = k then None else map_of m k')"
  by (simp add: delete_conv')

lemma distinct_map_set [js_wf, intro]:
  "distinct (map_keys m) \<Longrightarrow> distinct (map_keys (map_set k v m))"
  by (rule distinct_update)

lemma distinct_map_delete [js_wf, intro]:
  "distinct (map_keys m) \<Longrightarrow> distinct (map_keys (map_delete k m))"
  by (rule distinct_delete)

lemma map_set_new: "map_of m k = None \<Longrightarrow> map_set k v m = m @ [(k, v)]"
  by (induction m) (auto split: if_splits)

lemma map_set_twice [js_simps, simp]: "map_set k w (map_set k v m) = map_set k w m"
  by (induction m) auto

lemma map_delete_set [js_simps, simp]: "map_delete k (map_set k v m) = map_delete k m"
  by (induction m) auto

lemma map_delete_absent: "map_of m k = None \<Longrightarrow> map_delete k m = m"
  by (induction m) (auto split: if_splits)

lemma set_map_set:
  "distinct (map_keys m) \<Longrightarrow> set (map_set k v m) = {p \<in> set m. fst p \<noteq> k} \<union> {(k, v)}"
proof (induction m)
  case (Cons p m)
  have "k \<notin> fst ` set m \<Longrightarrow> {q \<in> set m. fst q \<noteq> k} = set m" by auto
  with Cons show ?case by (cases "fst p = k") auto
qed simp

lemma set_map_delete: "set (map_delete k m) = {p \<in> set m. fst p \<noteq> k}"
  by (auto simp: AList.delete_eq)

section \<open>Ordered sets\<close>

definition set_add :: "'a \<Rightarrow> 'a jsset \<Rightarrow> 'a jsset" where
  "set_add x xs = (if x \<in> set xs then xs else xs @ [x])"

definition set_delete :: "'a \<Rightarrow> 'a jsset \<Rightarrow> 'a jsset" where
  "set_delete x xs = filter (\<lambda>y. y \<noteq> x) xs"

locale ordered_collection =
  fixes empty :: "'c"
    and add :: "'a \<Rightarrow> 'c \<Rightarrow> 'c"
    and del :: "'a \<Rightarrow> 'c \<Rightarrow> 'c"
    and elems :: "'c \<Rightarrow> 'a list"
    and invar :: "'c \<Rightarrow> bool"
  assumes elems_empty: "elems empty = []"
    and elems_add: "invar c \<Longrightarrow>
          elems (add x c) = (if x \<in> set (elems c) then elems c else elems c @ [x])"
    and elems_del: "invar c \<Longrightarrow> elems (del x c) = filter (\<lambda>y. y \<noteq> x) (elems c)"
    and invar_empty: "invar empty"
    and invar_add: "invar c \<Longrightarrow> invar (add x c)"
    and invar_del: "invar c \<Longrightarrow> invar (del x c)"
begin

lemma set_elems_add: "invar c \<Longrightarrow> set (elems (add x c)) = insert x (set (elems c))"
  by (auto simp: elems_add)

lemma set_elems_del: "invar c \<Longrightarrow> set (elems (del x c)) = set (elems c) - {x}"
  by (auto simp: elems_del)

lemma distinct_elems_add:
  "invar c \<Longrightarrow> distinct (elems c) \<Longrightarrow> distinct (elems (add x c))"
  by (auto simp: elems_add)

lemma distinct_elems_del:
  "invar c \<Longrightarrow> distinct (elems c) \<Longrightarrow> distinct (elems (del x c))"
  by (simp add: elems_del)

lemma invar_fold_add: "invar c \<Longrightarrow> invar (fold add xs c)"
  by (induction xs arbitrary: c) (auto simp: invar_add)

lemma invar_fold_del: "invar c \<Longrightarrow> invar (fold del xs c)"
  by (induction xs arbitrary: c) (auto simp: invar_del)

text \<open>Adding new elements one by one appends them; deleting a batch filters it out.\<close>

lemma elems_fold_add:
  "invar c \<Longrightarrow> distinct xs \<Longrightarrow> set xs \<inter> set (elems c) = {} \<Longrightarrow>
   elems (fold add xs c) = elems c @ xs"
proof (induction xs arbitrary: c)
  case Nil
  then show ?case by simp
next
  case (Cons x xs)
  then have "elems (add x c) = elems c @ [x]" by (simp add: elems_add)
  with Cons show ?case by (simp add: invar_add)
qed

lemma elems_fold_del:
  "invar c \<Longrightarrow> elems (fold del xs c) = filter (\<lambda>y. y \<notin> set xs) (elems c)"
proof (induction xs arbitrary: c)
  case Nil
  then show ?case by simp
next
  case (Cons x xs)
  then show ?case by (auto simp: invar_del elems_del intro: filter_cong)
qed

lemma elems_fold_del_suffix:
  assumes "invar c" and "elems c = xs @ ys" and "distinct (xs @ ys)"
  shows "elems (fold del ys c) = xs"
proof -
  have "filter (\<lambda>y. y \<notin> set ys) (xs @ ys) = xs"
    using assms(3) by (auto simp: filter_id_conv)
  then show ?thesis by (simp add: assms elems_fold_del)
qed

end

interpretation js_set: ordered_collection "[]" set_add set_delete "\<lambda>xs. xs" "\<lambda>_. True"
  by unfold_locales (auto simp: set_add_def set_delete_def)

lemma set_set_add [simp]: "set (set_add x xs) = insert x (set xs)"
  by (rule js_set.set_elems_add) simp

lemma set_set_delete [simp]: "set (set_delete x xs) = set xs - {x}"
  by (rule js_set.set_elems_del) simp

lemma distinct_set_add [js_wf, intro]: "distinct xs \<Longrightarrow> distinct (set_add x xs)"
  using js_set.distinct_elems_add by simp

lemma distinct_set_delete [js_wf, intro]: "distinct xs \<Longrightarrow> distinct (set_delete x xs)"
  using js_set.distinct_elems_del by simp

lemma set_add_not_Nil [simp]: "set_add x xs \<noteq> []"
  by (auto simp: set_add_def)

lemma set_add_same [simp]: "x \<in> set xs \<Longrightarrow> set_add x xs = xs"
  by (simp add: set_add_def)

lemma set_add_new [simp]: "x \<notin> set xs \<Longrightarrow> set_add x xs = xs @ [x]"
  by (simp add: set_add_def)

lemma set_delete_absent [simp]: "x \<notin> set xs \<Longrightarrow> set_delete x xs = xs"
  by (auto simp: set_delete_def filter_id_conv)

end
