(* ===== verification/Js_Strings.thy ===== *)
theory Js_Strings
  imports Js_Prelude
begin

text \<open>
  The string functions of the scripts: the part of the JavaScript standard library they
  call (\<open>trim\<close>, \<open>split\<close> on whitespace or on a character, \<open>join\<close>, \<open>replace\<close> of whitespace
  runs), and the case conversions \<open>camelize\<close>, \<open>capitalize\<close> and \<open>dasherize\<close> of stimulus.js.
  A string is a list of 8-bit characters; the code units above 255 are outside the model,
  and case conversion is that of the ASCII letters.
\<close>

section \<open>Characters\<close>

definition code :: "char \<Rightarrow> nat" where
  "code c = of_char c"

definition is_ws :: "char \<Rightarrow> bool" where
  "is_ws c \<longleftrightarrow> (9 \<le> code c \<and> code c \<le> 13) \<or> code c = 32 \<or> code c = 160"

definition is_upper :: "char \<Rightarrow> bool" where
  "is_upper c \<longleftrightarrow> 65 \<le> code c \<and> code c \<le> 90"

definition is_lower :: "char \<Rightarrow> bool" where
  "is_lower c \<longleftrightarrow> 97 \<le> code c \<and> code c \<le> 122"

definition is_digit :: "char \<Rightarrow> bool" where
  "is_digit c \<longleftrightarrow> 48 \<le> code c \<and> code c \<le> 57"

definition to_upper :: "char \<Rightarrow> char" where
  "to_upper c = (if is_lower c then char_of (code c - 32) else c)"

definition to_lower :: "char \<Rightarrow> char" where
  "to_lower c = (if is_upper c then char_of (code c + 32) else c)"

lemma code_char_of [simp]: "n < 256 \<Longrightarrow> code (char_of n) = n"
  by (simp add: code_def)

lemma char_of_code [simp]: "char_of (code c) = c"
  by (simp add: code_def)

lemma to_lower_is_lower [simp]: "is_upper c \<Longrightarrow> is_lower (to_lower c)"
  by (simp add: to_lower_def is_upper_def is_lower_def)

lemma to_upper_to_lower [simp]: "is_upper c \<Longrightarrow> to_upper (to_lower c) = c"
proof -
  assume "is_upper c"
  then have "code (char_of (code c + 32)) = code c + 32" and "is_lower (to_lower c)"
    by (simp_all add: is_upper_def)
  with \<open>is_upper c\<close> show ?thesis by (simp add: to_upper_def to_lower_def)
qed

section \<open>Whitespace\<close>

lemma length_dropWhile_less [simp, termination_simp]: "length (dropWhile P xs) < Suc (length xs)"
  by (simp add: less_Suc_eq_le length_dropWhile_le)

definition trim :: "jsstr \<Rightarrow> jsstr" where
  "trim s = rev (dropWhile is_ws (rev (dropWhile is_ws s)))"

text \<open>\<open>s.split(/\s+/)\<close>: the pieces between the maximal runs of whitespace.\<close>

function split_ws :: "jsstr \<Rightarrow> jsstr list" where
  "split_ws s =
     (case dropWhile (\<lambda>c. \<not> is_ws c) s of
        [] \<Rightarrow> [s]
      | c # cs \<Rightarrow> takeWhile (\<lambda>c. \<not> is_ws c) s # split_ws (dropWhile is_ws cs))"
  by pat_completeness auto
termination
proof (relation "measure length")
  fix s c cs
  assume "dropWhile (\<lambda>c. \<not> is_ws c) s = c # cs"
  then have "length (c # cs) \<le> length s" by (metis length_dropWhile_le)
  moreover have "length (dropWhile is_ws cs) \<le> length cs" by (rule length_dropWhile_le)
  ultimately show "(dropWhile is_ws cs, s) \<in> measure length" by simp
qed simp

declare split_ws.simps [simp del]

text \<open>\<open>s.replace(/\s+/g, ' ')\<close>: every maximal run of whitespace becomes one space.\<close>

fun collapse_ws :: "jsstr \<Rightarrow> jsstr" where
  "collapse_ws [] = []"
| "collapse_ws (c # cs) =
     (if is_ws c then CHR '' '' # collapse_ws (dropWhile is_ws cs) else c # collapse_ws cs)"

definition ws_free :: "jsstr \<Rightarrow> bool" where
  "ws_free s \<longleftrightarrow> (\<forall>c \<in> set s. \<not> is_ws c)"

lemma ws_free_simps [simp]:
  "ws_free []" "ws_free (c # s) \<longleftrightarrow> \<not> is_ws c \<and> ws_free s"
  "ws_free (s @ t) \<longleftrightarrow> ws_free s \<and> ws_free t"
  by (auto simp: ws_free_def)

lemma split_ws_free: "ws_free s \<Longrightarrow> split_ws s = [s]"
  by (subst split_ws.simps) (simp add: ws_free_def dropWhile_eq_Nil_conv [THEN iffD2])

lemma split_ws_append:
  assumes "ws_free w" and "is_ws c"
  shows "split_ws (w @ c # s) = w # split_ws (dropWhile is_ws s)"
proof -
  have "dropWhile (\<lambda>c. \<not> is_ws c) (w @ c # s) = c # s"
    using assms by (induction w) auto
  moreover have "takeWhile (\<lambda>c. \<not> is_ws c) (w @ c # s) = w"
    using assms by (induction w) auto
  ultimately show ?thesis by (subst split_ws.simps) simp
qed

lemma split_ws_ws_free: "w \<in> set (split_ws s) \<Longrightarrow> ws_free w"
proof (induction s rule: split_ws.induct)
  case (1 s)
  show ?case
  proof (cases "dropWhile (\<lambda>c. \<not> is_ws c) s")
    case Nil
    then have "ws_free s" by (simp add: ws_free_def dropWhile_eq_Nil_conv)
    with Nil "1.prems" show ?thesis by (simp add: split_ws_free)
  next
    case (Cons c cs)
    have "ws_free (takeWhile (\<lambda>c. \<not> is_ws c) s)"
      by (auto simp: ws_free_def dest: set_takeWhileD)
    with Cons 1 show ?thesis by (auto simp: split_ws.simps [of s])
  qed
qed

section \<open>Words\<close>

text \<open>
  The contents of the tokens of an attribute value:
  \<open>s.trim().split(/\s+/).filter(content => content.length)\<close>.
\<close>

definition words :: "jsstr \<Rightarrow> jsstr list" where
  "words s = filter (\<lambda>w. w \<noteq> []) (split_ws (trim s))"

fun join :: "jsstr \<Rightarrow> jsstr list \<Rightarrow> jsstr" where
  "join sep [] = []"
| "join sep [w] = w"
| "join sep (w # ws) = w @ sep @ join sep ws"

lemma words_wf: "w \<in> set (words s) \<Longrightarrow> w \<noteq> [] \<and> ws_free w"
  by (auto simp: words_def dest: split_ws_ws_free)

definition wordlike :: "jsstr \<Rightarrow> bool" where
  "wordlike w \<longleftrightarrow> w \<noteq> [] \<and> ws_free w"

lemma dropWhile_ws_word:
  "wordlike w \<Longrightarrow> dropWhile is_ws (w @ s) = w @ s"
  by (cases w) (auto simp: wordlike_def)

lemma join_space_Cons_word:
  "list_all wordlike (w # ws) \<Longrightarrow> dropWhile is_ws (join '' '' (w # ws)) = join '' '' (w # ws)"
  by (cases ws) (auto simp: dropWhile_ws_word dropWhile_ws_word [of w "[]", simplified])

lemma split_ws_join:
  "list_all wordlike ws \<Longrightarrow> ws \<noteq> [] \<Longrightarrow> split_ws (join '' '' ws) = ws"
proof (induction "'' ''" ws rule: join.induct)
  case (3 w v vs)
  have "is_ws (CHR '' '')" by (simp add: is_ws_def code_def)
  moreover have "ws_free w" using "3.prems" by (simp add: wordlike_def)
  ultimately have "split_ws (w @ CHR '' '' # join '' '' (v # vs)) =
      w # split_ws (dropWhile is_ws (join '' '' (v # vs)))"
    by (simp add: split_ws_append)
  with 3 show ?case by (simp add: join_space_Cons_word del: join.simps)
      (simp add: join_space_Cons_word)
qed (auto simp: wordlike_def split_ws_free)

lemma rev_join_space: "rev (join '' '' ws) = join '' '' (rev (map rev ws))"
proof (induction "'' ''" ws rule: join.induct)
  case (3 w v vs)
  have "join '' '' (xs @ [a, b]) = join '' '' (xs @ [a]) @ '' '' @ b" for xs and a b :: jsstr
    by (induction "'' ''" xs rule: join.induct) auto
  with 3 show ?case by simp
qed auto

lemma list_all_wordlike_rev: "list_all wordlike ws \<Longrightarrow> list_all wordlike (rev (map rev ws))"
  by (auto simp: list_all_iff wordlike_def ws_free_def)

lemma trim_join:
  assumes "list_all wordlike ws"
  shows "trim (join '' '' ws) = join '' '' ws"
proof (cases ws)
  case Nil
  then show ?thesis by (simp add: trim_def)
next
  case (Cons v vs)
  obtain u us where r: "rev (map rev ws) = u # us"
    using Cons by (cases "rev (map rev ws)") auto
  have d: "dropWhile is_ws (join '' '' ws) = join '' '' ws"
    using assms Cons by (simp only: join_space_Cons_word)
  have "list_all wordlike (u # us)"
    using list_all_wordlike_rev [OF assms] by (simp only: r)
  then have "dropWhile is_ws (rev (join '' '' ws)) = rev (join '' '' ws)"
    by (simp only: rev_join_space r join_space_Cons_word)
  with d show ?thesis by (simp add: trim_def)
qed

lemma words_join: "list_all wordlike ws \<Longrightarrow> words (join '' '' ws) = ws"
proof (cases "ws = []")
  case True
  then show ?thesis by (simp add: words_def trim_def split_ws_free)
next
  case False
  assume w: "list_all wordlike ws"
  then have "filter (\<lambda>w. w \<noteq> []) ws = ws"
    by (auto simp: filter_id_conv list_all_iff wordlike_def)
  with w False show ?thesis by (simp add: words_def trim_join split_ws_join)
qed

lemma words_wordlike: "list_all wordlike (words s)"
  by (auto simp: list_all_iff wordlike_def dest: words_wf)

section \<open>Splitting at a character\<close>

fun split_on :: "char \<Rightarrow> jsstr \<Rightarrow> jsstr list" where
  "split_on d [] = [[]]"
| "split_on d (c # cs) =
     (if c = d then [] # split_on d cs
      else (case split_on d cs of w # ws \<Rightarrow> (c # w) # ws | [] \<Rightarrow> [[c]]))"

lemma split_on_not_Nil [simp]: "split_on d s \<noteq> []"
  by (cases s) (auto split: list.splits)

lemma split_on_free: "d \<notin> set s \<Longrightarrow> split_on d s = [s]"
  by (induction s) auto

lemma split_on_append: "d \<notin> set w \<Longrightarrow> split_on d (w @ d # s) = w # split_on d s"
  by (induction w) auto

lemma split_on_pieces: "w \<in> set (split_on d s) \<Longrightarrow> d \<notin> set w"
proof (induction s arbitrary: w)
  case (Cons c cs)
  then show ?case by (cases "split_on d cs") (auto split: if_splits)
qed simp

lemma join_split_on: "join [d] (split_on d s) = s"
proof (induction s)
  case (Cons c cs)
  obtain w ws where "split_on d cs = w # ws" by (cases "split_on d cs") auto
  with Cons show ?case by (cases ws) auto
qed simp

lemma split_on_join:
  "ws \<noteq> [] \<Longrightarrow> \<forall>w \<in> set ws. d \<notin> set w \<Longrightarrow> split_on d (join [d] ws) = ws"
  by (induction "[d]" ws rule: join.induct) (auto simp: split_on_free split_on_append)

section \<open>Case conversions\<close>

fun camelize :: "jsstr \<Rightarrow> jsstr" where
  "camelize (c # d # cs) =
     (if (c = CHR ''_'' \<or> c = CHR ''-'') \<and> (is_lower d \<or> is_digit d)
      then to_upper d # camelize cs else c # camelize (d # cs))"
| "camelize s = s"

definition capitalize :: "jsstr \<Rightarrow> jsstr" where
  "capitalize value = (case value of [] \<Rightarrow> [] | c # cs \<Rightarrow> to_upper c # cs)"

fun dasherize :: "jsstr \<Rightarrow> jsstr" where
  "dasherize [] = []"
| "dasherize (c # cs) =
     (if is_upper c then CHR ''-'' # to_lower c # dasherize cs else c # dasherize cs)"

lemma camelize_plain: "c \<noteq> CHR ''-'' \<Longrightarrow> c \<noteq> CHR ''_'' \<Longrightarrow> camelize (c # s) = c # camelize s"
  by (cases s) auto

lemma camelize_dasherize_append:
  "CHR ''-'' \<notin> set s \<Longrightarrow> CHR ''_'' \<notin> set s \<Longrightarrow> camelize (dasherize s @ t) = s @ camelize t"
  by (induction s) (auto simp: camelize_plain)

lemma dasherize_no_upper: "list_all (\<lambda>c. \<not> is_upper c) s \<Longrightarrow> dasherize s = s"
  by (induction s) auto

lemma to_lower_not_upper [simp]: "is_upper c \<Longrightarrow> \<not> is_upper (to_lower c)"
  by (simp add: to_lower_def is_upper_def)

lemma dasherize_lower: "list_all (\<lambda>c. \<not> is_upper c) (dasherize s)"
proof (induction s)
  case (Cons c s)
  have "\<not> is_upper (CHR ''-'')" by (simp add: is_upper_def code_def)
  with Cons show ?case by simp
qed simp

lemma dasherize_append: "dasherize (s @ t) = dasherize s @ dasherize t"
  by (induction s) auto

end
