(* ===== verification/Stimulus_Multimap.thy ===== *)
theory Stimulus_Multimap
  imports Js_Prelude
begin

text \<open>
  The multimaps of stimulus.js: the helper functions \<open>add\<close>, \<open>del\<close>, \<open>fetch\<close> and \<open>prune\<close>
  over a \<open>Map\<close> of \<open>Set\<close>s, the class \<open>Multimap\<close> (\<open>valuesByKey\<close>) and its subclass
  \<open>IndexedMultimap\<close> with the inverse index \<open>keysByValue\<close>. A multimap denotes a relation
  \<open>mm_rel\<close>; the lemmas show that every operation implements the corresponding operation on
  relations, and that the two indices of \<open>IndexedMultimap\<close> stay converse to each other.
\<close>

section \<open>The helpers and the class Multimap\<close>

type_synonym ('k, 'v) multimap = "('k, 'v jsset) jsmap"

text \<open>\<open>fetch\<close> returns the stored set and stores a new empty one when the key is absent.\<close>

definition mm_fetch :: "('k, 'v) multimap \<Rightarrow> 'k \<Rightarrow> 'v jsset \<times> ('k, 'v) multimap" where
  "mm_fetch m key =
     (case map_get m key of
        Some values \<Rightarrow> (values, m)
      | None \<Rightarrow> ([], map_set key [] m))"

definition mm_prune :: "('k, 'v) multimap \<Rightarrow> 'k \<Rightarrow> ('k, 'v) multimap" where
  "mm_prune m key =
     (case map_get m key of
        Some values \<Rightarrow> (if length values = 0 then map_delete key m else m)
      | None \<Rightarrow> m)"

definition mm_add :: "'k \<Rightarrow> 'v \<Rightarrow> ('k, 'v) multimap \<Rightarrow> ('k, 'v) multimap" where
  "mm_add key value m =
     (let (values, m') = mm_fetch m key in map_set key (set_add value values) m')"

definition mm_del :: "'k \<Rightarrow> 'v \<Rightarrow> ('k, 'v) multimap \<Rightarrow> ('k, 'v) multimap" where
  "mm_del key value m =
     (let (values, m') = mm_fetch m key
      in mm_prune (map_set key (set_delete value values) m') key)"

definition mm_values :: "('k, 'v) multimap \<Rightarrow> 'v list" where
  "mm_values m = foldl (\<lambda>values s. values @ s) [] (map_values m)"

definition mm_size :: "('k, 'v) multimap \<Rightarrow> nat" where
  "mm_size m = foldl (\<lambda>size s. size + length s) 0 (map_values m)"

definition mm_has :: "('k, 'v) multimap \<Rightarrow> 'k \<Rightarrow> 'v \<Rightarrow> bool" where
  "mm_has m key value =
     (case map_get m key of Some values \<Rightarrow> value \<in> set values | None \<Rightarrow> False)"

definition mm_has_key :: "('k, 'v) multimap \<Rightarrow> 'k \<Rightarrow> bool" where
  "mm_has_key m key = map_has m key"

definition mm_has_value :: "('k, 'v) multimap \<Rightarrow> 'v \<Rightarrow> bool" where
  "mm_has_value m value = list_ex (\<lambda>s. value \<in> set s) (map_values m)"

definition mm_values_for_key :: "('k, 'v) multimap \<Rightarrow> 'k \<Rightarrow> 'v list" where
  "mm_values_for_key m key = (case map_get m key of Some values \<Rightarrow> values | None \<Rightarrow> [])"

definition mm_keys_for_value :: "('k, 'v) multimap \<Rightarrow> 'v \<Rightarrow> 'k list" where
  "mm_keys_for_value m value = map fst (filter (\<lambda>(key, values). value \<in> set values) m)"

section \<open>The relation a multimap denotes\<close>

definition mm_rel :: "('k, 'v) multimap \<Rightarrow> ('k \<times> 'v) set" where
  "mm_rel m = {(k, v). v \<in> set (mm_values_for_key m k)}"

definition mm_wf :: "('k, 'v) multimap \<Rightarrow> bool" where
  "mm_wf m \<longleftrightarrow> distinct (map_keys m) \<and> (\<forall>(k, vs) \<in> set m. vs \<noteq> [] \<and> distinct vs)"

lemma mm_wf_empty [js_wf, simp]: "mm_wf []"
  by (simp add: mm_wf_def)

lemma mm_rel_empty [simp]: "mm_rel [] = {}"
  by (simp add: mm_rel_def mm_values_for_key_def)

lemma mm_wf_lookup:
  "mm_wf m \<Longrightarrow> map_of m k = Some vs \<Longrightarrow> vs \<noteq> [] \<and> distinct vs"
  by (auto simp: mm_wf_def dest!: map_of_SomeD)

lemma mm_rel_iff: "(k, v) \<in> mm_rel m \<longleftrightarrow> (\<exists>vs. map_of m k = Some vs \<and> v \<in> set vs)"
  by (cases "map_of m k") (auto simp: mm_rel_def mm_values_for_key_def)

lemma mm_rel_wf_iff:
  "mm_wf m \<Longrightarrow> (k, v) \<in> mm_rel m \<longleftrightarrow> (\<exists>vs. (k, vs) \<in> set m \<and> v \<in> set vs)"
  by (simp add: mm_rel_iff mm_wf_def)

lemma mm_add_eq: "mm_add k v m = map_set k (set_add v (mm_values_for_key m k)) m"
  by (cases "map_of m k") (simp_all add: mm_add_def mm_fetch_def mm_values_for_key_def)

text \<open>Deleting under an absent key leaves no trace of the set that \<open>fetch\<close> created.\<close>

lemma mm_del_eq:
  "mm_del k v m =
     (case map_of m k of
        None \<Rightarrow> m
      | Some vs \<Rightarrow> (if set_delete v vs = [] then map_delete k m
                     else map_set k (set_delete v vs) m))"
  by (cases "map_of m k")
     (simp_all add: mm_del_def mm_fetch_def mm_prune_def set_delete_def map_delete_absent)

lemma mm_values_for_key_add [js_simps]:
  "mm_values_for_key (mm_add k v m) k' =
     (if k' = k then set_add v (mm_values_for_key m k) else mm_values_for_key m k')"
  by (simp add: mm_add_eq mm_values_for_key_def)

lemma mm_values_for_key_del [js_simps]:
  "mm_values_for_key (mm_del k v m) k' =
     (if k' = k then set_delete v (mm_values_for_key m k) else mm_values_for_key m k')"
  by (auto simp: mm_del_eq mm_values_for_key_def set_delete_def split: option.splits)

lemma mm_wf_add [js_wf, intro]: "mm_wf m \<Longrightarrow> mm_wf (mm_add k v m)"
proof -
  assume wf: "mm_wf m"
  then have "distinct (mm_values_for_key m k)"
    by (auto simp: mm_values_for_key_def split: option.splits dest: mm_wf_lookup)
  with wf show ?thesis
    by (auto simp: mm_wf_def mm_add_eq set_map_set)
qed

lemma mm_wf_del [js_wf, intro]:
  assumes "mm_wf m"
  shows "mm_wf (mm_del k v m)"
proof (cases "map_of m k")
  case None
  with assms show ?thesis by (simp add: mm_del_eq)
next
  case (Some vs)
  with assms have "distinct vs" by (blast dest: mm_wf_lookup)
  then have "distinct (set_delete v vs)" by auto
  with assms Some show ?thesis
    by (simp add: mm_del_eq mm_wf_def set_map_set set_map_delete distinct_map_set distinct_map_delete)
qed

lemma mm_rel_add [js_simps]: "mm_rel (mm_add k v m) = insert (k, v) (mm_rel m)"
  by (auto simp: mm_rel_def mm_values_for_key_add split: if_splits)

lemma mm_rel_del [js_simps]: "mm_rel (mm_del k v m) = mm_rel m - {(k, v)}"
  by (auto simp: mm_rel_def mm_values_for_key_del split: if_splits)

lemma mm_has_rel [js_simps]: "mm_has m k v \<longleftrightarrow> (k, v) \<in> mm_rel m"
  by (auto simp: mm_has_def mm_rel_def mm_values_for_key_def split: option.splits)

lemma mm_has_key_rel: "mm_wf m \<Longrightarrow> mm_has_key m k \<longleftrightarrow> k \<in> Domain (mm_rel m)"
proof -
  assume wf: "mm_wf m"
  have "k \<in> Domain (mm_rel m) \<longleftrightarrow> (\<exists>v vs. map_of m k = Some vs \<and> v \<in> set vs)"
    by (simp add: Domain_iff mm_rel_iff)
  also have "\<dots> \<longleftrightarrow> map_of m k \<noteq> None"
    using mm_wf_lookup [OF wf] by (metis all_not_in_conv not_None_eq option.distinct(1) set_empty)
  finally show ?thesis by (simp add: mm_has_key_def)
qed

lemma mm_Range_iff: "mm_wf m \<Longrightarrow> v \<in> Range (mm_rel m) \<longleftrightarrow> (\<exists>vs \<in> set (map_values m). v \<in> set vs)"
proof -
  assume wf: "mm_wf m"
  have "v \<in> Range (mm_rel m) \<longleftrightarrow> (\<exists>k vs. (k, vs) \<in> set m \<and> v \<in> set vs)"
    using wf by (simp add: Range_iff mm_rel_wf_iff)
  also have "\<dots> \<longleftrightarrow> (\<exists>vs \<in> set (map_values m). v \<in> set vs)" by force
  finally show ?thesis .
qed

lemma mm_has_value_rel: "mm_wf m \<Longrightarrow> mm_has_value m v \<longleftrightarrow> v \<in> Range (mm_rel m)"
  by (simp add: mm_has_value_def mm_Range_iff list_ex_iff)

lemma mm_keys_for_value_rel:
  "mm_wf m \<Longrightarrow> set (mm_keys_for_value m v) = {k. (k, v) \<in> mm_rel m}"
  by (auto simp: mm_keys_for_value_def mm_rel_wf_iff image_iff split: prod.splits)

lemma foldl_append: "foldl (\<lambda>values s. values @ s) ys xss = ys @ concat xss"
  by (induction xss arbitrary: ys) auto

lemma mm_values_concat: "mm_values m = concat (map_values m)"
  by (simp add: mm_values_def foldl_append)

lemma foldl_length: "foldl (\<lambda>size s. size + length s) n xss = n + sum_list (map length xss)"
  by (induction xss arbitrary: n) auto

lemma mm_size_sum: "mm_size m = sum_list (map length (map_values m))"
  by (simp only: mm_size_def foldl_length add_0)

lemma mm_values_rel: "mm_wf m \<Longrightarrow> set (mm_values m) = Range (mm_rel m)"
  by (rule set_eqI) (simp add: mm_values_concat mm_Range_iff)

lemma mm_rel_Cons:
  "k \<notin> fst ` set m \<Longrightarrow> mm_rel ((k, vs) # m) = {k} \<times> set vs \<union> mm_rel m"
  by (auto simp: mm_rel_iff map_of_eq_None_iff [symmetric] split: if_splits)

lemma mm_rel_finite: "finite (mm_rel m)"
proof (induction m)
  case (Cons p m)
  have "mm_rel (p # m) \<subseteq> {fst p} \<times> set (snd p) \<union> mm_rel m"
    by (auto simp: mm_rel_iff split: if_splits)
  moreover have "finite ({fst p} \<times> set (snd p) \<union> mm_rel m)"
    using Cons by simp
  ultimately show ?case by (rule finite_subset)
qed simp

lemma mm_size_card: "mm_wf m \<Longrightarrow> mm_size m = card (mm_rel m)"
proof (induction m)
  case Nil
  then show ?case by (simp add: mm_size_sum)
next
  case (Cons p m)
  obtain k vs where p: "p = (k, vs)" by (cases p)
  from Cons.prems p have wf: "mm_wf m" and k: "k \<notin> fst ` set m" and vs: "distinct vs"
    by (auto simp: mm_wf_def)
  have "k \<notin> Domain (mm_rel m)"
    using k by (auto simp: mm_rel_iff map_of_eq_None_iff [symmetric])
  then have "card ({k} \<times> set vs \<union> mm_rel m) = length vs + card (mm_rel m)"
    using vs by (subst card_Un_disjoint) (auto simp: mm_rel_finite card_cartesian_product distinct_card)
  with Cons.IH [OF wf] show ?case
    by (simp add: p mm_rel_Cons k mm_size_sum)
qed

text \<open>
  Seen through one key, a multimap is an ordered collection, so the batch lemmas of
  the locale apply to it.
\<close>

interpretation mm_key: ordered_collection "[]" "mm_add k" "mm_del k"
    "\<lambda>m. mm_values_for_key m k" mm_wf for k
  by unfold_locales
     (auto simp: mm_values_for_key_add mm_values_for_key_del set_delete_def set_add_def,
      simp add: mm_values_for_key_def)

lemma mm_values_for_key_fold_add_other:
  "k' \<noteq> k \<Longrightarrow> mm_values_for_key (fold (mm_add k) vs m) k' = mm_values_for_key m k'"
  by (induction vs arbitrary: m) (auto simp: mm_values_for_key_add)

lemma mm_values_for_key_fold_del_other:
  "k' \<noteq> k \<Longrightarrow> mm_values_for_key (fold (mm_del k) vs m) k' = mm_values_for_key m k'"
  by (induction vs arbitrary: m) (auto simp: mm_values_for_key_del)

section \<open>The class IndexedMultimap\<close>

record ('k, 'v) indexed_multimap =
  valuesByKey :: "('k, 'v) multimap"
  keysByValue :: "('v, 'k) multimap"

definition imm_empty :: "('k, 'v) indexed_multimap" where
  "imm_empty = \<lparr>valuesByKey = [], keysByValue = []\<rparr>"

definition imm_values :: "('k, 'v) indexed_multimap \<Rightarrow> 'v list" where
  "imm_values m = map_keys (keysByValue m)"

definition imm_add :: "'k \<Rightarrow> 'v \<Rightarrow> ('k, 'v) indexed_multimap \<Rightarrow> ('k, 'v) indexed_multimap" where
  "imm_add key value m =
     (let m' = m\<lparr>valuesByKey := mm_add key value (valuesByKey m)\<rparr>
      in m'\<lparr>keysByValue := mm_add value key (keysByValue m')\<rparr>)"

definition imm_delete :: "'k \<Rightarrow> 'v \<Rightarrow> ('k, 'v) indexed_multimap \<Rightarrow> ('k, 'v) indexed_multimap" where
  "imm_delete key value m =
     (let m' = m\<lparr>valuesByKey := mm_del key value (valuesByKey m)\<rparr>
      in m'\<lparr>keysByValue := mm_del value key (keysByValue m')\<rparr>)"

definition imm_has_value :: "('k, 'v) indexed_multimap \<Rightarrow> 'v \<Rightarrow> bool" where
  "imm_has_value m value = map_has (keysByValue m) value"

definition imm_keys_for_value :: "('k, 'v) indexed_multimap \<Rightarrow> 'v \<Rightarrow> 'k list" where
  "imm_keys_for_value m value =
     (case map_get (keysByValue m) value of Some s \<Rightarrow> s | None \<Rightarrow> [])"

text \<open>A client of the class is a sequence of its two mutating calls.\<close>

datatype ('k, 'v) mm_call = CallAdd 'k 'v | CallDelete 'k 'v

fun imm_run :: "('k, 'v) mm_call list \<Rightarrow> ('k, 'v) indexed_multimap \<Rightarrow> ('k, 'v) indexed_multimap" where
  "imm_run [] m = m"
| "imm_run (CallAdd k v # cs) m = imm_run cs (imm_add k v m)"
| "imm_run (CallDelete k v # cs) m = imm_run cs (imm_delete k v m)"

fun mm_run :: "('k, 'v) mm_call list \<Rightarrow> ('k, 'v) multimap \<Rightarrow> ('k, 'v) multimap" where
  "mm_run [] m = m"
| "mm_run (CallAdd k v # cs) m = mm_run cs (mm_add k v m)"
| "mm_run (CallDelete k v # cs) m = mm_run cs (mm_del k v m)"

definition imm_wf :: "('k, 'v) indexed_multimap \<Rightarrow> bool" where
  "imm_wf m \<longleftrightarrow> mm_wf (valuesByKey m) \<and> mm_wf (keysByValue m) \<and>
     mm_rel (keysByValue m) = (mm_rel (valuesByKey m))\<inverse>"

lemma imm_wf_empty [js_wf, simp]: "imm_wf imm_empty"
  by (simp add: imm_wf_def imm_empty_def)

lemma imm_wf_add [js_wf, intro]: "imm_wf m \<Longrightarrow> imm_wf (imm_add k v m)"
  by (auto simp: imm_wf_def imm_add_def mm_rel_add Let_def)

lemma imm_wf_delete [js_wf, intro]: "imm_wf m \<Longrightarrow> imm_wf (imm_delete k v m)"
  by (auto simp: imm_wf_def imm_delete_def mm_rel_del Let_def)

lemma imm_wf_run: "imm_wf m \<Longrightarrow> imm_wf (imm_run cs m)"
  by (induction cs m rule: imm_run.induct) auto

lemma imm_run_valuesByKey: "valuesByKey (imm_run cs m) = mm_run cs (valuesByKey m)"
  by (induction cs m rule: imm_run.induct) (simp_all add: imm_add_def imm_delete_def)

lemma mm_wf_run: "mm_wf m \<Longrightarrow> mm_wf (mm_run cs m)"
  by (induction cs m rule: mm_run.induct) auto

lemma imm_has_value_rel: "imm_wf m \<Longrightarrow> imm_has_value m v \<longleftrightarrow> v \<in> Range (mm_rel (valuesByKey m))"
  using mm_has_key_rel [of "keysByValue m" v]
  by (simp add: imm_wf_def imm_has_value_def mm_has_key_def)

lemma imm_keys_for_value_rel:
  "imm_wf m \<Longrightarrow> set (imm_keys_for_value m v) = {k. (k, v) \<in> mm_rel (valuesByKey m)}"
proof -
  assume wf: "imm_wf m"
  have "set (imm_keys_for_value m v) = {k. (v, k) \<in> mm_rel (keysByValue m)}"
    by (simp add: imm_keys_for_value_def mm_rel_def mm_values_for_key_def)
  with wf show ?thesis by (simp add: imm_wf_def)
qed

lemma imm_values_rel: "imm_wf m \<Longrightarrow> set (imm_values m) = Range (mm_rel (valuesByKey m))"
  using imm_has_value_rel [of m]
  by (auto simp: imm_values_def imm_has_value_def map_of_eq_None_iff)

lemma imm_values_distinct: "imm_wf m \<Longrightarrow> distinct (imm_values m)"
  by (simp add: imm_wf_def imm_values_def mm_wf_def)

section \<open>Properties\<close>

text \<open>
  C20. The class \<open>Multimap\<close> implements a relation between keys and values. On every
  well-formed multimap \<open>add\<close> inserts the pair and \<open>delete\<close> removes it and nothing else, both
  keep the multimap well formed (no key is left with an empty set, no value is stored
  twice), and \<open>has\<close>, \<open>hasKey\<close>, \<open>hasValue\<close>, \<open>getValuesForKey\<close>, \<open>getKeysForValue\<close>, \<open>values\<close> and
  \<open>size\<close> answer from that relation.
\<close>

theorem multimap_refines_relation:
  assumes "mm_wf m"
  shows "mm_wf (mm_add k v m) \<and> mm_rel (mm_add k v m) = insert (k, v) (mm_rel m) \<and>
    mm_wf (mm_del k v m) \<and> mm_rel (mm_del k v m) = mm_rel m - {(k, v)} \<and>
    (mm_has m k v \<longleftrightarrow> (k, v) \<in> mm_rel m) \<and>
    (mm_has_key m k \<longleftrightarrow> k \<in> Domain (mm_rel m)) \<and>
    (mm_has_value m v \<longleftrightarrow> v \<in> Range (mm_rel m)) \<and>
    set (mm_values_for_key m k) = mm_rel m `` {k} \<and>
    set (mm_keys_for_value m v) = (mm_rel m)\<inverse> `` {v} \<and>
    set (mm_values m) = Range (mm_rel m) \<and>
    mm_size m = card (mm_rel m)"
  using assms
  by (auto simp: mm_rel_add mm_rel_del mm_has_rel mm_has_key_rel mm_has_value_rel
        mm_keys_for_value_rel mm_values_rel mm_size_card)
     (auto simp: mm_rel_def)

lemma multimap_refines_relation_witness:
  "mm_rel (mm_del (1::nat) (7::nat) [(1, [7]), (2, [7, 8])]) = mm_rel [(1, [7]), (2, [7, 8])] - {(1, 7)}"
  using multimap_refines_relation [of "[(1, [7]), (2, [7, 8])]" "1::nat" "7::nat"]
  by (simp add: mm_wf_def)

text \<open>
  C36. After any sequence of \<open>add\<close> and \<open>delete\<close> calls, the indexed multimap answers value
  queries through its inverse index exactly as the plain multimap answers them by scanning
  all keys after the same calls: the two indices never drift apart, and \<open>values\<close> lists every
  value once.
\<close>

theorem indexed_multimap_equiv_multimap:
  "set (imm_keys_for_value (imm_run cs imm_empty) v) = set (mm_keys_for_value (mm_run cs []) v) \<and>
   (imm_has_value (imm_run cs imm_empty) v \<longleftrightarrow> mm_has_value (mm_run cs []) v) \<and>
   set (imm_values (imm_run cs imm_empty)) = set (mm_values (mm_run cs [])) \<and>
   distinct (imm_values (imm_run cs imm_empty))"
proof -
  have wf: "imm_wf (imm_run cs imm_empty)" by (simp add: imm_wf_run)
  have run: "valuesByKey (imm_run cs imm_empty) = mm_run cs []"
    by (simp add: imm_run_valuesByKey imm_empty_def)
  have mm: "mm_wf (mm_run cs [])" by (simp add: mm_wf_run)
  show ?thesis
    using wf mm by (simp add: imm_keys_for_value_rel imm_has_value_rel imm_values_rel
        imm_values_distinct mm_keys_for_value_rel mm_has_value_rel mm_values_rel run)
qed

end
