(* ===== verification/Stimulus_Observers.thy ===== *)
theory Stimulus_Observers
  imports Js_Strings Stimulus_Multimap "HOL-Library.Sublist"
begin

text \<open>
  The observer tower of stimulus.js: \<open>ElementObserver\<close> keeps the set of elements of a tree
  that match, \<open>AttributeObserver\<close> instantiates it with "has this attribute",
  \<open>TokenListObserver\<close> splits the attribute's value into tokens and diffs them, and
  \<open>ValueListObserver\<close> parses tokens to values. Each observer calls a delegate; a delegate is
  a record of functions on its own state, as the JavaScript delegate is an object with
  methods. The browser's DOM is a snapshot \<open>dom\<close>: what the observers read of it when they
  run. Object identity of tokens matters (they are keys and set members), so every token
  carries the number of its allocation.

  The three locales state what each layer promises to the one above:
  \<open>element_delegate_laws\<close>, \<open>token_delegate_laws\<close> and \<open>value_delegate_laws\<close>; the
  sublocales show that a lawful value delegate makes a lawful token delegate, and that
  one makes a lawful element delegate. The laws are discharged for the two delegates of
  the library, BindingObserver and ScopeObserver, in Stimulus\_Binding and Stimulus\_Router.
\<close>

section \<open>What is read of the DOM\<close>

record dom =
  getAttr :: "nat \<Rightarrow> jsstr \<Rightarrow> jsstr option"
  contained :: "nat \<Rightarrow> bool"   \<comment> \<open>connected like the root and contained in it\<close>
  subtree :: "nat \<Rightarrow> nat list"  \<comment> \<open>the element and its descendants, in document order\<close>

datatype node = ElementNode nat | OtherNode

datatype mutation =
    AttributeMutation nat jsstr
  | ChildListMutation "node list" "node list"   \<comment> \<open>removed, added\<close>

section \<open>ElementObserver\<close>

record 'd element_delegate =
  matchElement :: "dom \<Rightarrow> nat \<Rightarrow> bool"
  matchElementsInTree :: "dom \<Rightarrow> nat \<Rightarrow> nat list"
  elementMatched :: "dom \<Rightarrow> nat \<Rightarrow> 'd \<Rightarrow> 'd"
  elementUnmatched :: "nat \<Rightarrow> 'd \<Rightarrow> 'd"
  elementAttributeChanged :: "dom \<Rightarrow> nat \<Rightarrow> jsstr \<Rightarrow> 'd \<Rightarrow> 'd"

record 'd element_observer =
  eo_root :: nat
  eo_started :: bool
  eo_elements :: "nat jsset"
  eo_delegate :: 'd

definition new_element_observer :: "nat \<Rightarrow> 'd \<Rightarrow> 'd element_observer" where
  "new_element_observer root d =
     \<lparr>eo_root = root, eo_started = False, eo_elements = [], eo_delegate = d\<rparr>"

definition addElement ::
  "'d element_delegate \<Rightarrow> dom \<Rightarrow> nat \<Rightarrow> 'd element_observer \<Rightarrow> 'd element_observer" where
  "addElement D dm element ob =
     (if element \<notin> set (eo_elements ob)
      then if contained dm element
           then ob\<lparr>eo_elements := set_add element (eo_elements ob),
                  eo_delegate := elementMatched D dm element (eo_delegate ob)\<rparr>
           else ob
      else ob)"

definition removeElement ::
  "'d element_delegate \<Rightarrow> nat \<Rightarrow> 'd element_observer \<Rightarrow> 'd element_observer" where
  "removeElement D element ob =
     (if element \<in> set (eo_elements ob)
      then ob\<lparr>eo_elements := set_delete element (eo_elements ob),
             eo_delegate := elementUnmatched D element (eo_delegate ob)\<rparr>
      else ob)"

definition eo_refresh ::
  "'d element_delegate \<Rightarrow> dom \<Rightarrow> 'd element_observer \<Rightarrow> 'd element_observer" where
  "eo_refresh D dm ob =
     (if eo_started ob then
        let matches = fold set_add (matchElementsInTree D dm (eo_root ob)) [];
            removed = fold (\<lambda>element ob. if element \<in> set matches then ob
                                          else removeElement D element ob) (eo_elements ob) ob
        in fold (addElement D dm) matches removed
      else ob)"

definition eo_start ::
  "'d element_delegate \<Rightarrow> dom \<Rightarrow> 'd element_observer \<Rightarrow> 'd element_observer" where
  "eo_start D dm ob =
     (if eo_started ob then ob else eo_refresh D dm (ob\<lparr>eo_started := True\<rparr>))"

definition eo_stop :: "'d element_observer \<Rightarrow> 'd element_observer" where
  "eo_stop ob = (if eo_started ob then ob\<lparr>eo_started := False\<rparr> else ob)"

definition processAttributeChange ::
  "'d element_delegate \<Rightarrow> dom \<Rightarrow> nat \<Rightarrow> jsstr \<Rightarrow> 'd element_observer \<Rightarrow> 'd element_observer" where
  "processAttributeChange D dm element attributeName ob =
     (if element \<in> set (eo_elements ob)
      then if matchElement D dm element
           then ob\<lparr>eo_delegate := elementAttributeChanged D dm element attributeName (eo_delegate ob)\<rparr>
           else removeElement D element ob
      else if matchElement D dm element then addElement D dm element ob
      else ob)"

fun elementFromNode :: "node \<Rightarrow> nat option" where
  "elementFromNode (ElementNode e) = Some e"
| "elementFromNode OtherNode = None"

fun processRemovedNodes ::
  "'d element_delegate \<Rightarrow> dom \<Rightarrow> node list \<Rightarrow> 'd element_observer \<Rightarrow> 'd element_observer" where
  "processRemovedNodes D dm [] ob = ob"
| "processRemovedNodes D dm (n # ns) ob =
     (case elementFromNode n of
        Some element \<Rightarrow> processRemovedNodes D dm ns
                          (fold (removeElement D) (matchElementsInTree D dm element) ob)
      | None \<Rightarrow> processRemovedNodes D dm ns ob)"

fun processAddedNodes ::
  "'d element_delegate \<Rightarrow> dom \<Rightarrow> node list \<Rightarrow> 'd element_observer \<Rightarrow> 'd element_observer" where
  "processAddedNodes D dm [] ob = ob"
| "processAddedNodes D dm (n # ns) ob =
     (case elementFromNode n of
        Some element \<Rightarrow>
          if contained dm element
          then processAddedNodes D dm ns
                 (fold (addElement D dm) (matchElementsInTree D dm element) ob)
          else processAddedNodes D dm ns ob
      | None \<Rightarrow> processAddedNodes D dm ns ob)"

fun processMutation ::
  "'d element_delegate \<Rightarrow> dom \<Rightarrow> mutation \<Rightarrow> 'd element_observer \<Rightarrow> 'd element_observer" where
  "processMutation D dm (AttributeMutation target name) ob =
     processAttributeChange D dm target name ob"
| "processMutation D dm (ChildListMutation removed added) ob =
     processAddedNodes D dm added (processRemovedNodes D dm removed ob)"

definition processMutations ::
  "'d element_delegate \<Rightarrow> dom \<Rightarrow> mutation list \<Rightarrow> 'd element_observer \<Rightarrow> 'd element_observer" where
  "processMutations D dm mutations ob =
     (if eo_started ob then fold (processMutation D dm) mutations ob else ob)"

text \<open>The calls an element observer receives, each with the DOM at that moment.\<close>

datatype observer_call =
    Start dom | Stop | Refresh dom | Mutations dom "mutation list"

fun eo_call :: "'d element_delegate \<Rightarrow> observer_call \<Rightarrow> 'd element_observer \<Rightarrow> 'd element_observer" where
  "eo_call D (Start dm) ob = eo_start D dm ob"
| "eo_call D Stop ob = eo_stop ob"
| "eo_call D (Refresh dm) ob = eo_refresh D dm ob"
| "eo_call D (Mutations dm ms) ob = processMutations D dm ms ob"

definition eo_run ::
  "'d element_delegate \<Rightarrow> observer_call list \<Rightarrow> 'd element_observer \<Rightarrow> 'd element_observer" where
  "eo_run D calls ob = fold (eo_call D) calls ob"

section \<open>Tokens\<close>

record token =
  t_id :: nat
  t_element :: nat
  t_attributeName :: jsstr
  t_content :: jsstr
  t_index :: nat

text \<open>\<open>first\<close> is the number the next allocated token object gets.\<close>

definition parseTokenString :: "nat \<Rightarrow> jsstr \<Rightarrow> nat \<Rightarrow> jsstr \<Rightarrow> token list" where
  "parseTokenString first tokenString element attributeName =
     map (\<lambda>(index, content).
            \<lparr>t_id = first + index, t_element = element, t_attributeName = attributeName,
             t_content = content, t_index = index\<rparr>)
       (enumerate 0 (words tokenString))"

definition at :: "'a list \<Rightarrow> nat \<Rightarrow> 'a option" where
  "at xs i = (if i < length xs then Some (xs ! i) else None)"

definition js_zip :: "'a list \<Rightarrow> 'a list \<Rightarrow> ('a option \<times> 'a option) list" where
  "js_zip left right =
     map (\<lambda>index. (at left index, at right index)) [0..<max (length left) (length right)]"

fun tokensAreEqual :: "token option \<times> token option \<Rightarrow> bool" where
  "tokensAreEqual (Some left, Some right) =
     (t_index left = t_index right \<and> t_content left = t_content right)"
| "tokensAreEqual _ = False"

text \<open>\<open>findIndex\<close>, with \<open>None\<close> for the result -1.\<close>

fun findIndex :: "('a \<Rightarrow> bool) \<Rightarrow> 'a list \<Rightarrow> nat option" where
  "findIndex P [] = None"
| "findIndex P (x # xs) = (if P x then Some 0 else map_option Suc (findIndex P xs))"

section \<open>TokenListObserver\<close>

record 'd token_delegate =
  tokenMatched :: "token \<Rightarrow> 'd \<Rightarrow> 'd"
  tokenUnmatched :: "token \<Rightarrow> 'd \<Rightarrow> 'd"

record 'd token_list_observer =
  tlo_tokens :: "(nat, token) multimap"
  tlo_next :: nat
  tlo_delegate :: 'd

definition new_token_list_observer :: "'d \<Rightarrow> 'd token_list_observer" where
  "new_token_list_observer d = \<lparr>tlo_tokens = [], tlo_next = 0, tlo_delegate = d\<rparr>"

definition readTokensForElement :: "jsstr \<Rightarrow> dom \<Rightarrow> nat \<Rightarrow> nat \<Rightarrow> token list" where
  "readTokensForElement attributeName dm first element =
     (let tokenString = (case getAttr dm element attributeName of Some s \<Rightarrow> s | None \<Rightarrow> [])
      in parseTokenString first tokenString element attributeName)"

definition tlo_tokenMatched ::
  "'d token_delegate \<Rightarrow> token \<Rightarrow> 'd token_list_observer \<Rightarrow> 'd token_list_observer" where
  "tlo_tokenMatched T token ob =
     (let ob' = ob\<lparr>tlo_delegate := tokenMatched T token (tlo_delegate ob)\<rparr>
      in ob'\<lparr>tlo_tokens := mm_add (t_element token) token (tlo_tokens ob')\<rparr>)"

definition tlo_tokenUnmatched ::
  "'d token_delegate \<Rightarrow> token \<Rightarrow> 'd token_list_observer \<Rightarrow> 'd token_list_observer" where
  "tlo_tokenUnmatched T token ob =
     (let ob' = ob\<lparr>tlo_delegate := tokenUnmatched T token (tlo_delegate ob)\<rparr>
      in ob'\<lparr>tlo_tokens := mm_del (t_element token) token (tlo_tokens ob')\<rparr>)"

definition tokensMatched ::
  "'d token_delegate \<Rightarrow> token list \<Rightarrow> 'd token_list_observer \<Rightarrow> 'd token_list_observer" where
  "tokensMatched T tokens ob = fold (tlo_tokenMatched T) tokens ob"

definition tokensUnmatched ::
  "'d token_delegate \<Rightarrow> token list \<Rightarrow> 'd token_list_observer \<Rightarrow> 'd token_list_observer" where
  "tokensUnmatched T tokens ob = fold (tlo_tokenUnmatched T) tokens ob"

definition allocated :: "token list \<Rightarrow> 'd token_list_observer \<Rightarrow> 'd token_list_observer" where
  "allocated tokens ob = ob\<lparr>tlo_next := tlo_next ob + length tokens\<rparr>"

definition elementMatchedAttribute ::
  "'d token_delegate \<Rightarrow> jsstr \<Rightarrow> dom \<Rightarrow> nat \<Rightarrow> 'd token_list_observer \<Rightarrow> 'd token_list_observer" where
  "elementMatchedAttribute T name dm element ob =
     (let tokens = readTokensForElement name dm (tlo_next ob) element
      in tokensMatched T tokens (allocated tokens ob))"

definition refreshTokensForElement ::
  "jsstr \<Rightarrow> dom \<Rightarrow> nat \<Rightarrow> 'd token_list_observer \<Rightarrow>
     (token list \<times> token list) \<times> 'd token_list_observer" where
  "refreshTokensForElement name dm element ob =
     (let previousTokens = mm_values_for_key (tlo_tokens ob) element;
          currentTokens = readTokensForElement name dm (tlo_next ob) element;
          ob' = allocated currentTokens ob
      in case findIndex (\<lambda>p. \<not> tokensAreEqual p) (js_zip previousTokens currentTokens) of
           None \<Rightarrow> (([], []), ob')
         | Some firstDifferingIndex \<Rightarrow>
             ((drop firstDifferingIndex previousTokens, drop firstDifferingIndex currentTokens), ob'))"

definition elementAttributeValueChanged ::
  "'d token_delegate \<Rightarrow> jsstr \<Rightarrow> dom \<Rightarrow> nat \<Rightarrow> 'd token_list_observer \<Rightarrow> 'd token_list_observer" where
  "elementAttributeValueChanged T name dm element ob =
     (let ((unmatchedTokens, matchedTokens), ob') = refreshTokensForElement name dm element ob
      in tokensMatched T matchedTokens (tokensUnmatched T unmatchedTokens ob'))"

definition elementUnmatchedAttribute ::
  "'d token_delegate \<Rightarrow> nat \<Rightarrow> 'd token_list_observer \<Rightarrow> 'd token_list_observer" where
  "elementUnmatchedAttribute T element ob =
     tokensUnmatched T (mm_values_for_key (tlo_tokens ob) element) ob"

section \<open>AttributeObserver\<close>

text \<open>The delegate an \<open>AttributeObserver\<close> is for its element observer.\<close>

definition attribute_observer ::
  "'d token_delegate \<Rightarrow> jsstr \<Rightarrow> 'd token_list_observer element_delegate" where
  "attribute_observer T attributeName =
     \<lparr>matchElement = (\<lambda>dm element. getAttr dm element attributeName \<noteq> None),
      matchElementsInTree =
        (\<lambda>dm tree. filter (\<lambda>element. getAttr dm element attributeName \<noteq> None) (subtree dm tree)),
      elementMatched = elementMatchedAttribute T attributeName,
      elementUnmatched = elementUnmatchedAttribute T,
      elementAttributeChanged =
        (\<lambda>dm element name d.
           if attributeName = name then elementAttributeValueChanged T attributeName dm element d
           else d)\<rparr>"

section \<open>ValueListObserver\<close>

record ('v, 'd) value_delegate =
  parseValueForToken :: "token \<Rightarrow> 'd \<Rightarrow> (js_error + 'v option) \<times> 'd"
  elementMatchedValue :: "nat \<Rightarrow> 'v \<Rightarrow> 'd \<Rightarrow> 'd"
  elementUnmatchedValue :: "nat \<Rightarrow> 'v \<Rightarrow> 'd \<Rightarrow> 'd"

datatype 'v parse_result = ParsedValue "'v option" | ParseError js_error

fun result_value :: "'v parse_result \<Rightarrow> 'v option" where
  "result_value (ParsedValue value) = value"
| "result_value (ParseError _) = None"

record ('v, 'd) value_list_observer =
  vlo_results :: "(token, 'v parse_result) jsmap"
  vlo_values :: "(nat, (token, 'v) jsmap) jsmap"
  vlo_delegate :: 'd

definition new_value_list_observer :: "'d \<Rightarrow> ('v, 'd) value_list_observer" where
  "new_value_list_observer d = \<lparr>vlo_results = [], vlo_values = [], vlo_delegate = d\<rparr>"

definition parseToken ::
  "('v, 'd) value_delegate \<Rightarrow> token \<Rightarrow> ('v, 'd) value_list_observer \<Rightarrow>
     'v parse_result \<times> ('v, 'd) value_list_observer" where
  "parseToken V token ob =
     (case parseValueForToken V token (vlo_delegate ob) of
        (Inr value, d) \<Rightarrow> (ParsedValue value, ob\<lparr>vlo_delegate := d\<rparr>)
      | (Inl error, d) \<Rightarrow> (ParseError error, ob\<lparr>vlo_delegate := d\<rparr>))"

definition fetchParseResultForToken ::
  "('v, 'd) value_delegate \<Rightarrow> token \<Rightarrow> ('v, 'd) value_list_observer \<Rightarrow>
     'v parse_result \<times> ('v, 'd) value_list_observer" where
  "fetchParseResultForToken V token ob =
     (case map_get (vlo_results ob) token of
        Some parseResult \<Rightarrow> (parseResult, ob)
      | None \<Rightarrow>
          let (parseResult, ob') = parseToken V token ob
          in (parseResult, ob'\<lparr>vlo_results := map_set token parseResult (vlo_results ob')\<rparr>))"

definition fetchValuesByTokenForElement ::
  "nat \<Rightarrow> ('v, 'd) value_list_observer \<Rightarrow> (token, 'v) jsmap \<times> ('v, 'd) value_list_observer" where
  "fetchValuesByTokenForElement element ob =
     (case map_get (vlo_values ob) element of
        Some valuesByToken \<Rightarrow> (valuesByToken, ob)
      | None \<Rightarrow> ([], ob\<lparr>vlo_values := map_set element [] (vlo_values ob)\<rparr>))"

definition vlo_tokenMatched ::
  "('v, 'd) value_delegate \<Rightarrow> token \<Rightarrow> ('v, 'd) value_list_observer \<Rightarrow> ('v, 'd) value_list_observer" where
  "vlo_tokenMatched V token ob =
     (let element = t_element token;
          (parseResult, o1) = fetchParseResultForToken V token ob
      in case result_value parseResult of
           None \<Rightarrow> o1
         | Some value \<Rightarrow>
             let (valuesByToken, o2) = fetchValuesByTokenForElement element o1
             in o2\<lparr>vlo_values := map_set element (map_set token value valuesByToken) (vlo_values o2),
                   vlo_delegate := elementMatchedValue V element value (vlo_delegate o2)\<rparr>)"

definition vlo_tokenUnmatched ::
  "('v, 'd) value_delegate \<Rightarrow> token \<Rightarrow> ('v, 'd) value_list_observer \<Rightarrow> ('v, 'd) value_list_observer" where
  "vlo_tokenUnmatched V token ob =
     (let element = t_element token;
          (parseResult, o1) = fetchParseResultForToken V token ob
      in case result_value parseResult of
           None \<Rightarrow> o1
         | Some value \<Rightarrow>
             let (valuesByToken, o2) = fetchValuesByTokenForElement element o1
             in o2\<lparr>vlo_values := map_set element (map_delete token valuesByToken) (vlo_values o2),
                   vlo_delegate := elementUnmatchedValue V element value (vlo_delegate o2)\<rparr>)"

definition value_list_observer ::
  "('v, 'd) value_delegate \<Rightarrow> ('v, 'd) value_list_observer token_delegate" where
  "value_list_observer V =
     \<lparr>tokenMatched = vlo_tokenMatched V, tokenUnmatched = vlo_tokenUnmatched V\<rparr>"

section \<open>Element observers over a lawful delegate\<close>

locale element_delegate_laws =
  fixes D :: "'d element_delegate"
    and ok :: "nat set \<Rightarrow> 'd \<Rightarrow> bool"
  assumes matched_ok: "ok E d \<Longrightarrow> e \<notin> E \<Longrightarrow> ok (insert e E) (elementMatched D dm e d)"
    and unmatched_ok: "ok E d \<Longrightarrow> e \<in> E \<Longrightarrow> ok (E - {e}) (elementUnmatched D e d)"
    and changed_ok: "ok E d \<Longrightarrow> e \<in> E \<Longrightarrow> ok E (elementAttributeChanged D dm e name d)"
begin

definition eo_ok :: "'d element_observer \<Rightarrow> bool" where
  "eo_ok ob \<longleftrightarrow> distinct (eo_elements ob) \<and> ok (set (eo_elements ob)) (eo_delegate ob)"

lemma addElement_ok: "eo_ok ob \<Longrightarrow> eo_ok (addElement D dm e ob)"
  using matched_ok [of "set (eo_elements ob)" "eo_delegate ob" e dm]
  by (auto simp: eo_ok_def addElement_def)

lemma removeElement_ok: "eo_ok ob \<Longrightarrow> eo_ok (removeElement D e ob)"
  using unmatched_ok [of "set (eo_elements ob)" "eo_delegate ob" e]
  by (auto simp: eo_ok_def removeElement_def)

lemma fold_ok: "(\<And>x ob. eo_ok ob \<Longrightarrow> eo_ok (f x ob)) \<Longrightarrow> eo_ok ob \<Longrightarrow> eo_ok (fold f xs ob)"
  by (induction xs arbitrary: ob) auto

lemma processAttributeChange_ok: "eo_ok ob \<Longrightarrow> eo_ok (processAttributeChange D dm e name ob)"
  using changed_ok [of "set (eo_elements ob)" "eo_delegate ob" e dm name]
  by (auto simp: processAttributeChange_def addElement_ok removeElement_ok) (simp add: eo_ok_def)

lemma processRemovedNodes_ok: "eo_ok ob \<Longrightarrow> eo_ok (processRemovedNodes D dm ns ob)"
proof (induction ns arbitrary: ob)
  case (Cons n ns)
  then show ?case by (cases n) (simp_all add: fold_ok removeElement_ok)
qed simp

lemma processAddedNodes_ok: "eo_ok ob \<Longrightarrow> eo_ok (processAddedNodes D dm ns ob)"
proof (induction ns arbitrary: ob)
  case (Cons n ns)
  then show ?case by (cases n) (simp_all add: fold_ok addElement_ok)
qed simp

lemma processMutation_ok: "eo_ok ob \<Longrightarrow> eo_ok (processMutation D dm m ob)"
  by (cases m) (simp_all add: processAttributeChange_ok processRemovedNodes_ok processAddedNodes_ok)

lemma eo_refresh_ok: "eo_ok ob \<Longrightarrow> eo_ok (eo_refresh D dm ob)"
  by (auto simp: eo_refresh_def Let_def intro!: fold_ok addElement_ok removeElement_ok)

lemma eo_ok_started: "eo_ok (ob\<lparr>eo_started := b\<rparr>) = eo_ok ob"
  by (simp add: eo_ok_def)

lemma eo_call_ok: "eo_ok ob \<Longrightarrow> eo_ok (eo_call D c ob)"
  by (cases c) (auto simp: eo_start_def eo_stop_def processMutations_def eo_ok_started
      intro!: eo_refresh_ok fold_ok processMutation_ok)

lemma eo_run_ok: "eo_ok ob \<Longrightarrow> eo_ok (eo_run D calls ob)"
  unfolding eo_run_def by (intro fold_ok eo_call_ok)

end

section \<open>The token diff\<close>

lemma findIndex_None: "findIndex P xs = None \<longleftrightarrow> (\<forall>x \<in> set xs. \<not> P x)"
  by (induction xs) auto

lemma findIndex_Some:
  "findIndex P xs = Some k \<Longrightarrow> k < length xs \<and> P (xs ! k) \<and> (\<forall>i < k. \<not> P (xs ! i))"
proof (induction xs arbitrary: k)
  case (Cons x xs)
  show ?case
  proof (cases "P x")
    case False
    with Cons.prems obtain j where "findIndex P xs = Some j" "k = Suc j" by auto
    with Cons.IH [of j] False show ?thesis by (auto simp: less_Suc_eq_0_disj)
  qed (use Cons.prems in auto)
qed simp

definition same_token :: "token \<Rightarrow> token \<Rightarrow> bool" where
  "same_token left right \<longleftrightarrow> t_index left = t_index right \<and> t_content left = t_content right"

lemma tokensAreEqual_at:
  "tokensAreEqual (at xs i, at ys i) \<longleftrightarrow>
     i < length xs \<and> i < length ys \<and> same_token (xs ! i) (ys ! i)"
  by (auto simp: at_def same_token_def)

definition diff_index :: "token list \<Rightarrow> token list \<Rightarrow> nat option" where
  "diff_index xs ys = findIndex (\<lambda>p. \<not> tokensAreEqual p) (js_zip xs ys)"

lemma diff_index_None:
  assumes "diff_index xs ys = None"
  shows "length xs = length ys \<and> list_all2 same_token xs ys"
proof -
  have eq: "i < length xs \<and> i < length ys \<and> same_token (xs ! i) (ys ! i)"
    if "i < max (length xs) (length ys)" for i
  proof -
    have "(at xs i, at ys i) \<in> set (js_zip xs ys)" using that by (simp add: js_zip_def)
    then have "tokensAreEqual (at xs i, at ys i)"
      using assms by (simp add: diff_index_def findIndex_None)
    then show ?thesis by (simp only: tokensAreEqual_at)
  qed
  have "length xs = length ys"
    using eq [of "length xs"] eq [of "length ys"] by linarith
  with eq show ?thesis by (simp add: list_all2_conv_all_nth)
qed

lemma diff_index_Some:
  assumes "diff_index xs ys = Some k"
  shows "k \<le> length xs \<and> k \<le> length ys \<and> list_all2 same_token (take k xs) (take k ys)"
proof -
  have k: "k < max (length xs) (length ys)"
    and eq: "i < k \<Longrightarrow> i < length xs \<and> i < length ys \<and> same_token (xs ! i) (ys ! i)" for i
    using findIndex_Some [OF assms [unfolded diff_index_def]]
    by (auto simp: js_zip_def tokensAreEqual_at)
  have "k \<le> length xs \<and> k \<le> length ys"
    using eq [of "length xs"] eq [of "length ys"] by (meson less_irrefl not_le)
  with eq show ?thesis by (simp add: list_all2_conv_all_nth)
qed

text \<open>What a token list says, forgetting which objects carry it.\<close>

definition token_texts :: "token list \<Rightarrow> (nat \<times> jsstr) list" where
  "token_texts ts = map (\<lambda>t. (t_index t, t_content t)) ts"

lemma same_token_texts: "list_all2 same_token xs ys \<Longrightarrow> token_texts xs = token_texts ys"
  by (induction rule: list_all2_induct) (auto simp: token_texts_def same_token_def)

lemma token_texts_append: "token_texts (xs @ ys) = token_texts xs @ token_texts ys"
  by (simp add: token_texts_def)

text \<open>The list that remains after the unmatched suffix is dropped and the matched one added.\<close>

definition patched :: "token list \<Rightarrow> token list \<Rightarrow> token list" where
  "patched xs ys = (case diff_index xs ys of None \<Rightarrow> xs | Some k \<Rightarrow> take k xs @ drop k ys)"

lemma token_texts_patched: "token_texts (patched xs ys) = token_texts ys"
proof (cases "diff_index xs ys")
  case None
  then show ?thesis by (auto simp: patched_def dest!: diff_index_None same_token_texts)
next
  case (Some k)
  then have "token_texts (take k xs) = token_texts (take k ys)"
    by (auto dest!: diff_index_Some same_token_texts)
  with Some have "token_texts (patched xs ys) = token_texts (take k ys @ drop k ys)"
    by (simp only: patched_def option.case token_texts_append)
  then show ?thesis by simp
qed

lemma length_parse: "length (parseTokenString n s e a) = length (words s)"
  by (simp add: parseTokenString_def)

lemma nth_parse:
  "i < length (words s) \<Longrightarrow> parseTokenString n s e a ! i =
     \<lparr>t_id = n + i, t_element = e, t_attributeName = a, t_content = words s ! i, t_index = i\<rparr>"
  by (simp add: parseTokenString_def nth_enumerate_eq)

lemma token_texts_parse: "token_texts (parseTokenString n s e a) = enumerate 0 (words s)"
  by (rule nth_equalityI)
     (simp_all add: token_texts_def length_parse nth_parse nth_enumerate_eq)

lemma parse_ids: "map t_id (parseTokenString n s e a) = [n..<n + length (words s)]"
  by (rule nth_equalityI) (simp_all add: length_parse nth_parse)

lemma parse_elements: "t \<in> set (parseTokenString n s e a) \<Longrightarrow> t_element t = e"
  by (auto simp: parseTokenString_def)

definition attribute_words :: "jsstr \<Rightarrow> dom \<Rightarrow> nat \<Rightarrow> jsstr list" where
  "attribute_words name dm e =
     words (case getAttr dm e name of Some s \<Rightarrow> s | None \<Rightarrow> [])"

lemma read_texts: "token_texts (readTokensForElement name dm n e) = enumerate 0 (attribute_words name dm e)"
  by (simp add: readTokensForElement_def token_texts_parse attribute_words_def)

lemma read_ids: "map t_id (readTokensForElement name dm n e) = [n..<n + length (attribute_words name dm e)]"
  by (simp add: readTokensForElement_def parse_ids attribute_words_def)

lemma read_length: "length (readTokensForElement name dm n e) = length (attribute_words name dm e)"
  by (simp add: readTokensForElement_def length_parse attribute_words_def)

lemma read_element: "t \<in> set (readTokensForElement name dm n e) \<Longrightarrow> t_element t = e"
  by (auto simp: readTokensForElement_def dest: parse_elements)

lemma read_fresh: "t \<in> set (readTokensForElement name dm n e) \<Longrightarrow>
    n \<le> t_id t \<and> t_id t < n + length (readTokensForElement name dm n e)"
proof -
  assume "t \<in> set (readTokensForElement name dm n e)"
  then have "t_id t \<in> set (map t_id (readTokensForElement name dm n e))" by simp
  then show ?thesis unfolding read_ids read_length by auto
qed

lemma read_distinct: "distinct (map t_id (readTokensForElement name dm n e))"
  by (simp add: read_ids)

section \<open>Token list observers over a lawful delegate\<close>

definition live_tokens :: "'d token_list_observer \<Rightarrow> token set" where
  "live_tokens ob = Range (mm_rel (tlo_tokens ob))"

definition tokens_wf :: "'d token_list_observer \<Rightarrow> bool" where
  "tokens_wf ob \<longleftrightarrow> mm_wf (tlo_tokens ob) \<and> inj_on t_id (live_tokens ob) \<and>
     (\<forall>t \<in> live_tokens ob. t_id t < tlo_next ob) \<and>
     (\<forall>(e, t) \<in> mm_rel (tlo_tokens ob). t_element t = e)"

lemma tokens_wf_new [simp]: "tokens_wf (new_token_list_observer d)"
  by (simp add: tokens_wf_def new_token_list_observer_def live_tokens_def)

lemma live_tokens_iff: "t \<in> live_tokens ob \<longleftrightarrow> (\<exists>e. t \<in> set (mm_values_for_key (tlo_tokens ob) e))"
  by (auto simp: live_tokens_def Range_iff mm_rel_def)

lemma tokens_wf_element:
  "tokens_wf ob \<Longrightarrow> t \<in> set (mm_values_for_key (tlo_tokens ob) e) \<Longrightarrow> t_element t = e"
  by (auto simp: tokens_wf_def mm_rel_def)

lemma live_tokens_element:
  "tokens_wf ob \<Longrightarrow> t \<in> live_tokens ob \<longleftrightarrow> t \<in> set (mm_values_for_key (tlo_tokens ob) (t_element t))"
  using tokens_wf_element live_tokens_iff by blast

lemma tokens_wf_distinct:
  "tokens_wf ob \<Longrightarrow> distinct (mm_values_for_key (tlo_tokens ob) e)"
  by (auto simp: tokens_wf_def mm_values_for_key_def split: option.splits dest: mm_wf_lookup)

lemma tokens_wf_allocated: "tokens_wf ob \<Longrightarrow> tokens_wf (allocated ts ob)"
  by (auto simp: tokens_wf_def allocated_def live_tokens_def intro: trans_less_add1)

lemma tokensMatched_tokens:
  "\<forall>t \<in> set ts. t_element t = e \<Longrightarrow>
   tlo_tokens (tokensMatched T ts ob) = fold (mm_add e) ts (tlo_tokens ob)"
  unfolding tokensMatched_def
  by (induction ts arbitrary: ob) (simp_all add: tlo_tokenMatched_def)

lemma tokensUnmatched_tokens:
  "\<forall>t \<in> set ts. t_element t = e \<Longrightarrow>
   tlo_tokens (tokensUnmatched T ts ob) = fold (mm_del e) ts (tlo_tokens ob)"
  unfolding tokensUnmatched_def
  by (induction ts arbitrary: ob) (simp_all add: tlo_tokenUnmatched_def)

lemma tokensMatched_next [simp]: "tlo_next (tokensMatched T ts ob) = tlo_next ob"
  unfolding tokensMatched_def by (induction ts arbitrary: ob) (simp_all add: tlo_tokenMatched_def)

lemma tokensUnmatched_next [simp]: "tlo_next (tokensUnmatched T ts ob) = tlo_next ob"
  unfolding tokensUnmatched_def by (induction ts arbitrary: ob) (simp_all add: tlo_tokenUnmatched_def)

locale token_delegate_laws =
  fixes T :: "'d token_delegate"
    and live_ok :: "token set \<Rightarrow> 'd \<Rightarrow> bool"
  assumes tokenMatched_ok:
      "live_ok L d \<Longrightarrow> t_id t \<notin> t_id ` L \<Longrightarrow> live_ok (insert t L) (tokenMatched T t d)"
    and tokenUnmatched_ok:
      "live_ok L d \<Longrightarrow> t \<in> L \<Longrightarrow> live_ok (L - {t}) (tokenUnmatched T t d)"
begin

definition tlo_ok :: "'d token_list_observer \<Rightarrow> bool" where
  "tlo_ok ob \<longleftrightarrow> tokens_wf ob \<and> live_ok (live_tokens ob) (tlo_delegate ob)"

lemma tlo_ok_allocated: "tlo_ok ob \<Longrightarrow> tlo_ok (allocated ts ob)"
  using tokens_wf_allocated [of ob ts] by (simp add: tlo_ok_def allocated_def live_tokens_def)

lemma live_tokenMatched: "live_tokens (tlo_tokenMatched T t ob) = insert t (live_tokens ob)"
  by (simp add: live_tokens_def tlo_tokenMatched_def mm_rel_add)

lemma tlo_tokenMatched_ok:
  assumes "tlo_ok ob" and "t_id t \<notin> t_id ` live_tokens ob" and "t_id t < tlo_next ob"
  shows "tlo_ok (tlo_tokenMatched T t ob)"
proof -
  have "tokens_wf (tlo_tokenMatched T t ob)"
    using assms unfolding tokens_wf_def tlo_ok_def live_tokenMatched
    by (auto simp: tlo_tokenMatched_def mm_rel_add)
  moreover have "live_ok (insert t (live_tokens ob)) (tlo_delegate (tlo_tokenMatched T t ob))"
    using assms tokenMatched_ok by (simp add: tlo_ok_def tlo_tokenMatched_def)
  ultimately show ?thesis by (simp add: tlo_ok_def live_tokenMatched)
qed

lemma tokensMatched_ok:
  "tlo_ok ob \<Longrightarrow> distinct (map t_id ts) \<Longrightarrow> t_id ` set ts \<inter> t_id ` live_tokens ob = {} \<Longrightarrow>
   \<forall>t \<in> set ts. t_id t < tlo_next ob \<Longrightarrow> tlo_ok (tokensMatched T ts ob)"
  unfolding tokensMatched_def
proof (induction ts arbitrary: ob)
  case (Cons t ts)
  have "t_id t \<notin> t_id ` live_tokens ob" using Cons.prems(3) by auto
  then have "tlo_ok (tlo_tokenMatched T t ob)"
    using Cons.prems(1,4) by (intro tlo_tokenMatched_ok) simp_all
  moreover have "tlo_next (tlo_tokenMatched T t ob) = tlo_next ob"
    by (simp add: tlo_tokenMatched_def)
  moreover have "t_id ` set ts \<inter> t_id ` live_tokens (tlo_tokenMatched T t ob) = {}"
    using Cons.prems(2,3) by (auto simp: live_tokenMatched)
  ultimately show ?case using Cons.prems(2,4) by (simp add: Cons.IH)
qed simp

lemma live_tokenUnmatched:
  assumes "tokens_wf ob"
  shows "live_tokens (tlo_tokenUnmatched T t ob) = live_tokens ob - {t}"
proof -
  have "mm_rel (tlo_tokens (tlo_tokenUnmatched T t ob)) = mm_rel (tlo_tokens ob) - {(t_element t, t)}"
    by (simp add: tlo_tokenUnmatched_def mm_rel_del)
  with assms show ?thesis by (auto simp: live_tokens_def tokens_wf_def)
qed

lemma tlo_tokenUnmatched_ok:
  assumes "tlo_ok ob" and "t \<in> live_tokens ob"
  shows "tlo_ok (tlo_tokenUnmatched T t ob)"
proof -
  have wf: "tokens_wf ob" using assms(1) by (simp add: tlo_ok_def)
  then have "tokens_wf (tlo_tokenUnmatched T t ob)"
    unfolding tokens_wf_def live_tokenUnmatched [OF wf]
    by (auto simp: tlo_tokenUnmatched_def mm_rel_del intro: inj_on_diff)
  moreover have "live_ok (live_tokens ob - {t}) (tlo_delegate (tlo_tokenUnmatched T t ob))"
    using assms tokenUnmatched_ok by (simp add: tlo_ok_def tlo_tokenUnmatched_def)
  ultimately show ?thesis by (simp add: tlo_ok_def live_tokenUnmatched [OF wf])
qed

lemma tokensUnmatched_ok:
  "tlo_ok ob \<Longrightarrow> distinct ts \<Longrightarrow> set ts \<subseteq> live_tokens ob \<Longrightarrow> tlo_ok (tokensUnmatched T ts ob)"
  unfolding tokensUnmatched_def
proof (induction ts arbitrary: ob)
  case (Cons t ts)
  moreover have "live_tokens (tlo_tokenUnmatched T t ob) = live_tokens ob - {t}"
    using Cons.prems(1) by (simp add: tlo_ok_def live_tokenUnmatched)
  ultimately show ?case by (simp add: tlo_tokenUnmatched_ok subset_Diff_insert)
qed simp

lemma fresh_disjoint:
  assumes "tlo_ok ob"
  shows "t_id ` set (readTokensForElement name dm (tlo_next ob) e) \<inter> t_id ` live_tokens ob = {}"
  using assms read_fresh [of _ name dm "tlo_next ob" e] by (fastforce simp: tlo_ok_def tokens_wf_def)

lemma live_allocated [simp]: "live_tokens (allocated ts ob) = live_tokens ob"
  by (simp add: live_tokens_def allocated_def)

lemma next_allocated [simp]: "tlo_next (allocated ts ob) = tlo_next ob + length ts"
  by (simp add: allocated_def)

lemma tokens_allocated [simp]: "tlo_tokens (allocated ts ob) = tlo_tokens ob"
  by (simp add: allocated_def)

lemma elementMatchedAttribute_ok:
  assumes "tlo_ok ob"
  shows "tlo_ok (elementMatchedAttribute T name dm e ob)"
  unfolding elementMatchedAttribute_def Let_def
  using assms fresh_disjoint [OF assms] read_fresh [of _ name dm "tlo_next ob" e]
  by (intro tokensMatched_ok tlo_ok_allocated) (auto simp: read_distinct)

lemma elementUnmatchedAttribute_ok:
  assumes "tlo_ok ob"
  shows "tlo_ok (elementUnmatchedAttribute T e ob)"
  unfolding elementUnmatchedAttribute_def
  using assms tokens_wf_distinct [of ob e]
  by (intro tokensUnmatched_ok) (auto simp: tlo_ok_def live_tokens_iff)

text \<open>The diff: the old suffix is unmatched, the new suffix matched, the rest untouched.\<close>

lemma elementAttributeValueChanged_cases:
  "elementAttributeValueChanged T name dm e ob =
     (let old_ts = mm_values_for_key (tlo_tokens ob) e;
          new_ts = readTokensForElement name dm (tlo_next ob) e
      in case diff_index old_ts new_ts of
           None \<Rightarrow> allocated new_ts ob
         | Some k \<Rightarrow> tokensMatched T (drop k new_ts) (tokensUnmatched T (drop k old_ts) (allocated new_ts ob)))"
  by (simp add: elementAttributeValueChanged_def refreshTokensForElement_def diff_index_def Let_def
        tokensMatched_def tokensUnmatched_def split: option.splits)

lemma live_tokenUnmatched_subset: "live_tokens (tlo_tokenUnmatched T t ob) \<subseteq> live_tokens ob"
  by (auto simp: live_tokens_def tlo_tokenUnmatched_def mm_rel_del)

lemma live_tokensUnmatched_subset: "live_tokens (tokensUnmatched T ts ob) \<subseteq> live_tokens ob"
  unfolding tokensUnmatched_def
proof (induction ts arbitrary: ob)
  case (Cons t ts)
  then show ?case using live_tokenUnmatched_subset [of t ob] by fastforce
qed simp

lemma elementAttributeValueChanged_ok:
  assumes "tlo_ok ob"
  shows "tlo_ok (elementAttributeValueChanged T name dm e ob)"
proof -
  define old_ts where "old_ts = mm_values_for_key (tlo_tokens ob) e"
  define new_ts where "new_ts = readTokensForElement name dm (tlo_next ob) e"
  have "tlo_ok (tokensMatched T (drop k new_ts) (tokensUnmatched T (drop k old_ts) (allocated new_ts ob)))" for k
  proof (rule tokensMatched_ok)
    have "set old_ts \<subseteq> live_tokens ob"
      by (auto simp: old_ts_def live_tokens_iff)
    then have "set (drop k old_ts) \<subseteq> live_tokens ob"
      using set_drop_subset by (rule order_trans [rotated])
    then show ok: "tlo_ok (tokensUnmatched T (drop k old_ts) (allocated new_ts ob))"
      using assms tokens_wf_distinct [of ob e]
      by (intro tokensUnmatched_ok tlo_ok_allocated) (auto simp: old_ts_def tlo_ok_def)
    show "distinct (map t_id (drop k new_ts))"
      by (simp add: new_ts_def read_distinct drop_map [symmetric])
    have "live_tokens (tokensUnmatched T (drop k old_ts) (allocated new_ts ob)) \<subseteq> live_tokens ob"
      using live_tokensUnmatched_subset [of "drop k old_ts" "allocated new_ts ob"] by simp
    then show "t_id ` set (drop k new_ts) \<inter>
        t_id ` live_tokens (tokensUnmatched T (drop k old_ts) (allocated new_ts ob)) = {}"
      using fresh_disjoint [OF assms, of name dm e] set_drop_subset [of k new_ts] unfolding new_ts_def by blast
    show "\<forall>t \<in> set (drop k new_ts). t_id t < tlo_next (tokensUnmatched T (drop k old_ts) (allocated new_ts ob))"
      using read_fresh [of _ name dm "tlo_next ob" e] by (auto simp: new_ts_def dest: in_set_dropD)
  qed
  then show ?thesis
    using assms by (simp add: elementAttributeValueChanged_cases Let_def old_ts_def new_ts_def
        tlo_ok_allocated split: option.splits)
qed

lemma tokens_after_change:
  fixes e :: nat and dm :: dom and name :: jsstr
  assumes "tlo_ok ob"
  defines "old_ts \<equiv> mm_values_for_key (tlo_tokens ob) e"
    and "new_ts \<equiv> readTokensForElement name dm (tlo_next ob) e"
  shows "mm_values_for_key (tlo_tokens (elementAttributeValueChanged T name dm e ob)) e = patched old_ts new_ts"
proof (cases "diff_index old_ts new_ts")
  case None
  then show ?thesis
    by (simp add: elementAttributeValueChanged_cases Let_def patched_def flip: old_ts_def new_ts_def)
next
  case (Some k)
  have wf: "mm_wf (tlo_tokens ob)" and d: "distinct old_ts"
    using assms(1) tokens_wf_distinct by (auto simp: tlo_ok_def tokens_wf_def old_ts_def)
  have el: "\<forall>t \<in> set (drop k old_ts). t_element t = e" "\<forall>t \<in> set (drop k new_ts). t_element t = e"
    using assms(1) tokens_wf_element read_element
    by (auto simp: old_ts_def new_ts_def tlo_ok_def dest!: in_set_dropD)
  define m where "m = fold (mm_del e) (drop k old_ts) (tlo_tokens ob)"
  have m: "mm_values_for_key m e = take k old_ts" "mm_wf m"
    unfolding m_def using wf d
    by (auto intro!: mm_key.elems_fold_del_suffix mm_key.invar_fold_del simp: old_ts_def)
  have "set new_ts \<inter> set old_ts = {}"
    using fresh_disjoint [OF assms(1), of name dm e] live_tokens_iff
    unfolding new_ts_def old_ts_def by blast
  then have dis: "set (drop k new_ts) \<inter> set (take k old_ts) = {}"
    by (meson disjoint_iff in_set_dropD in_set_takeD)
  have "distinct new_ts" using read_distinct [of name dm "tlo_next ob" e] by (simp add: new_ts_def distinct_map)
  with m dis have "mm_values_for_key (fold (mm_add e) (drop k new_ts) m) e = take k old_ts @ drop k new_ts"
    by (simp add: mm_key.elems_fold_add)
  moreover have "tlo_tokens (elementAttributeValueChanged T name dm e ob) = fold (mm_add e) (drop k new_ts) m"
    using Some by (simp add: elementAttributeValueChanged_cases Let_def m_def
        tokensMatched_tokens [OF el(2)] tokensUnmatched_tokens [OF el(1)] flip: old_ts_def new_ts_def)
  ultimately show ?thesis using Some by (simp add: patched_def)
qed

lemma tokens_after_change_other:
  assumes "tlo_ok ob" and "e' \<noteq> e"
  shows "mm_values_for_key (tlo_tokens (elementAttributeValueChanged T name dm e ob)) e' =
    mm_values_for_key (tlo_tokens ob) e'"
proof -
  have "\<forall>t \<in> set (drop k (mm_values_for_key (tlo_tokens ob) e)). t_element t = e"
    "\<forall>t \<in> set (drop k (readTokensForElement name dm (tlo_next ob) e)). t_element t = e" for k
    using assms(1) tokens_wf_element read_element by (auto simp: tlo_ok_def dest!: in_set_dropD)
  note el = this
  show ?thesis
    using assms(2) by (simp add: elementAttributeValueChanged_cases Let_def
        tokensMatched_tokens [OF el(2)] tokensUnmatched_tokens [OF el(1)]
        mm_values_for_key_fold_add_other mm_values_for_key_fold_del_other split: option.splits)
qed

lemma tokens_after_match:
  assumes "tlo_ok ob" and "mm_values_for_key (tlo_tokens ob) e = []"
  shows "mm_values_for_key (tlo_tokens (elementMatchedAttribute T name dm e ob)) e' =
    (if e' = e then readTokensForElement name dm (tlo_next ob) e
     else mm_values_for_key (tlo_tokens ob) e')"
proof -
  have el: "\<forall>t \<in> set (readTokensForElement name dm (tlo_next ob) e). t_element t = e"
    by (auto dest: read_element)
  have "distinct (readTokensForElement name dm (tlo_next ob) e)"
    using read_distinct [of name dm "tlo_next ob" e] by (simp add: distinct_map)
  then have "mm_values_for_key (fold (mm_add e) (readTokensForElement name dm (tlo_next ob) e) (tlo_tokens ob)) e
      = readTokensForElement name dm (tlo_next ob) e"
    using assms by (simp add: mm_key.elems_fold_add tlo_ok_def tokens_wf_def)
  then show ?thesis
    by (simp add: elementMatchedAttribute_def Let_def tokensMatched_tokens [OF el]
        mm_values_for_key_fold_add_other)
qed

lemma tokens_after_unmatch:
  assumes "tlo_ok ob"
  shows "mm_values_for_key (tlo_tokens (elementUnmatchedAttribute T e ob)) e' =
    (if e' = e then [] else mm_values_for_key (tlo_tokens ob) e')"
proof -
  have el: "\<forall>t \<in> set (mm_values_for_key (tlo_tokens ob) e). t_element t = e"
    using assms tokens_wf_element by (auto simp: tlo_ok_def)
  have "mm_wf (tlo_tokens ob)" using assms by (simp add: tlo_ok_def tokens_wf_def)
  then show ?thesis
    by (simp add: elementUnmatchedAttribute_def tokensUnmatched_tokens [OF el]
        mm_values_for_key_fold_del_other mm_key.elems_fold_del)
qed

text \<open>
  Tokens exist only for the elements the element observer holds, and carry consecutive
  indices: \<open>tower_ok E\<close> is the contract of this layer towards an element observer.
\<close>

definition tower_ok :: "nat set \<Rightarrow> 'd token_list_observer \<Rightarrow> bool" where
  "tower_ok E ob \<longleftrightarrow> tlo_ok ob \<and> (\<forall>e. mm_values_for_key (tlo_tokens ob) e \<noteq> [] \<longrightarrow> e \<in> E)"

lemma tower_ok_elements: "tower_ok E ob \<Longrightarrow> e \<notin> E \<Longrightarrow> mm_values_for_key (tlo_tokens ob) e = []"
  by (auto simp: tower_ok_def)

sublocale attribute: element_delegate_laws "attribute_observer T name" tower_ok for name
proof
  show "tower_ok (insert e E) (elementMatched (attribute_observer T name) dm e ob)"
    if "tower_ok E ob" and "e \<notin> E" for E ob e dm
    using that tokens_after_match [OF _ tower_ok_elements [OF that]]
    by (auto simp: tower_ok_def attribute_observer_def elementMatchedAttribute_ok split: if_splits)
  show "tower_ok (E - {e}) (elementUnmatched (attribute_observer T name) e ob)"
    if "tower_ok E ob" and "e \<in> E" for E ob e
    using that by (auto simp: tower_ok_def attribute_observer_def elementUnmatchedAttribute_ok
        tokens_after_unmatch split: if_splits)
  show "tower_ok E (elementAttributeChanged (attribute_observer T name) dm e n ob)"
    if "tower_ok E ob" and "e \<in> E" for E ob e dm n
    using that tokens_after_change_other
    by (auto simp: tower_ok_def attribute_observer_def elementAttributeValueChanged_ok) metis
qed

end

section \<open>Value list observers over a lawful delegate\<close>

text \<open>
  \<open>val\<close> is the value a token stands for, \<open>count d v\<close> how many connections the delegate
  holds for the value \<open>v\<close>. A delegate whose values are \<open>shared\<close> accepts several tokens with
  the same value; for the others the values of different tokens differ.
\<close>

definition tower_delegate ::
  "('v, 'd) value_list_observer token_list_observer element_observer \<Rightarrow> 'd" where
  "tower_delegate tower = vlo_delegate (tlo_delegate (eo_delegate tower))"

definition update_delegate ::
  "('d \<Rightarrow> 'd) \<Rightarrow> ('v, 'd) value_list_observer token_list_observer element_observer \<Rightarrow>
     ('v, 'd) value_list_observer token_list_observer element_observer" where
  "update_delegate f tower =
     (let tlo = eo_delegate tower; vlo = tlo_delegate tlo
      in tower\<lparr>eo_delegate := tlo\<lparr>tlo_delegate := vlo\<lparr>vlo_delegate := f (vlo_delegate vlo)\<rparr>\<rparr>\<rparr>)"

locale value_delegate_laws =
  fixes V :: "('v, 'd) value_delegate"
    and val :: "token \<Rightarrow> 'v option"
    and count :: "'d \<Rightarrow> 'v \<Rightarrow> nat"
    and shared :: bool
    and inv :: "'d \<Rightarrow> bool"
  assumes parse_val: "inv d \<Longrightarrow>
        (case fst (parseValueForToken V t d) of Inr v \<Rightarrow> v | Inl _ \<Rightarrow> None) = val t"
    and parse_inv: "inv d \<Longrightarrow> inv (snd (parseValueForToken V t d))"
    and parse_count: "inv d \<Longrightarrow> count (snd (parseValueForToken V t d)) = count d"
    and matched_inv: "inv d \<Longrightarrow> val t = Some v \<Longrightarrow> shared \<or> count d v = 0 \<Longrightarrow>
        inv (elementMatchedValue V (t_element t) v d)"
    and matched_count: "inv d \<Longrightarrow> val t = Some v \<Longrightarrow> shared \<or> count d v = 0 \<Longrightarrow>
        count (elementMatchedValue V (t_element t) v d) = (count d)(v := Suc (count d v))"
    and unmatched_inv: "inv d \<Longrightarrow> val t = Some v \<Longrightarrow> 0 < count d v \<Longrightarrow>
        inv (elementUnmatchedValue V (t_element t) v d)"
    and unmatched_count: "inv d \<Longrightarrow> val t = Some v \<Longrightarrow> 0 < count d v \<Longrightarrow>
        count (elementUnmatchedValue V (t_element t) v d) = (count d)(v := count d v - 1)"
    and distinct_values: "\<not> shared \<Longrightarrow> val t = Some v \<Longrightarrow> val t' = Some v \<Longrightarrow> t_id t = t_id t'"
begin

definition parsed_ok :: "('v, 'd) value_list_observer \<Rightarrow> bool" where
  "parsed_ok ob \<longleftrightarrow> inv (vlo_delegate ob) \<and>
     (\<forall>t r. map_get (vlo_results ob) t = Some r \<longrightarrow> result_value r = val t)"

definition counted :: "token set \<Rightarrow> ('v, 'd) value_list_observer \<Rightarrow> bool" where
  "counted L ob \<longleftrightarrow> finite L \<and> inj_on t_id L \<and> parsed_ok ob \<and>
     (\<forall>v. count (vlo_delegate ob) v = card {t \<in> L. val t = Some v})"

lemma fetchParseResult:
  assumes "parsed_ok ob" and "fetchParseResultForToken V t ob = (r, ob')"
  shows "result_value r = val t" and "parsed_ok ob'"
    and "count (vlo_delegate ob') = count (vlo_delegate ob)"
proof -
  note defs = fetchParseResultForToken_def parseToken_def parsed_ok_def
  show "result_value r = val t" "parsed_ok ob'" "count (vlo_delegate ob') = count (vlo_delegate ob)"
    using assms parse_val [of "vlo_delegate ob" t] parse_inv [of "vlo_delegate ob" t]
      parse_count [of "vlo_delegate ob" t]
    by (auto simp: defs split: option.splits prod.splits sum.splits if_splits)
qed

lemma vlo_delegate_tokenMatched:
  assumes "fetchParseResultForToken V t ob = (r, ob1)"
  shows "vlo_delegate (vlo_tokenMatched V t ob) =
      (case result_value r of None \<Rightarrow> vlo_delegate ob1
       | Some v \<Rightarrow> elementMatchedValue V (t_element t) v (vlo_delegate ob1))"
    and "vlo_results (vlo_tokenMatched V t ob) = vlo_results ob1"
  using assms by (auto simp: vlo_tokenMatched_def fetchValuesByTokenForElement_def Let_def
      split: option.splits)

lemma vlo_delegate_tokenUnmatched:
  assumes "fetchParseResultForToken V t ob = (r, ob1)"
  shows "vlo_delegate (vlo_tokenUnmatched V t ob) =
      (case result_value r of None \<Rightarrow> vlo_delegate ob1
       | Some v \<Rightarrow> elementUnmatchedValue V (t_element t) v (vlo_delegate ob1))"
    and "vlo_results (vlo_tokenUnmatched V t ob) = vlo_results ob1"
  using assms by (auto simp: vlo_tokenUnmatched_def fetchValuesByTokenForElement_def Let_def
      split: option.splits)

lemma card_insert_val:
  assumes "finite L" and "t \<notin> L"
  shows "card {u \<in> insert t L. val u = Some v} =
    (if val t = Some v then Suc (card {u \<in> L. val u = Some v}) else card {u \<in> L. val u = Some v})"
proof -
  have "{u \<in> insert t L. val u = Some v} =
      (if val t = Some v then insert t {u \<in> L. val u = Some v} else {u \<in> L. val u = Some v})" by auto
  with assms show ?thesis by simp
qed

lemma counted_tokenMatched:
  assumes "counted L ob" and fresh: "t_id t \<notin> t_id ` L"
  shows "counted (insert t L) (vlo_tokenMatched V t ob)"
proof -
  obtain r ob1 where f: "fetchParseResultForToken V t ob = (r, ob1)"
    by (cases "fetchParseResultForToken V t ob")
  have ok: "parsed_ok ob" and fin: "finite L" using assms(1) by (simp_all add: counted_def)
  note p = fetchParseResult [OF ok f] vlo_delegate_tokenMatched [OF f]
  have free: "shared \<or> count (vlo_delegate ob1) v = 0" if "val t = Some v" for v
  proof (rule disjCI)
    assume "count (vlo_delegate ob1) v \<noteq> 0"
    then have "{u \<in> L. val u = Some v} \<noteq> {}"
      using assms(1) p(3) by (metis card.empty counted_def)
    then obtain u where "u \<in> L" "val u = Some v" by blast
    with fresh that show shared using distinct_values by (metis imageI)
  qed
  have inv1: "inv (vlo_delegate ob1)" using p(2) by (simp add: parsed_ok_def)
  have "parsed_ok (vlo_tokenMatched V t ob)"
    using p free matched_inv [OF inv1] by (auto simp: parsed_ok_def split: option.splits)
  moreover have "count (vlo_delegate (vlo_tokenMatched V t ob)) v =
      (if val t = Some v then Suc (count (vlo_delegate ob) v) else count (vlo_delegate ob) v)" for v
    using p free matched_count [OF inv1] by (auto split: option.splits)
  moreover have t: "t \<notin> L" using fresh by blast
  have "card {u \<in> insert t L. val u = Some v} =
      (if val t = Some v then Suc (count (vlo_delegate ob) v) else count (vlo_delegate ob) v)" for v
    using assms(1) card_insert_val [OF fin t, of v] by (simp add: counted_def)
  ultimately show ?thesis using assms fin t by (simp add: counted_def Diff_insert_absorb)
qed

lemma counted_tokenUnmatched:
  assumes "counted L ob" and t: "t \<in> L"
  shows "counted (L - {t}) (vlo_tokenUnmatched V t ob)"
proof -
  obtain r ob1 where f: "fetchParseResultForToken V t ob = (r, ob1)"
    by (cases "fetchParseResultForToken V t ob")
  have ok: "parsed_ok ob" and fin: "finite L" using assms(1) by (simp_all add: counted_def)
  note p = fetchParseResult [OF ok f] vlo_delegate_tokenUnmatched [OF f]
  have split: "card {u \<in> L. val u = Some v} = (if val t = Some v
      then Suc (card {u \<in> L - {t}. val u = Some v}) else card {u \<in> L - {t}. val u = Some v})" for v
    using card_insert_val [of "L - {t}" t v] fin t by (simp add: insert_absorb)
  have inv1: "inv (vlo_delegate ob1)" using p(2) by (simp add: parsed_ok_def)
  have cnt: "count (vlo_delegate ob) v = card {u \<in> L. val u = Some v}" for v
    using assms(1) by (simp add: counted_def)
  have held: "0 < count (vlo_delegate ob1) v" if "val t = Some v" for v
    unfolding p(3) cnt split using that by simp
  have "parsed_ok (vlo_tokenUnmatched V t ob)"
    using p held unmatched_inv [OF inv1] by (auto simp: parsed_ok_def split: option.splits)
  moreover have "count (vlo_delegate (vlo_tokenUnmatched V t ob)) v = card {u \<in> L - {t}. val u = Some v}" for v
    using p cnt [of v] held unmatched_count [OF inv1] split [of v]
    by (cases "val t = Some v") (auto split: option.splits)
  ultimately show ?thesis using assms fin by (simp add: counted_def inj_on_diff)
qed

sublocale tokens: token_delegate_laws "value_list_observer V" counted
  by unfold_locales
     (simp_all add: value_list_observer_def counted_tokenMatched counted_tokenUnmatched)

text \<open>
  The state of the delegate may also change behind the tower's back (a module is loaded),
  as long as it keeps its invariant and its counts.
\<close>

lemma eo_ok_update_core:
  assumes "tokens.attribute.eo_ok tower" and "inv (f (tower_delegate tower))"
    and "count (f (tower_delegate tower)) = count (tower_delegate tower)"
  shows "tokens.attribute.eo_ok (update_delegate f tower)"
  using assms
  by (simp add: tokens.attribute.eo_ok_def update_delegate_def tower_delegate_def tokens.tower_ok_def
        tokens.tlo_ok_def tokens_wf_def live_tokens_def counted_def parsed_ok_def Let_def)

lemma eo_ok_delegate: "tokens.attribute.eo_ok tower \<Longrightarrow> inv (tower_delegate tower)"
  by (simp add: tokens.attribute.eo_ok_def tower_delegate_def tokens.tower_ok_def
        tokens.tlo_ok_def counted_def parsed_ok_def)

text \<open>The whole tower, from a fresh start, under any calls and any DOM.\<close>

definition tower_start :: "nat \<Rightarrow> 'd \<Rightarrow> ('v, 'd) value_list_observer token_list_observer element_observer" where
  "tower_start root d =
     new_element_observer root (new_token_list_observer (new_value_list_observer d))"

lemma tower_start_ok:
  assumes "inv d" and "\<And>v. count d v = 0"
  shows "tokens.attribute.eo_ok (tower_start root d)"
proof -
  have "counted {} (new_value_list_observer d)"
    using assms by (simp add: counted_def parsed_ok_def new_value_list_observer_def)
  then show ?thesis
    by (simp add: tower_start_def new_element_observer_def tokens.attribute.eo_ok_def tokens.tower_ok_def
        tokens.tlo_ok_def)
       (simp add: new_token_list_observer_def live_tokens_def mm_values_for_key_def)
qed

lemma eo_ok_counts:
  assumes "tokens.attribute.eo_ok tower"
  shows "inv (tower_delegate tower)"
    and "count (tower_delegate tower) v = card {t \<in> live_tokens (eo_delegate tower). val t = Some v}"
    and "finite (live_tokens (eo_delegate tower))"
    and "t \<in> live_tokens (eo_delegate tower) \<Longrightarrow> t_element t \<in> set (eo_elements tower)"
proof -
  have ok: "tokens.tower_ok (set (eo_elements tower)) (eo_delegate tower)"
    using assms by (simp add: tokens.attribute.eo_ok_def)
  then show "inv (tower_delegate tower)"
    and "count (tower_delegate tower) v = card {t \<in> live_tokens (eo_delegate tower). val t = Some v}"
    and "finite (live_tokens (eo_delegate tower))"
    by (auto simp: tokens.tower_ok_def tokens.tlo_ok_def counted_def parsed_ok_def tower_delegate_def)
  show "t_element t \<in> set (eo_elements tower)" if t: "t \<in> live_tokens (eo_delegate tower)"
  proof -
    have wf: "tokens_wf (eo_delegate tower)" using ok by (simp add: tokens.tower_ok_def tokens.tlo_ok_def)
    have "mm_values_for_key (tlo_tokens (eo_delegate tower)) (t_element t) \<noteq> []"
      using t live_tokens_element [OF wf] by auto
    with ok show ?thesis by (auto simp: tokens.tower_ok_def)
  qed
qed

lemma count_pos:
  assumes "tokens.attribute.eo_ok tower"
  shows "0 < count (tower_delegate tower) v \<longleftrightarrow>
    (\<exists>t \<in> live_tokens (eo_delegate tower). t_element t \<in> set (eo_elements tower) \<and> val t = Some v)"
  using eo_ok_counts [OF assms] by (auto simp: card_gt_0_iff)

end

section \<open>The token diff is the longest common prefix\<close>

lemma longest_common_prefix_length:
  "k \<le> length xs \<Longrightarrow> k \<le> length ys \<Longrightarrow> take k xs = take k ys \<Longrightarrow>
   k = length xs \<or> k = length ys \<or> xs ! k \<noteq> ys ! k \<Longrightarrow>
   length (longest_common_prefix xs ys) = k"
proof (induction xs ys arbitrary: k rule: longest_common_prefix.induct)
  case (1 x xs y ys)
  show ?case
  proof (cases k)
    case 0
    with 1 show ?thesis by auto
  next
    case (Suc j)
    with 1 show ?thesis by auto
  qed
qed auto

lemma token_texts_nth: "i < length ts \<Longrightarrow> token_texts ts ! i = (t_index (ts ! i), t_content (ts ! i))"
  by (simp add: token_texts_def)

lemma length_token_texts [simp]: "length (token_texts ts) = length ts"
  by (simp add: token_texts_def)

lemma take_token_texts: "take k (token_texts ts) = token_texts (take k ts)"
  by (simp add: token_texts_def take_map)

definition common_prefix :: "token list \<Rightarrow> token list \<Rightarrow> nat" where
  "common_prefix xs ys = length (longest_common_prefix (token_texts xs) (token_texts ys))"

lemma common_prefix_diff_index:
  "common_prefix xs ys = (case diff_index xs ys of None \<Rightarrow> length xs | Some k \<Rightarrow> k)"
proof (cases "diff_index xs ys")
  case None
  note d = diff_index_None [OF None]
  then have "token_texts xs = token_texts ys" by (auto dest: same_token_texts)
  with d have "common_prefix xs ys = length xs"
    unfolding common_prefix_def by (intro longest_common_prefix_length) auto
  with None show ?thesis by simp
next
  case (Some k)
  note d = diff_index_Some [OF Some]
  have k: "k < max (length xs) (length ys)" "\<not> tokensAreEqual (at xs k, at ys k)"
    using findIndex_Some [OF Some [unfolded diff_index_def]] by (auto simp: js_zip_def)
  have "k = length xs \<or> k = length ys \<or> token_texts xs ! k \<noteq> token_texts ys ! k"
    using k d by (auto simp: tokensAreEqual_at same_token_def token_texts_nth)
  moreover have "take k (token_texts xs) = token_texts (take k xs)"
    "take k (token_texts ys) = token_texts (take k ys)"
    by (simp_all add: take_token_texts)
  ultimately have "common_prefix xs ys = k"
    unfolding common_prefix_def using d
    by (intro longest_common_prefix_length) (auto dest: same_token_texts)
  with Some show ?thesis by simp
qed

lemma tokensMatched_delegate:
  "tlo_delegate (tokensMatched T ts ob) = fold (tokenMatched T) ts (tlo_delegate ob)"
  unfolding tokensMatched_def by (induction ts arbitrary: ob) (simp_all add: tlo_tokenMatched_def)

lemma tokensUnmatched_delegate:
  "tlo_delegate (tokensUnmatched T ts ob) = fold (tokenUnmatched T) ts (tlo_delegate ob)"
  unfolding tokensUnmatched_def by (induction ts arbitrary: ob) (simp_all add: tlo_tokenUnmatched_def)

text \<open>The token bookkeeping itself needs nothing of the delegate.\<close>

interpretation any_delegate: token_delegate_laws T "\<lambda>_ _. True" for T
  by unfold_locales simp_all

lemma delegate_after_change:
  fixes e :: nat and dm :: dom and name :: jsstr
  assumes "tokens_wf ob"
  defines "old_ts \<equiv> mm_values_for_key (tlo_tokens ob) e"
    and "new_ts \<equiv> readTokensForElement name dm (tlo_next ob) e"
  defines "k \<equiv> common_prefix old_ts new_ts"
  shows "tlo_delegate (elementAttributeValueChanged T name dm e ob) =
    fold (tokenMatched T) (drop k new_ts) (fold (tokenUnmatched T) (drop k old_ts) (tlo_delegate ob))"
proof (cases "diff_index old_ts new_ts")
  case None
  then have "k = length old_ts" "length old_ts = length new_ts"
    by (simp_all add: k_def common_prefix_diff_index diff_index_None)
  with None show ?thesis
    by (simp add: any_delegate.elementAttributeValueChanged_cases Let_def allocated_def
        flip: old_ts_def new_ts_def)
next
  case (Some j)
  then have "k = j" by (simp add: k_def common_prefix_diff_index)
  with Some show ?thesis
    by (simp add: any_delegate.elementAttributeValueChanged_cases Let_def allocated_def
        tokensMatched_delegate tokensUnmatched_delegate flip: old_ts_def new_ts_def)
qed

section \<open>Properties\<close>

text \<open>
  C21. When the attribute of an observed element changes, the incremental token diff has the
  effect of reading the attribute afresh: the tokens of the element then spell out the
  words of the new value, numbered from 0, no other element's tokens change, and the
  delegate is told exactly the difference: the tokens behind the longest common prefix of
  old and new are unmatched, then the new ones behind it are matched, in order.
\<close>

theorem token_diff_equiv_reparse:
  assumes "tokens_wf ob"
  shows "let old_ts = mm_values_for_key (tlo_tokens ob) e;
      new_ts = readTokensForElement name dm (tlo_next ob) e;
      k = common_prefix old_ts new_ts;
      ob' = elementAttributeValueChanged T name dm e ob
    in tokens_wf ob' \<and>
       token_texts (mm_values_for_key (tlo_tokens ob') e) = enumerate 0 (attribute_words name dm e) \<and>
       (\<forall>e'. e' \<noteq> e \<longrightarrow> mm_values_for_key (tlo_tokens ob') e' = mm_values_for_key (tlo_tokens ob) e') \<and>
       tlo_delegate ob' =
         fold (tokenMatched T) (drop k new_ts) (fold (tokenUnmatched T) (drop k old_ts) (tlo_delegate ob))"
proof -
  have ok: "any_delegate.tlo_ok ob" using assms by (simp add: any_delegate.tlo_ok_def)
  show ?thesis
    using any_delegate.elementAttributeValueChanged_ok [OF ok, of T name dm e]
    by (simp add: Let_def any_delegate.tlo_ok_def any_delegate.tokens_after_change [OF ok]
        any_delegate.tokens_after_change_other [OF ok] token_texts_patched read_texts
        delegate_after_change [OF assms])
qed

text \<open>Element 3 first carries the tokens a and b; then its attribute reads "a c".\<close>

definition sample_tokens :: "token list token_list_observer" where
  "sample_tokens =
     elementMatchedAttribute \<lparr>tokenMatched = (\<lambda>t l. l @ [t]), tokenUnmatched = (\<lambda>t l. filter (\<lambda>u. u \<noteq> t) l)\<rparr>
       ''data-x'' \<lparr>getAttr = (\<lambda>_ _. Some '' a b''), contained = (\<lambda>_. True), subtree = (\<lambda>_. [])\<rparr> 3
       (new_token_list_observer [])"

lemma token_diff_equiv_reparse_witness:
  "token_texts (mm_values_for_key (tlo_tokens (elementAttributeValueChanged
      \<lparr>tokenMatched = (\<lambda>t l. l @ [t]), tokenUnmatched = (\<lambda>t l. filter (\<lambda>u. u \<noteq> t) l)\<rparr>
       ''data-x'' \<lparr>getAttr = (\<lambda>_ _. Some ''a c''), contained = (\<lambda>_. True), subtree = (\<lambda>_. [])\<rparr> 3
       sample_tokens)) 3) = [(0, ''a''), (1, ''c'')]"
proof -
  have "tokens_wf sample_tokens"
    unfolding sample_tokens_def
    using any_delegate.elementMatchedAttribute_ok [of "new_token_list_observer []"]
    by (simp add: any_delegate.tlo_ok_def)
  moreover have "enumerate 0 (attribute_words ''data-x''
      \<lparr>getAttr = (\<lambda>_ _. Some ''a c''), contained = (\<lambda>_. True), subtree = (\<lambda>_. [])\<rparr> 3) =
      [(0, ''a''), (1, ''c'')]" by code_simp
  ultimately show ?thesis
    using token_diff_equiv_reparse [of sample_tokens 3 "''data-x''"
        "\<lparr>getAttr = (\<lambda>_ _. Some ''a c''), contained = (\<lambda>_. True), subtree = (\<lambda>_. [])\<rparr>"
        "\<lparr>tokenMatched = (\<lambda>t l. l @ [t]), tokenUnmatched = (\<lambda>t l. filter (\<lambda>u. u \<noteq> t) l)\<rparr>"]
    by (simp only: Let_def)
qed

end
