(* ===== verification/Stimulus_Action.thy ===== *)
theory Stimulus_Action
  imports Js_Strings
begin

text \<open>
  Action descriptors of stimulus.js: the regular expression \<open>descriptorPattern\<close> run by a
  backtracking matcher in the continuation-passing style in which ECMAScript defines its
  own, \<open>parseActionDescriptorString\<close>, \<open>parseEventTarget\<close>, \<open>parseEventOptions\<close>,
  \<open>getDefaultEventNameForElement\<close> and the class \<open>Action\<close>. The main lemma is the round trip:
  printing a well-formed descriptor and parsing it gives the descriptor back.
\<close>

section \<open>A backtracking matcher\<close>

datatype rx =
    Lit jsstr                    \<comment> \<open>the characters themselves\<close>
  | Lazy1 "char \<Rightarrow> bool"       \<comment> \<open>one or more, as few as possible\<close>
  | Greedy1 "char \<Rightarrow> bool"     \<comment> \<open>one or more, as many as possible\<close>
  | Seq rx rx
  | Alt rx rx
  | Opt rx                       \<comment> \<open>greedy \<open>?\<close>\<close>
  | Group nat rx                 \<comment> \<open>capturing group\<close>

type_synonym captures = "(nat, jsstr) jsmap"
type_synonym cont = "jsstr \<Rightarrow> captures \<Rightarrow> captures option"

fun or_else :: "'a option \<Rightarrow> 'a option \<Rightarrow> 'a option" where
  "or_else (Some x) _ = Some x"
| "or_else None y = y"

fun lazy_loop :: "(char \<Rightarrow> bool) \<Rightarrow> jsstr \<Rightarrow> captures \<Rightarrow> cont \<Rightarrow> captures option" where
  "lazy_loop P [] c k = None"
| "lazy_loop P (x # xs) c k = (if P x then or_else (k xs c) (lazy_loop P xs c k) else None)"

fun greedy_loop :: "(char \<Rightarrow> bool) \<Rightarrow> jsstr \<Rightarrow> captures \<Rightarrow> cont \<Rightarrow> captures option" where
  "greedy_loop P [] c k = None"
| "greedy_loop P (x # xs) c k = (if P x then or_else (greedy_loop P xs c k) (k xs c) else None)"

fun rx_match :: "rx \<Rightarrow> jsstr \<Rightarrow> captures \<Rightarrow> cont \<Rightarrow> captures option" where
  "rx_match (Lit w) s c k = (if take (length w) s = w then k (drop (length w) s) c else None)"
| "rx_match (Lazy1 P) s c k = lazy_loop P s c k"
| "rx_match (Greedy1 P) s c k = greedy_loop P s c k"
| "rx_match (Seq a b) s c k = rx_match a s c (\<lambda>s' c'. rx_match b s' c' k)"
| "rx_match (Alt a b) s c k = or_else (rx_match a s c k) (rx_match b s c k)"
| "rx_match (Opt a) s c k = or_else (rx_match a s c k) (k s c)"
| "rx_match (Group n a) s c k =
     rx_match a s c (\<lambda>s' c'. k s' (map_set n (take (length s - length s') s) c'))"

text \<open>The anchors \<open>^\<close> and \<open>$\<close>: match from the first character to the last.\<close>

definition at_end :: cont where
  "at_end s c = (if s = [] then Some c else None)"

definition rx_whole :: "rx \<Rightarrow> jsstr \<Rightarrow> captures option" where
  "rx_whole r s = rx_match r s [] at_end"

section \<open>The descriptor pattern\<close>

definition dot :: "char \<Rightarrow> bool" where
  "dot c \<longleftrightarrow> code c \<noteq> 10 \<and> code c \<noteq> 13"

definition descriptorPattern :: rx where
  "descriptorPattern =
     Seq (Opt (Group 1
            (Seq (Group 2 (Lazy1 dot))
            (Seq (Opt (Group 3 (Seq (Lit ''@'') (Group 4 (Alt (Lit ''window'') (Lit ''document''))))))
                 (Lit ''->'')))))
    (Seq (Group 5 (Lazy1 dot))
    (Seq (Group 6 (Seq (Lit ''#'') (Group 7 (Lazy1 (\<lambda>c. c \<noteq> CHR '':'')))))
         (Opt (Group 8 (Seq (Lit '':'') (Group 9 (Greedy1 dot)))))))"

datatype event_target = Window | Document | Element nat

record action_descriptor =
  d_eventTarget :: "event_target option"
  d_eventName :: "jsstr option"
  d_eventOptions :: "(jsstr, bool) jsmap"
  d_identifier :: "jsstr option"
  d_methodName :: "jsstr option"

fun parseEventTarget :: "jsstr option \<Rightarrow> event_target option" where
  "parseEventTarget (Some name) =
     (if name = ''window'' then Some Window
      else if name = ''document'' then Some Document else None)"
| "parseEventTarget None = None"

text \<open>\<open>token.replace(/^!/, "")\<close> and \<open>!/^!/.test(token)\<close>.\<close>

definition has_bang :: "jsstr \<Rightarrow> bool" where
  "has_bang token \<longleftrightarrow> token \<noteq> [] \<and> hd token = CHR ''!''"

definition strip_bang :: "jsstr \<Rightarrow> jsstr" where
  "strip_bang token = (if has_bang token then tl token else token)"

definition parseEventOptions :: "jsstr \<Rightarrow> (jsstr, bool) jsmap" where
  "parseEventOptions eventOptions =
     foldl (\<lambda>options token. map_set (strip_bang token) (\<not> has_bang token) options)
       [] (split_on (CHR '':'') eventOptions)"

definition parseActionDescriptorString :: "jsstr \<Rightarrow> action_descriptor" where
  "parseActionDescriptorString descriptorString =
     (let source = trim descriptorString;
          matches = (case rx_whole descriptorPattern source of Some c \<Rightarrow> c | None \<Rightarrow> [])
      in \<lparr>d_eventTarget = parseEventTarget (map_get matches 4),
          d_eventName = map_get matches 2,
          d_eventOptions = (case map_get matches 9 of
                              Some opts \<Rightarrow> parseEventOptions opts | None \<Rightarrow> []),
          d_identifier = map_get matches 5,
          d_methodName = map_get matches 7\<rparr>)"

fun stringifyEventTarget :: "event_target \<Rightarrow> jsstr option" where
  "stringifyEventTarget Window = Some ''window''"
| "stringifyEventTarget Document = Some ''document''"
| "stringifyEventTarget (Element _) = None"

section \<open>The class Action\<close>

text \<open>
  An element as an action sees it: its identity, its tag and its attributes. The table
  \<open>defaultEventNames\<close> is the \<open>if\<close> chain of \<open>getDefaultEventNameForElement\<close>; the prototype
  chain that \<open>in\<close> would also search is not reached by any HTML tag.
\<close>

record element =
  el_id :: nat
  tagName :: jsstr
  attributes :: "(jsstr, jsstr) jsmap"

definition getAttribute :: "element \<Rightarrow> jsstr \<Rightarrow> jsstr option" where
  "getAttribute e name = map_get (attributes e) name"

definition getDefaultEventNameForElement :: "element \<Rightarrow> jsstr option" where
  "getDefaultEventNameForElement e =
     (let tag = map to_lower (tagName e)
      in if tag = ''a'' \<or> tag = ''button'' then Some ''click''
         else if tag = ''form'' then Some ''submit''
         else if tag = ''input'' then
           Some (if getAttribute e ''type'' = Some ''submit'' then ''click'' else ''input'')
         else if tag = ''select'' then Some ''change''
         else if tag = ''textarea'' then Some ''input''
         else None)"

record action =
  a_element :: nat
  a_index :: nat
  a_eventTarget :: event_target
  a_eventName :: jsstr
  a_eventOptions :: "(jsstr, bool) jsmap"
  a_identifier :: jsstr
  a_methodName :: jsstr

definition missing :: "jsstr \<Rightarrow> js_error" where
  "missing what = ErrorObject ''Error'' (''missing '' @ what)"

text \<open>JavaScript's \<open>||\<close> on strings: an absent or empty string is false.\<close>

definition truthy :: "jsstr option \<Rightarrow> jsstr option" where
  "truthy s = (case s of Some (c # cs) \<Rightarrow> Some (c # cs) | _ \<Rightarrow> None)"

definition new_action :: "element \<Rightarrow> nat \<Rightarrow> action_descriptor \<Rightarrow> js_error + action" where
  "new_action e index descriptor =
     (case or_else (truthy (d_eventName descriptor)) (getDefaultEventNameForElement e) of
        None \<Rightarrow> Inl (missing ''event name'')
      | Some name \<Rightarrow>
     (case truthy (d_identifier descriptor) of
        None \<Rightarrow> Inl (missing ''identifier'')
      | Some ident \<Rightarrow>
     (case truthy (d_methodName descriptor) of
        None \<Rightarrow> Inl (missing ''method name'')
      | Some meth \<Rightarrow>
        Inr \<lparr>a_element = el_id e, a_index = index,
             a_eventTarget = (case d_eventTarget descriptor of
                                Some t \<Rightarrow> t | None \<Rightarrow> Element (el_id e)),
             a_eventName = name, a_eventOptions = d_eventOptions descriptor,
             a_identifier = ident, a_methodName = meth\<rparr>)))"

definition action_toString :: "action \<Rightarrow> jsstr" where
  "action_toString a =
     a_eventName a
     @ (case stringifyEventTarget (a_eventTarget a) of Some t \<Rightarrow> ''@'' @ t | None \<Rightarrow> [])
     @ ''->'' @ a_identifier a @ ''#'' @ a_methodName a"

definition action_forToken :: "element \<Rightarrow> nat \<Rightarrow> jsstr \<Rightarrow> js_error + action" where
  "action_forToken e index content = new_action e index (parseActionDescriptorString content)"

section \<open>Matching lemmas\<close>

lemma rx_match_Lit [simp]:
  "rx_match (Lit []) s c k = k s c"
  "rx_match (Lit (x # w)) [] c k = None"
  "rx_match (Lit (x # w)) (y # s) c k = (if y = x then rx_match (Lit w) s c k else None)"
  by simp_all

declare rx_match.simps(1) [simp del]

lemma lazy_loop_skip:
  assumes "w \<noteq> []" and "list_all P w" and "k s c = Some r"
    and "\<And>u v. w = u @ v \<Longrightarrow> u \<noteq> [] \<Longrightarrow> v \<noteq> [] \<Longrightarrow> k (v @ s) c = None"
  shows "lazy_loop P (w @ s) c k = Some r"
  using assms
proof (induction w)
  case (Cons x xs)
  show ?case
  proof (cases "xs = []")
    case False
    have "k (xs @ s) c = None" using Cons.prems(4) [of "[x]" xs] False by simp
    moreover have "k (v @ s) c = None" if "xs = u @ v" "u \<noteq> []" "v \<noteq> []" for u v
      using Cons.prems(4) [of "x # u" v] that by simp
    then have "lazy_loop P (xs @ s) c k = Some r"
      using Cons.IH False Cons.prems(2,3) by simp
    ultimately show ?thesis using Cons.prems(2) by simp
  qed (use Cons.prems in simp)
qed simp

lemma greedy_loop_all:
  "w \<noteq> [] \<Longrightarrow> list_all P w \<Longrightarrow> k [] c = Some r \<Longrightarrow> greedy_loop P w c k = Some r"
proof (induction w)
  case (Cons x xs)
  then show ?case by (cases "xs = []") auto
qed simp

definition tail_rx :: rx where
  "tail_rx = Seq (Group 6 (Seq (Lit ''#'') (Group 7 (Lazy1 (\<lambda>c. c \<noteq> CHR '':'')))))
         (Opt (Group 8 (Seq (Lit '':'') (Group 9 (Greedy1 dot)))))"

definition head_rx :: rx where
  "head_rx = Group 1
            (Seq (Group 2 (Lazy1 dot))
            (Seq (Opt (Group 3 (Seq (Lit ''@'') (Group 4 (Alt (Lit ''window'') (Lit ''document''))))))
                 (Lit ''->'')))"

lemma descriptorPattern_parts:
  "descriptorPattern = Seq (Opt head_rx) (Seq (Group 5 (Lazy1 dot)) tail_rx)"
  by (simp add: descriptorPattern_def head_rx_def tail_rx_def)

definition option_suffix :: "jsstr option \<Rightarrow> jsstr" where
  "option_suffix os = (case os of Some w \<Rightarrow> CHR '':'' # w | None \<Rightarrow> [])"

lemma tail_match:
  assumes m: "m \<noteq> []" "CHR '':'' \<notin> set m"
    and os: "\<And>w. os = Some w \<Longrightarrow> w \<noteq> [] \<and> list_all dot w"
    and c: "map_get c 9 = None"
  shows "\<exists>c'. rx_match tail_rx (''#'' @ m @ option_suffix os) c at_end = Some c' \<and>
    map_get c' 7 = Some m \<and> map_get c' 9 = os \<and> (\<forall>n < 6. map_get c' n = map_get c n)"
proof -
  define k where "k = (\<lambda>s' c'. rx_match (Opt (Group 8 (Seq (Lit '':'') (Group 9 (Greedy1 dot)))))
     s' (map_set 6 (take (length (''#'' @ m @ option_suffix os) - length s') (''#'' @ m @ option_suffix os))
        (map_set 7 (take (length (m @ option_suffix os) - length s') (m @ option_suffix os)) c')) at_end)"
  have stuck: "k (v @ option_suffix os) c = None" if "m = u @ v" "v \<noteq> []" for u v
    using m that by (cases v) (auto simp: k_def at_end_def option_suffix_def)
  have fin: "\<exists>c'. k (option_suffix os) c = Some c' \<and>
    map_get c' 7 = Some m \<and> map_get c' 9 = os \<and> (\<forall>n < 6. map_get c' n = map_get c n)"
  proof (cases os)
    case None
    with c show ?thesis by (simp add: k_def at_end_def option_suffix_def)
  next
    case (Some w)
    with os have "w \<noteq> []" "list_all dot w" by auto
    then have "\<And>c k r. k [] c = Some r \<Longrightarrow> greedy_loop dot w c k = Some r"
      by (rule greedy_loop_all)
    note g = this
    show ?thesis
      by (simp add: k_def option_suffix_def Some) (simp add: g at_end_def)
  qed
  then obtain c' where c': "k (option_suffix os) c = Some c'" and
    rest: "map_get c' 7 = Some m \<and> map_get c' 9 = os \<and> (\<forall>n < 6. map_get c' n = map_get c n)"
    by blast
  have "lazy_loop (\<lambda>c. c \<noteq> CHR '':'') (m @ option_suffix os) c k = Some c'"
    using m c' stuck by (intro lazy_loop_skip) (auto simp: list_all_iff)
  then have "rx_match tail_rx (''#'' @ m @ option_suffix os) c at_end = Some c'"
    by (simp add: tail_rx_def k_def)
  with rest show ?thesis by blast
qed

lemma tail_stuck: "s = x # s' \<Longrightarrow> x \<noteq> CHR ''#'' \<Longrightarrow> rx_match tail_rx s c k = None"
  by (simp add: tail_rx_def)

lemma ident_match:
  assumes i: "i \<noteq> []" "list_all dot i" "CHR ''#'' \<notin> set i"
    and m: "m \<noteq> []" "CHR '':'' \<notin> set m"
    and os: "\<And>w. os = Some w \<Longrightarrow> w \<noteq> [] \<and> list_all dot w"
    and c: "map_get c 9 = None"
  shows "\<exists>c'. rx_match (Seq (Group 5 (Lazy1 dot)) tail_rx)
      (i @ ''#'' @ m @ option_suffix os) c at_end = Some c' \<and>
    map_get c' 5 = Some i \<and> map_get c' 7 = Some m \<and> map_get c' 9 = os \<and>
    (\<forall>n < 5. map_get c' n = map_get c n)"
proof -
  define rest where "rest = ''#'' @ m @ option_suffix os"
  define k where "k = (\<lambda>s' c'. rx_match tail_rx s'
     (map_set 5 (take (length (i @ rest) - length s') (i @ rest)) c') at_end)"
  have "map_get (map_set 5 i c) 9 = None" using c by simp
  from tail_match [OF m os this] obtain c' where
    c': "k rest c = Some c'" and r: "map_get c' 7 = Some m" "map_get c' 9 = os"
      "\<forall>n < 6. map_get c' n = map_get (map_set 5 i c) n"
    by (auto simp: k_def rest_def)
  have stuck: "k (v @ rest) c = None" if "i = u @ v" "v \<noteq> []" for u v
    using i that by (cases v) (auto simp: k_def tail_stuck)
  have "lazy_loop dot (i @ rest) c k = Some c'"
    using i c' stuck by (intro lazy_loop_skip) auto
  then have "rx_match (Seq (Group 5 (Lazy1 dot)) tail_rx) (i @ rest) c at_end = Some c'"
    by (simp add: k_def)
  moreover have "map_get c' 5 = Some i" "\<forall>n < 5. map_get c' n = map_get c n"
    using r(3) by auto
  ultimately show ?thesis using r by (auto simp: rest_def)
qed

definition target_suffix :: "event_target option \<Rightarrow> jsstr" where
  "target_suffix t = (case t of
     Some Window \<Rightarrow> ''@window'' | Some Document \<Rightarrow> ''@document'' | _ \<Rightarrow> [])"

definition arrow_rx :: rx where
  "arrow_rx = Seq (Opt (Group 3 (Seq (Lit ''@'') (Group 4 (Alt (Lit ''window'') (Lit ''document''))))))
                 (Lit ''->'')"

lemma arrow_stuck:
  assumes "v \<noteq> []" "CHR ''@'' \<notin> set v" "CHR ''>'' \<notin> set v" "y \<noteq> CHR ''>''"
  shows "rx_match arrow_rx (v @ y # s) c k = None"
proof (cases v)
  case (Cons a as)
  then show ?thesis using assms by (cases as) (auto simp: arrow_rx_def)
qed (use assms in simp)

lemma arrow_match:
  assumes "t \<in> {None, Some Window, Some Document}"
    and k: "\<And>c'. parseEventTarget (map_get c' 4) = t \<Longrightarrow> map_get c' 2 = map_get c 2 \<Longrightarrow>
          (\<forall>n \<ge> 5. map_get c' n = map_get c n) \<Longrightarrow> \<exists>r. k rest c' = Some r \<and> Q r"
    and c: "map_get c 4 = None"
  shows "\<exists>r. rx_match arrow_rx (target_suffix t @ ''->'' @ rest) c k = Some r \<and> Q r"
proof -
  consider "t = None" | "t = Some Window" | "t = Some Document" using assms(1) by blast
  then show ?thesis
  proof cases
    case 1
    with k [of c] c show ?thesis by (simp add: arrow_rx_def target_suffix_def)
  next
    case 2
    with k [of "map_set 3 ''@window'' (map_set 4 ''window'' c)"]
    show ?thesis by (auto simp: arrow_rx_def target_suffix_def)
  next
    case 3
    with k [of "map_set 3 ''@document'' (map_set 4 ''document'' c)"]
    show ?thesis by (auto simp: arrow_rx_def target_suffix_def)
  qed
qed

lemma head_match:
  assumes ev: "ev \<noteq> []" "list_all dot ev" "CHR ''@'' \<notin> set ev" "CHR ''>'' \<notin> set ev"
    and t: "t \<in> {None, Some Window, Some Document}"
    and k: "\<And>c'. parseEventTarget (map_get c' 4) = t \<Longrightarrow> map_get c' 2 = Some ev \<Longrightarrow>
          (\<forall>n \<ge> 5. map_get c' n = None) \<Longrightarrow> \<exists>r. k rest c' = Some r \<and> Q r"
  shows "\<exists>r. rx_match head_rx (ev @ target_suffix t @ ''->'' @ rest) [] k = Some r \<and> Q r"
proof -
  define s where "s = target_suffix t @ ''->'' @ rest"
  define f :: "jsstr \<Rightarrow> captures \<Rightarrow> captures"
    where "f = (\<lambda>s' c'. map_set 2 (take (length (ev @ s) - length s') (ev @ s)) c')"
  define g where "g = (\<lambda>s' c'. k s' (map_set 1 (take (length (ev @ s) - length s') (ev @ s)) c'))"
  define h where "h = (\<lambda>s' c'. rx_match arrow_rx s' (f s' c') g)"
  have fs: "f s [] = [(2, ev)]" by (simp add: f_def)
  have "\<exists>r. h s [] = Some r \<and> Q r"
    unfolding h_def fs unfolding s_def
    by (rule arrow_match [OF t]) (auto simp: g_def intro: k)
  then obtain r where r: "h s [] = Some r" "Q r" by blast
  obtain y ys where y: "s = y # ys" "y \<noteq> CHR ''>''"
    using t by (auto simp: s_def target_suffix_def)
  have "h (v @ s) [] = None" if "ev = u @ v" "v \<noteq> []" for u v
    using ev that unfolding h_def y(1) by (intro arrow_stuck y(2)) auto
  then have "lazy_loop dot (ev @ s) [] h = Some r"
    using ev r by (intro lazy_loop_skip) auto
  then have "rx_match head_rx (ev @ s) [] k = Some r"
    by (simp add: head_rx_def h_def f_def g_def arrow_rx_def)
  with r show ?thesis by (auto simp: s_def)
qed

lemma rx_match_none:
  assumes "\<And>v c. x \<notin> set v \<Longrightarrow> k v c = None" and "x \<notin> set s"
  shows "rx_match r s c k = None"
  using assms
proof (induction r arbitrary: s c k)
  case (Lit w)
  then show ?case by (simp add: rx_match.simps(1)) (meson in_set_dropD)
next
  case (Lazy1 P)
  then show ?case by (induction s) auto
next
  case (Greedy1 P)
  then show ?case by (induction s) auto
qed auto

lemma head_none: "CHR ''>'' \<notin> set s \<Longrightarrow> rx_match head_rx s c k = None"
proof -
  have lit: "rx_match (Lit ''->'') v c k = None" if "CHR ''>'' \<notin> set v" for v c and k :: cont
    using that by (cases v; cases "tl v") auto
  have arrow: "rx_match arrow_rx v c k = None" if "CHR ''>'' \<notin> set v" for v c and k :: cont
    unfolding arrow_rx_def rx_match.simps(4) by (rule rx_match_none) (use that lit in auto)
  assume s: "CHR ''>'' \<notin> set s"
  show ?thesis
    unfolding head_rx_def arrow_rx_def [symmetric] rx_match.simps(4,7)
    by (rule rx_match_none [where x = "CHR ''>''"]) (simp_all add: arrow s)
qed


section \<open>Printing a descriptor\<close>

text \<open>The text a developer writes for a descriptor, and when it is unambiguous.\<close>

definition option_text :: "jsstr \<times> bool \<Rightarrow> jsstr" where
  "option_text p = (if snd p then fst p else CHR ''!'' # fst p)"

definition options_text :: "(jsstr, bool) jsmap \<Rightarrow> jsstr option" where
  "options_text opts = (if opts = [] then None else Some (join '':'' (map option_text opts)))"

definition event_text :: "jsstr option \<Rightarrow> event_target option \<Rightarrow> jsstr" where
  "event_text ev t = (case ev of None \<Rightarrow> [] | Some e \<Rightarrow> e @ target_suffix t @ ''->'')"

definition print_descriptor :: "action_descriptor \<Rightarrow> jsstr" where
  "print_descriptor d =
     event_text (d_eventName d) (d_eventTarget d) @ the (d_identifier d) @ ''#''
     @ the (d_methodName d) @ option_suffix (options_text (d_eventOptions d))"

definition option_key_ok :: "jsstr \<Rightarrow> bool" where
  "option_key_ok k \<longleftrightarrow> k \<noteq> [] \<and> ws_free k \<and> CHR '':'' \<notin> set k \<and> CHR ''>'' \<notin> set k \<and> \<not> has_bang k"

definition options_ok :: "(jsstr, bool) jsmap \<Rightarrow> bool" where
  "options_ok opts \<longleftrightarrow> distinct (map_keys opts) \<and> list_all option_key_ok (map_keys opts)"

definition event_ok :: "jsstr option \<Rightarrow> event_target option \<Rightarrow> bool" where
  "event_ok ev t =
     (case ev of
        None \<Rightarrow> t = None
      | Some e \<Rightarrow> e \<noteq> [] \<and> ws_free e \<and> CHR ''@'' \<notin> set e \<and> CHR ''>'' \<notin> set e \<and>
                  t \<in> {None, Some Window, Some Document})"

definition identifier_ok :: "jsstr \<Rightarrow> bool" where
  "identifier_ok i \<longleftrightarrow> i \<noteq> [] \<and> ws_free i \<and> CHR ''#'' \<notin> set i \<and> CHR ''>'' \<notin> set i"

definition method_ok :: "jsstr \<Rightarrow> bool" where
  "method_ok m \<longleftrightarrow> m \<noteq> [] \<and> ws_free m \<and> CHR '':'' \<notin> set m \<and> CHR ''>'' \<notin> set m"

definition descriptor_ok :: "action_descriptor \<Rightarrow> bool" where
  "descriptor_ok d \<longleftrightarrow>
     event_ok (d_eventName d) (d_eventTarget d) \<and> options_ok (d_eventOptions d) \<and>
     (case d_identifier d of Some i \<Rightarrow> identifier_ok i | None \<Rightarrow> False) \<and>
     (case d_methodName d of Some m \<Rightarrow> method_ok m | None \<Rightarrow> False)"

lemma trim_ws_free: "ws_free s \<Longrightarrow> trim s = s"
proof -
  assume w: "ws_free s"
  have d: "dropWhile is_ws v = v" if "ws_free v" for v
    using that by (cases v) auto
  have "ws_free (rev s)" using w by (simp add: ws_free_def)
  with w d show ?thesis by (simp add: trim_def)
qed

lemma ws_free_dot: "ws_free w \<Longrightarrow> list_all dot w"
  by (auto simp: ws_free_def list_all_iff dot_def is_ws_def)

lemma strip_bang_text [simp]: "\<not> has_bang k \<Longrightarrow> strip_bang (option_text (k, b)) = k"
  by (auto simp: strip_bang_def has_bang_def option_text_def)

lemma has_bang_text [simp]: "\<not> has_bang k \<Longrightarrow> has_bang (option_text (k, b)) = (\<not> b)"
  by (simp add: has_bang_def option_text_def)

lemma foldl_options:
  "distinct (map_keys (acc @ opts)) \<Longrightarrow> list_all (\<lambda>k. \<not> has_bang k) (map_keys opts) \<Longrightarrow>
   foldl (\<lambda>options token. map_set (strip_bang token) (\<not> has_bang token) options)
     acc (map option_text opts) = acc @ opts"
proof (induction opts arbitrary: acc)
  case (Cons p ps)
  obtain k b where p: "p = (k, b)" by (cases p)
  from Cons.prems(1) p have "map_of acc k = None" by (auto simp: map_of_eq_None_iff)
  then have "map_set k b acc = acc @ [(k, b)]" by (rule map_set_new)
  with Cons p show ?case by simp
qed simp

lemma parseEventOptions_text:
  assumes "options_ok opts" and "options_text opts = Some w"
  shows "parseEventOptions w = opts"
proof -
  have w: "w = join '':'' (map option_text opts)" and ne: "opts \<noteq> []"
    using assms(2) by (auto simp: options_text_def split: if_splits)
  have "split_on (CHR '':'') w = map option_text opts"
    unfolding w using assms(1) ne
    by (intro split_on_join) (auto simp: options_ok_def option_key_ok_def option_text_def list_all_iff)
  moreover have "list_all (\<lambda>k. \<not> has_bang k) (map_keys opts)"
    using assms(1) by (auto simp: options_ok_def option_key_ok_def list_all_iff)
  ultimately show ?thesis
    using foldl_options [of "[]" opts] assms(1) by (simp add: parseEventOptions_def options_ok_def)
qed

lemma set_join: "set (join sep ws) \<subseteq> set sep \<union> \<Union> (set ` set ws)"
  by (induction sep ws rule: join.induct) auto

lemma options_text_chars:
  assumes "options_ok opts" and "options_text opts = Some w"
  shows "w \<noteq> [] \<and> ws_free w \<and> CHR ''>'' \<notin> set w"
proof -
  have w: "w = join '':'' (map option_text opts)" and ne: "opts \<noteq> []"
    using assms(2) by (auto simp: options_text_def split: if_splits)
  have ok: "option_text p \<noteq> [] \<and> ws_free (option_text p) \<and> CHR ''>'' \<notin> set (option_text p)"
    if "p \<in> set opts" for p
    using assms(1) that
    by (auto simp: options_ok_def option_key_ok_def option_text_def list_all_iff is_ws_def code_def)
  have "w \<noteq> []" using ne ok unfolding w by (cases opts; cases "tl opts") auto
  moreover have "ws_free w \<and> CHR ''>'' \<notin> set w"
    using set_join [of "'':''" "map option_text opts"] ok unfolding w ws_free_def
    by (fastforce simp: is_ws_def code_def)
  ultimately show ?thesis by blast
qed

lemma ws_free_punct [simp]:
  "\<not> is_ws (CHR ''#'')" "\<not> is_ws (CHR ''-'')" "\<not> is_ws (CHR ''>'')" "\<not> is_ws (CHR '':'')"
  by (simp_all add: is_ws_def code_def)

lemma ws_free_target: "t \<in> {None, Some Window, Some Document} \<Longrightarrow> ws_free (target_suffix t)"
  by (auto simp: target_suffix_def is_ws_def code_def)

lemma print_descriptor_ws_free:
  assumes "descriptor_ok d"
  shows "ws_free (print_descriptor d)"
proof -
  have "ws_free (option_suffix (options_text (d_eventOptions d)))"
    using assms options_text_chars [of "d_eventOptions d"]
    by (auto simp: descriptor_ok_def option_suffix_def split: option.splits)
  then show ?thesis
    using assms ws_free_target
    by (auto simp: descriptor_ok_def event_ok_def identifier_ok_def method_ok_def
          print_descriptor_def event_text_def split: option.splits)
qed

definition captures_descriptor :: "captures \<Rightarrow> action_descriptor \<Rightarrow> bool" where
  "captures_descriptor c d \<longleftrightarrow>
     parseEventTarget (map_get c 4) = d_eventTarget d \<and> map_get c 2 = d_eventName d \<and>
     map_get c 5 = d_identifier d \<and> map_get c 7 = d_methodName d \<and>
     map_get c 9 = options_text (d_eventOptions d)"

lemma descriptor_tail_match:
  assumes "descriptor_ok d" and "map_get c 9 = None"
    and "parseEventTarget (map_get c 4) = d_eventTarget d" and "map_get c 2 = d_eventName d"
  shows "\<exists>c'. rx_match (Seq (Group 5 (Lazy1 dot)) tail_rx)
      (the (d_identifier d) @ ''#'' @ the (d_methodName d) @ option_suffix (options_text (d_eventOptions d)))
      c at_end = Some c' \<and> captures_descriptor c' d"
proof -
  obtain i m where i: "d_identifier d = Some i" "identifier_ok i" and m: "d_methodName d = Some m" "method_ok m"
    using assms(1) by (auto simp: descriptor_ok_def split: option.splits)
  define os where "os = options_text (d_eventOptions d)"
  have "w \<noteq> [] \<and> list_all dot w" if "os = Some w" for w
    using options_text_chars [of "d_eventOptions d"] assms(1) that
    by (auto simp: os_def descriptor_ok_def intro: ws_free_dot)
  then have "\<exists>c'. rx_match (Seq (Group 5 (Lazy1 dot)) tail_rx) (i @ ''#'' @ m @ option_suffix os) c at_end
        = Some c' \<and> map_get c' 5 = Some i \<and> map_get c' 7 = Some m \<and> map_get c' 9 = os \<and>
        (\<forall>n < 5. map_get c' n = map_get c n)"
    using i(2) m(2) assms(2)
    by (intro ident_match) (auto simp: identifier_ok_def method_ok_def intro: ws_free_dot)
  then obtain c' where c': "rx_match (Seq (Group 5 (Lazy1 dot)) tail_rx)
        (i @ ''#'' @ m @ option_suffix os) c at_end = Some c'"
      "map_get c' 5 = Some i" "map_get c' 7 = Some m" "map_get c' 9 = os"
      "\<forall>n < 5. map_get c' n = map_get c n" by blast
  from c'(5) have "map_get c' 2 = map_get c 2" "map_get c' 4 = map_get c 4" by simp_all
  with c' assms(3,4) i m show ?thesis by (simp add: captures_descriptor_def os_def)
qed

lemma descriptor_tail_chars:
  "descriptor_ok d \<Longrightarrow> CHR ''>'' \<notin> set (the (d_identifier d) @ ''#'' @ the (d_methodName d)
     @ option_suffix (options_text (d_eventOptions d)))"
  using options_text_chars [of "d_eventOptions d"]
  by (auto simp: descriptor_ok_def identifier_ok_def method_ok_def option_suffix_def split: option.splits)

lemma print_descriptor_match:
  assumes "descriptor_ok d"
  shows "\<exists>c. rx_whole descriptorPattern (print_descriptor d) = Some c \<and> captures_descriptor c d"
proof -
  define rest where "rest = the (d_identifier d) @ ''#'' @ the (d_methodName d)
     @ option_suffix (options_text (d_eventOptions d))"
  define k where "k = (\<lambda>s c. rx_match (Seq (Group 5 (Lazy1 dot)) tail_rx) s c at_end)"
  have ev: "event_ok (d_eventName d) (d_eventTarget d)" using assms by (simp add: descriptor_ok_def)
  have tail: "\<exists>c'. k rest c = Some c' \<and> captures_descriptor c' d"
    if "parseEventTarget (map_get c 4) = d_eventTarget d" "map_get c 2 = d_eventName d"
      "map_get c 9 = None" for c
    unfolding k_def rest_def using that by (intro descriptor_tail_match [OF assms])
  have whole: "rx_whole descriptorPattern s = or_else (rx_match head_rx s [] k) (k s [])" for s
    by (simp add: rx_whole_def descriptorPattern_parts k_def)
  have printed: "print_descriptor d = event_text (d_eventName d) (d_eventTarget d) @ rest"
    by (simp add: print_descriptor_def rest_def)
  show ?thesis
  proof (cases "d_eventName d")
    case None
    then have "d_eventTarget d = None" using ev by (simp add: event_ok_def)
    with None have "\<exists>c. k rest [] = Some c \<and> captures_descriptor c d" by (intro tail) simp_all
    then obtain c where "k rest [] = Some c" "captures_descriptor c d" by blast
    moreover have "rx_match head_rx rest [] k' = None" for k'
      using descriptor_tail_chars [OF assms] unfolding rest_def by (rule head_none)
    ultimately show ?thesis using None by (simp add: whole printed event_text_def)
  next
    case (Some e)
    then have e: "e \<noteq> []" "list_all dot e" "CHR ''@'' \<notin> set e" "CHR ''>'' \<notin> set e"
      and t: "d_eventTarget d \<in> {None, Some Window, Some Document}"
      using ev by (auto simp: event_ok_def intro: ws_free_dot)
    have "\<exists>r. rx_match head_rx (e @ target_suffix (d_eventTarget d) @ ''->'' @ rest) [] k = Some r \<and>
        captures_descriptor r d"
      by (rule head_match [OF e t]) (rule tail, auto simp: Some)
    then obtain r where "rx_match head_rx (e @ target_suffix (d_eventTarget d) @ ''->'' @ rest) [] k = Some r"
        "captures_descriptor r d" by blast
    with Some show ?thesis by (simp add: whole printed event_text_def)
  qed
qed

lemma parse_print:
  assumes "descriptor_ok d"
  shows "parseActionDescriptorString (print_descriptor d) = d"
proof -
  obtain c where c: "rx_whole descriptorPattern (print_descriptor d) = Some c" "captures_descriptor c d"
    using print_descriptor_match [OF assms] by blast
  have "options_ok (d_eventOptions d)" using assms by (simp add: descriptor_ok_def)
  from parseEventOptions_text [OF this]
  have "(case options_text (d_eventOptions d) of Some w \<Rightarrow> parseEventOptions w | None \<Rightarrow> []) = d_eventOptions d"
    by (auto simp: options_text_def split: option.splits if_splits)
  with c trim_ws_free [OF print_descriptor_ws_free [OF assms]] show ?thesis
    by (simp add: parseActionDescriptorString_def captures_descriptor_def)
qed

text \<open>Without a \<open>#\<close> the pattern cannot match.\<close>

lemma no_hash_no_match: "CHR ''#'' \<notin> set s \<Longrightarrow> rx_whole descriptorPattern s = None"
proof -
  assume s: "CHR ''#'' \<notin> set s"
  have tail: "rx_match tail_rx v c k = None" if "CHR ''#'' \<notin> set v" for v c k
    using that by (cases v) (auto simp: tail_rx_def)
  have rest: "rx_match (Seq (Group 5 (Lazy1 dot)) tail_rx) v c k = None" if "CHR ''#'' \<notin> set v" for v c k
    unfolding rx_match.simps(4)
    by (rule rx_match_none [where x = "CHR ''#''"]) (simp_all add: tail that)
  show ?thesis
    unfolding rx_whole_def descriptorPattern_parts rx_match.simps(4) [of "Opt head_rx"]
    by (rule rx_match_none [where x = "CHR ''#''"]) (simp_all add: rest s del: rx_match.simps)
qed

lemma set_trim: "set (trim s) \<subseteq> set s"
proof -
  have "set (trim s) \<subseteq> set (rev (dropWhile is_ws s))"
    unfolding trim_def by (metis set_dropWhileD set_rev subsetI)
  also have "\<dots> \<subseteq> set s" by (auto dest: set_dropWhileD)
  finally show ?thesis .
qed

section \<open>Properties\<close>

text \<open>
  C35. Action descriptors round-trip: parsing the text
  "event@target->identifier#method:option:!option" of any descriptor whose parts avoid the
  separators gives back exactly that descriptor, whether the event, the window or document
  target and the listener options are present or not. The lazy and greedy quantifiers of
  the pattern therefore never split such a text in another place.
\<close>

theorem parse_print_descriptor:
  assumes "descriptor_ok d"
  shows "parseActionDescriptorString (print_descriptor d) = d"
  using assms by (rule parse_print)

lemma parse_print_descriptor_witness:
  "parseActionDescriptorString ''resize@window->gallery#layout:once:!passive'' =
     \<lparr>d_eventTarget = Some Window, d_eventName = Some ''resize'',
      d_eventOptions = [(''once'', True), (''passive'', False)],
      d_identifier = Some ''gallery'', d_methodName = Some ''layout''\<rparr>"
proof -
  let ?d = "\<lparr>d_eventTarget = Some Window, d_eventName = Some ''resize'',
      d_eventOptions = [(''once'', True), (''passive'', False)],
      d_identifier = Some ''gallery'', d_methodName = Some ''layout''\<rparr>"
  have "descriptor_ok ?d" by code_simp
  moreover have "print_descriptor ?d = ''resize@window->gallery#layout:once:!passive''" by code_simp
  ultimately show ?thesis using parse_print_descriptor [of ?d] by simp
qed

text \<open>
  From the text of a well-formed descriptor \<open>Action.forToken\<close> builds the action it
  describes: the target falls back to the element that carries the attribute, the event
  name to the default of the element's tag, and the only failure is the error "missing
  event name" when the descriptor names no event and the tag has no default. A text without
  \<open>#\<close> never yields an action.
\<close>

theorem action_forToken_outcome:
  assumes "descriptor_ok d" and "CHR ''#'' \<notin> set bad"
  shows "action_forToken e index (print_descriptor d) =
      (case or_else (d_eventName d) (getDefaultEventNameForElement e) of
         None \<Rightarrow> Inl (missing ''event name'')
       | Some name \<Rightarrow> Inr \<lparr>a_element = el_id e, a_index = index,
           a_eventTarget = (case d_eventTarget d of Some t \<Rightarrow> t | None \<Rightarrow> Element (el_id e)),
           a_eventName = name, a_eventOptions = d_eventOptions d,
           a_identifier = the (d_identifier d), a_methodName = the (d_methodName d)\<rparr>) \<and>
    (\<exists>what. action_forToken e index bad = Inl (missing what))"
proof -
  have ok: "truthy (d_eventName d) = d_eventName d" "truthy (d_identifier d) = Some (the (d_identifier d))"
    "truthy (d_methodName d) = Some (the (d_methodName d))"
    using assms(1) by (auto simp: descriptor_ok_def event_ok_def identifier_ok_def method_ok_def truthy_def
        split: option.splits list.splits)
  have "rx_whole descriptorPattern (trim bad) = None"
    using assms(2) set_trim by (intro no_hash_no_match) blast
  then have "d_identifier (parseActionDescriptorString bad) = None"
    by (simp add: parseActionDescriptorString_def)
  then have "\<exists>what. action_forToken e index bad = Inl (missing what)"
    by (auto simp: action_forToken_def new_action_def truthy_def split: option.splits)
  then show ?thesis
    by (simp add: action_forToken_def parse_print assms(1) new_action_def ok split: option.splits)
qed

lemma action_forToken_outcome_witness:
  "action_forToken \<lparr>el_id = 5, tagName = ''BUTTON'', attributes = []\<rparr> 0 ''unicast#send'' =
     Inr \<lparr>a_element = 5, a_index = 0, a_eventTarget = Element 5, a_eventName = ''click'',
          a_eventOptions = [], a_identifier = ''unicast'', a_methodName = ''send''\<rparr> \<and>
   (\<exists>what. action_forToken \<lparr>el_id = 5, tagName = ''BUTTON'', attributes = []\<rparr> 0 ''unicast'' = Inl (missing what))"
proof -
  let ?d = "\<lparr>d_eventTarget = None, d_eventName = None, d_eventOptions = [],
      d_identifier = Some ''unicast'', d_methodName = Some ''send''\<rparr>"
  let ?e = "\<lparr>el_id = 5, tagName = ''BUTTON'', attributes = []\<rparr>"
  have "descriptor_ok ?d" by code_simp
  moreover have "CHR ''#'' \<notin> set ''unicast''" by simp
  moreover have "print_descriptor ?d = ''unicast#send''" by code_simp
  moreover have "getDefaultEventNameForElement ?e = Some ''click''" by code_simp
  ultimately show ?thesis
    using action_forToken_outcome [of ?d "''unicast''" ?e 0] by simp
qed

end
