(* ===== verification/Stimulus_Dispatcher.thy ===== *)
theory Stimulus_Dispatcher
  imports Stimulus_Action "HOL-Library.Multiset" "HOL-Library.List_Lexorder" "HOL-Library.Char_ord"
begin

text \<open>
  Event dispatch of stimulus.js: the classes \<open>Binding\<close> (an action of a controller
  context), \<open>EventListener\<close> (one DOM listener shared by all bindings with the same target,
  event name and options) and \<open>Dispatcher\<close> (the cache of listeners, keyed per target by
  \<open>cacheKey\<close>). The browser's side is a parameter: whether a scope contains an element, what
  a controller method does, and when it stops the propagation. The lemmas show that the
  dispatcher is a set of bindings filed under target and cache key, that its listeners are
  attached to the DOM exactly while it is started, and in which order a listener invokes
  its bindings.
\<close>

section \<open>Bindings\<close>

text \<open>\<open>b_object\<close> is the identity of the action object, \<open>b_context\<close> that of the context.\<close>

record binding =
  b_context :: nat
  b_object :: nat
  b_action :: action

definition binding_index :: "binding \<Rightarrow> nat" where
  "binding_index b = a_index (b_action b)"

definition binding_eventTarget :: "binding \<Rightarrow> event_target" where
  "binding_eventTarget b = a_eventTarget (b_action b)"

definition binding_eventOptions :: "binding \<Rightarrow> (jsstr, bool) jsmap" where
  "binding_eventOptions b = a_eventOptions (b_action b)"

definition binding_eventName :: "binding \<Rightarrow> jsstr" where
  "binding_eventName b = a_eventName (b_action b)"

definition binding_methodName :: "binding \<Rightarrow> jsstr" where
  "binding_methodName b = a_methodName (b_action b)"

text \<open>
  What a binding needs of its context and of the browser: \<open>scope_element\<close> is the element of
  the context's scope, \<open>contains\<close> is \<open>Node.contains\<close>, \<open>containsElement\<close> is the scope's
  test, \<open>has_method\<close> tells whether the controller has a method of that name, \<open>call_method\<close>
  runs it (returning the exception it throws, if any), \<open>handle_error\<close> is
  \<open>context.handleError\<close>, and \<open>propagation_stopped\<close> reads \<open>immediatePropagationStopped\<close>.
\<close>

record 's environment =
  scope_element :: "nat \<Rightarrow> nat"
  contains :: "nat \<Rightarrow> nat \<Rightarrow> bool"
  containsElement :: "nat \<Rightarrow> nat \<Rightarrow> bool"
  has_method :: "nat \<Rightarrow> jsstr \<Rightarrow> bool"
  call_method :: "nat \<Rightarrow> jsstr \<Rightarrow> event_target \<Rightarrow> 's \<Rightarrow> js_error option \<times> 's"
  handle_error :: "binding \<Rightarrow> js_error \<Rightarrow> 's \<Rightarrow> 's"
  propagation_stopped :: "'s \<Rightarrow> bool"

definition undefined_method :: "binding \<Rightarrow> js_error" where
  "undefined_method b =
     ErrorObject ''Error''
       (''Action \"'' @ action_toString (b_action b) @ ''\" references undefined method \"''
        @ binding_methodName b @ ''\"'')"

definition invokeWithEvent :: "'s environment \<Rightarrow> binding \<Rightarrow> event_target \<Rightarrow> 's \<Rightarrow> 's" where
  "invokeWithEvent env b event s =
     (case (if has_method env (b_context b) (binding_methodName b)
            then call_method env (b_context b) (binding_methodName b) event s
            else (Some (undefined_method b), s)) of
        (None, s') \<Rightarrow> s'
      | (Some error, s') \<Rightarrow> handle_error env b error s')"

definition willBeInvokedByEvent :: "'s environment \<Rightarrow> binding \<Rightarrow> event_target \<Rightarrow> bool" where
  "willBeInvokedByEvent env b eventTarget =
     (let element = scope_element env (b_context b)
      in if Element element = eventTarget then True
         else case eventTarget of
                Element e \<Rightarrow>
                  if contains env element e then containsElement env (b_context b) e
                  else containsElement env (b_context b) (a_element (b_action b))
              | _ \<Rightarrow> containsElement env (b_context b) (a_element (b_action b)))"

definition binding_handleEvent :: "'s environment \<Rightarrow> event_target \<Rightarrow> binding \<Rightarrow> 's \<Rightarrow> 's" where
  "binding_handleEvent env event b s =
     (if willBeInvokedByEvent env b event then invokeWithEvent env b event s else s)"

section \<open>EventListener\<close>

text \<open>\<open>ls_connected\<close>: the listener is registered with its DOM target.\<close>

record event_listener =
  ls_target :: event_target
  ls_name :: jsstr
  ls_options :: "(jsstr, bool) jsmap"
  ls_unordered :: "binding jsset"
  ls_connected :: bool

definition new_event_listener ::
  "event_target \<Rightarrow> jsstr \<Rightarrow> (jsstr, bool) jsmap \<Rightarrow> event_listener" where
  "new_event_listener eventTarget eventName eventOptions =
     \<lparr>ls_target = eventTarget, ls_name = eventName, ls_options = eventOptions,
      ls_unordered = [], ls_connected = False\<rparr>"

definition ls_connect :: "event_listener \<Rightarrow> event_listener" where
  "ls_connect l = l\<lparr>ls_connected := True\<rparr>"

definition ls_disconnect :: "event_listener \<Rightarrow> event_listener" where
  "ls_disconnect l = l\<lparr>ls_connected := False\<rparr>"

definition ls_bindingConnected :: "binding \<Rightarrow> event_listener \<Rightarrow> event_listener" where
  "ls_bindingConnected b l = l\<lparr>ls_unordered := set_add b (ls_unordered l)\<rparr>"

definition ls_bindingDisconnected :: "binding \<Rightarrow> event_listener \<Rightarrow> event_listener" where
  "ls_bindingDisconnected b l = l\<lparr>ls_unordered := set_delete b (ls_unordered l)\<rparr>"

text \<open>\<open>bindings\<close>: \<open>Array.prototype.sort\<close> is stable, as \<open>sort_key\<close> is.\<close>

definition ls_bindings :: "event_listener \<Rightarrow> binding list" where
  "ls_bindings l = sort_key binding_index (ls_unordered l)"

fun run_bindings :: "'s environment \<Rightarrow> event_target \<Rightarrow> binding list \<Rightarrow> 's \<Rightarrow> 's" where
  "run_bindings env event [] s = s"
| "run_bindings env event (b # bs) s =
     (if propagation_stopped env s then s
      else run_bindings env event bs (binding_handleEvent env event b s))"

definition ls_handleEvent :: "'s environment \<Rightarrow> event_target \<Rightarrow> event_listener \<Rightarrow> 's \<Rightarrow> 's" where
  "ls_handleEvent env event l s = run_bindings env event (ls_bindings l) s"

section \<open>Dispatcher\<close>

record dispatcher =
  dp_maps :: "(event_target, (jsstr, event_listener) jsmap) jsmap"
  dp_started :: bool

definition new_dispatcher :: dispatcher where
  "new_dispatcher = \<lparr>dp_maps = [], dp_started = False\<rparr>"

definition map_listeners :: "(event_listener \<Rightarrow> event_listener) \<Rightarrow> dispatcher \<Rightarrow> dispatcher" where
  "map_listeners f d =
     d\<lparr>dp_maps := map (\<lambda>(t, ls). (t, map (\<lambda>(k, l). (k, f l)) ls)) (dp_maps d)\<rparr>"

definition dp_eventListeners :: "dispatcher \<Rightarrow> event_listener list" where
  "dp_eventListeners d = concat (map map_values (map_values (dp_maps d)))"

definition dp_start :: "dispatcher \<Rightarrow> dispatcher" where
  "dp_start d =
     (if dp_started d then d else map_listeners ls_connect (d\<lparr>dp_started := True\<rparr>))"

definition dp_stop :: "dispatcher \<Rightarrow> dispatcher" where
  "dp_stop d =
     (if dp_started d then map_listeners ls_disconnect (d\<lparr>dp_started := False\<rparr>) else d)"

definition cacheKey :: "jsstr \<Rightarrow> (jsstr, bool) jsmap \<Rightarrow> jsstr" where
  "cacheKey eventName eventOptions =
     join '':'' (eventName #
       map (\<lambda>key. (if map_get eventOptions key = Some True then [] else ''!'') @ key)
         (sort (map_keys eventOptions)))"

definition createEventListener ::
  "dispatcher \<Rightarrow> event_target \<Rightarrow> jsstr \<Rightarrow> (jsstr, bool) jsmap \<Rightarrow> event_listener" where
  "createEventListener d eventTarget eventName eventOptions =
     (let eventListener = new_event_listener eventTarget eventName eventOptions
      in if dp_started d then ls_connect eventListener else eventListener)"

definition fetchEventListenerMapForEventTarget ::
  "event_target \<Rightarrow> dispatcher \<Rightarrow> (jsstr, event_listener) jsmap \<times> dispatcher" where
  "fetchEventListenerMapForEventTarget eventTarget d =
     (case map_get (dp_maps d) eventTarget of
        Some eventListenerMap \<Rightarrow> (eventListenerMap, d)
      | None \<Rightarrow> ([], d\<lparr>dp_maps := map_set eventTarget [] (dp_maps d)\<rparr>))"

definition fetchEventListener ::
  "event_target \<Rightarrow> jsstr \<Rightarrow> (jsstr, bool) jsmap \<Rightarrow> dispatcher \<Rightarrow> event_listener \<times> dispatcher" where
  "fetchEventListener eventTarget eventName eventOptions d =
     (let (eventListenerMap, d') = fetchEventListenerMapForEventTarget eventTarget d;
          key = cacheKey eventName eventOptions
      in case map_get eventListenerMap key of
           Some eventListener \<Rightarrow> (eventListener, d')
         | None \<Rightarrow>
             let eventListener = createEventListener d' eventTarget eventName eventOptions
             in (eventListener,
                 d'\<lparr>dp_maps := map_set eventTarget (map_set key eventListener eventListenerMap)
                                  (dp_maps d')\<rparr>))"

text \<open>The listener object in the cache is mutated: the model stores the updated listener.\<close>

definition update_listener ::
  "(event_listener \<Rightarrow> event_listener) \<Rightarrow> binding \<Rightarrow> dispatcher \<Rightarrow> dispatcher" where
  "update_listener f b d =
     (let target = binding_eventTarget b;
          key = cacheKey (binding_eventName b) (binding_eventOptions b);
          (listener, d') = fetchEventListener target (binding_eventName b) (binding_eventOptions b) d;
          listeners = (case map_get (dp_maps d') target of Some ls \<Rightarrow> ls | None \<Rightarrow> [])
      in d'\<lparr>dp_maps := map_set target (map_set key (f listener) listeners) (dp_maps d')\<rparr>)"

definition dp_bindingConnected :: "binding \<Rightarrow> dispatcher \<Rightarrow> dispatcher" where
  "dp_bindingConnected b d = update_listener (ls_bindingConnected b) b d"

definition dp_bindingDisconnected :: "binding \<Rightarrow> dispatcher \<Rightarrow> dispatcher" where
  "dp_bindingDisconnected b d = update_listener (ls_bindingDisconnected b) b d"

datatype dispatcher_call = DpStart | DpStop | DpConnect binding | DpDisconnect binding

fun dp_call :: "dispatcher_call \<Rightarrow> dispatcher \<Rightarrow> dispatcher" where
  "dp_call DpStart d = dp_start d"
| "dp_call DpStop d = dp_stop d"
| "dp_call (DpConnect b) d = dp_bindingConnected b d"
| "dp_call (DpDisconnect b) d = dp_bindingDisconnected b d"

section \<open>The dispatcher as a filed set of bindings\<close>

definition find_listener :: "dispatcher \<Rightarrow> event_target \<Rightarrow> jsstr \<Rightarrow> event_listener option" where
  "find_listener d t key =
     (case map_get (dp_maps d) t of Some ls \<Rightarrow> map_get ls key | None \<Rightarrow> None)"

definition filed :: "dispatcher \<Rightarrow> event_target \<Rightarrow> jsstr \<Rightarrow> binding list" where
  "filed d t key = (case find_listener d t key of Some l \<Rightarrow> ls_unordered l | None \<Rightarrow> [])"

definition binding_key :: "binding \<Rightarrow> jsstr" where
  "binding_key b = cacheKey (binding_eventName b) (binding_eventOptions b)"

definition dp_bindings :: "dispatcher \<Rightarrow> binding set" where
  "dp_bindings d = {b. \<exists>t key. b \<in> set (filed d t key)}"

definition dp_distinct :: "dispatcher \<Rightarrow> bool" where
  "dp_distinct d \<longleftrightarrow>
     distinct (map_keys (dp_maps d)) \<and> (\<forall>ls \<in> set (map_values (dp_maps d)). distinct (map_keys ls))"

definition dp_wf :: "dispatcher \<Rightarrow> bool" where
  "dp_wf d \<longleftrightarrow> dp_distinct d \<and>
     (\<forall>t key l. find_listener d t key = Some l \<longrightarrow>
        ls_target l = t \<and> cacheKey (ls_name l) (ls_options l) = key \<and>
        ls_connected l = dp_started d \<and> distinct (ls_unordered l) \<and>
        (\<forall>b \<in> set (ls_unordered l). binding_eventTarget b = t \<and> binding_key b = key))"

lemma dp_wf_new [simp]: "dp_wf new_dispatcher"
  by (simp add: dp_wf_def dp_distinct_def find_listener_def new_dispatcher_def)

lemma dp_bindings_new [simp]: "dp_bindings new_dispatcher = {}"
  by (simp add: dp_bindings_def filed_def find_listener_def new_dispatcher_def)

lemma fetchEventListener_spec:
  assumes "fetchEventListener t n opts d = (l, d')"
  shows "l = (case find_listener d t (cacheKey n opts) of Some l \<Rightarrow> l
              | None \<Rightarrow> createEventListener d t n opts)"
    and "find_listener d' t (cacheKey n opts) = Some l"
    and "(t', k') \<noteq> (t, cacheKey n opts) \<Longrightarrow> find_listener d' t' k' = find_listener d t' k'"
    and "dp_started d' = dp_started d"
  using assms
  by (auto simp: fetchEventListener_def fetchEventListenerMapForEventTarget_def find_listener_def
        createEventListener_def Let_def split: option.splits if_splits)

lemma find_update_listener:
  "find_listener (update_listener f b d) t key =
     (if t = binding_eventTarget b \<and> key = binding_key b
      then Some (f (case find_listener d t key of Some l \<Rightarrow> l
                    | None \<Rightarrow> createEventListener d t (binding_eventName b) (binding_eventOptions b)))
      else find_listener d t key)"
proof -
  obtain l d' where f: "fetchEventListener (binding_eventTarget b) (binding_eventName b)
      (binding_eventOptions b) d = (l, d')"
    by (cases "fetchEventListener (binding_eventTarget b) (binding_eventName b) (binding_eventOptions b) d")
  note s = fetchEventListener_spec [OF f]
  have "find_listener (update_listener f b d) t key =
      (if t = binding_eventTarget b \<and> key = binding_key b then Some (f l) else find_listener d' t key)"
    by (auto simp: update_listener_def f find_listener_def binding_key_def Let_def split: option.splits)
  with s(1,3) show ?thesis by (auto simp: binding_key_def)
qed

lemma update_listener_started [simp]: "dp_started (update_listener f b d) = dp_started d"
  by (simp add: update_listener_def fetchEventListener_def fetchEventListenerMapForEventTarget_def Let_def
      split: option.splits prod.splits)

lemma filed_update:
  "(\<And>l. ls_unordered (f l) = g (ls_unordered l)) \<Longrightarrow>
   filed (update_listener f b d) t key =
     (if t = binding_eventTarget b \<and> key = binding_key b then g (filed d t key) else filed d t key)"
  by (auto simp: filed_def find_update_listener createEventListener_def new_event_listener_def
        ls_connect_def Let_def split: option.splits)

lemma filed_connected:
  "filed (dp_bindingConnected b d) t key =
     (if t = binding_eventTarget b \<and> key = binding_key b then set_add b (filed d t key) else filed d t key)"
  unfolding dp_bindingConnected_def by (rule filed_update) (simp add: ls_bindingConnected_def)

lemma filed_disconnected:
  "filed (dp_bindingDisconnected b d) t key =
     (if t = binding_eventTarget b \<and> key = binding_key b then set_delete b (filed d t key) else filed d t key)"
  unfolding dp_bindingDisconnected_def by (rule filed_update) (simp add: ls_bindingDisconnected_def)

lemma map_of_map_values: "map_of (map (\<lambda>(k, v). (k, f v)) m) k = map_option f (map_of m k)"
  by (induction m) auto

lemma find_map_listeners:
  "find_listener (map_listeners f d) t key = map_option f (find_listener d t key)"
  by (simp add: find_listener_def map_listeners_def map_of_map_values split: option.splits)

lemma filed_map_listeners:
  "(\<And>l. ls_unordered (f l) = ls_unordered l) \<Longrightarrow> filed (map_listeners f d) t key = filed d t key"
  by (simp add: filed_def find_map_listeners split: option.splits)

lemma filed_started [simp]: "filed (d\<lparr>dp_started := b\<rparr>) t key = filed d t key"
  by (simp add: filed_def find_listener_def)

lemma filed_start [simp]: "filed (dp_start d) t key = filed d t key"
  by (simp add: dp_start_def filed_map_listeners ls_connect_def)

lemma filed_stop [simp]: "filed (dp_stop d) t key = filed d t key"
  by (simp add: dp_stop_def filed_map_listeners ls_disconnect_def)

lemma filed_only: "dp_wf d \<Longrightarrow> b \<in> set (filed d t key) \<Longrightarrow> t = binding_eventTarget b \<and> key = binding_key b"
  by (cases "find_listener d t key") (auto simp: dp_wf_def filed_def)

text \<open>The two levels of the listener cache keep their keys distinct.\<close>

definition nested_distinct :: "('k, ('j, 'v) jsmap) jsmap \<Rightarrow> bool" where
  "nested_distinct m \<longleftrightarrow> distinct (map_keys m) \<and> (\<forall>p \<in> set m. distinct (map_keys (snd p)))"

lemma nested_distinct_set:
  "nested_distinct m \<Longrightarrow> distinct (map_keys new) \<Longrightarrow> nested_distinct (map_set t new m)"
  by (simp add: nested_distinct_def distinct_map_set set_map_set)

lemma nested_distinct_get: "nested_distinct m \<Longrightarrow> map_get m t = Some ls \<Longrightarrow> distinct (map_keys ls)"
  unfolding nested_distinct_def using map_of_SomeD [of m t ls] by fastforce

lemma dp_distinct_nested: "dp_distinct d \<longleftrightarrow> nested_distinct (dp_maps d)"
  by (simp add: dp_distinct_def nested_distinct_def)

lemma dp_distinct_update:
  assumes "dp_distinct d"
  shows "dp_distinct (update_listener f b d)"
proof -
  obtain l d' where f: "fetchEventListener (binding_eventTarget b) (binding_eventName b)
      (binding_eventOptions b) d = (l, d')"
    by (cases "fetchEventListener (binding_eventTarget b) (binding_eventName b) (binding_eventOptions b) d")
  have "nested_distinct (dp_maps d')"
  proof (cases "map_get (dp_maps d) (binding_eventTarget b)")
    case None
    then show ?thesis
      using f assms unfolding dp_distinct_nested
      by (auto simp: fetchEventListener_def fetchEventListenerMapForEventTarget_def Let_def
          intro!: nested_distinct_set)
  next
    case (Some ls)
    then show ?thesis
      using f assms nested_distinct_get [of "dp_maps d", OF _ Some] unfolding dp_distinct_nested
      by (auto simp: fetchEventListener_def fetchEventListenerMapForEventTarget_def Let_def
          split: option.splits intro!: nested_distinct_set)
  qed
  then show ?thesis
    unfolding update_listener_def f Let_def dp_distinct_nested
    by (cases "map_get (dp_maps d') (binding_eventTarget b)")
      (auto intro!: nested_distinct_set dest: nested_distinct_get)
qed

lemma dp_distinct_map: "dp_distinct d \<Longrightarrow> dp_distinct (map_listeners f d)"
  by (auto simp: dp_distinct_nested nested_distinct_def map_listeners_def comp_def case_prod_unfold)

lemma dp_wf_connect:
  assumes "dp_wf d"
  shows "dp_wf (dp_bindingConnected b d)"
  using assms
  by (auto simp: dp_wf_def dp_distinct_update dp_bindingConnected_def find_update_listener ls_bindingConnected_def
      createEventListener_def new_event_listener_def ls_connect_def binding_key_def Let_def
      split: option.splits if_splits)

lemma dp_wf_disconnect:
  assumes "dp_wf d"
  shows "dp_wf (dp_bindingDisconnected b d)"
  using assms
  by (auto simp: dp_wf_def dp_distinct_update dp_bindingDisconnected_def find_update_listener ls_bindingDisconnected_def
      createEventListener_def new_event_listener_def ls_connect_def binding_key_def Let_def
      split: option.splits if_splits)

lemma dp_distinct_started: "dp_distinct (d\<lparr>dp_started := b\<rparr>) \<longleftrightarrow> dp_distinct d"
  by (simp add: dp_distinct_def)

lemma find_listener_started: "find_listener (d\<lparr>dp_started := b\<rparr>) = find_listener d"
  by (intro ext) (simp add: find_listener_def)

lemma started_map_listeners: "dp_started (map_listeners f d) = dp_started d"
  by (simp add: map_listeners_def)

lemmas map_listeners_simps =
  find_map_listeners find_listener_started started_map_listeners dp_distinct_started dp_distinct_map

lemma dp_wf_start: "dp_wf d \<Longrightarrow> dp_wf (dp_start d)"
  by (auto simp: dp_wf_def dp_start_def map_listeners_simps ls_connect_def)

lemma dp_wf_stop: "dp_wf d \<Longrightarrow> dp_wf (dp_stop d)"
  by (auto simp: dp_wf_def dp_stop_def map_listeners_simps ls_disconnect_def)

lemma dp_wf_call: "dp_wf d \<Longrightarrow> dp_wf (dp_call c d)"
  by (cases c) (simp_all add: dp_wf_connect dp_wf_disconnect dp_wf_start dp_wf_stop)

lemma dp_bindings_connect: "dp_bindings (dp_bindingConnected b d) = insert b (dp_bindings d)"
proof -
  have "x \<in> set (filed (dp_bindingConnected b d) t key) \<longleftrightarrow>
      x \<in> set (filed d t key) \<or> t = binding_eventTarget b \<and> key = binding_key b \<and> x = b" for x t key
    by (auto simp: filed_connected)
  then show ?thesis by (auto simp only: dp_bindings_def ex_disj_distrib Collect_disj_eq)
qed

lemma dp_bindings_disconnect:
  "dp_wf d \<Longrightarrow> dp_bindings (dp_bindingDisconnected b d) = dp_bindings d - {b}"
  using filed_only by (fastforce simp: dp_bindings_def filed_disconnected split: if_splits)

lemma dp_bindings_start [simp]: "dp_bindings (dp_start d) = dp_bindings d"
  by (simp add: dp_bindings_def)

lemma dp_bindings_stop [simp]: "dp_bindings (dp_stop d) = dp_bindings d"
  by (simp add: dp_bindings_def)

section \<open>The listeners of an event\<close>

text \<open>The listeners that the document has for an event name at a target, in the order of the cache.\<close>

definition dp_listening :: "dispatcher \<Rightarrow> event_target \<Rightarrow> jsstr \<Rightarrow> event_listener list" where
  "dp_listening d t n =
     filter (\<lambda>l. ls_connected l \<and> ls_target l = t \<and> ls_name l = n) (dp_eventListeners d)"

definition listener_entries :: "dispatcher \<Rightarrow> ((event_target \<times> jsstr) \<times> event_listener) list" where
  "listener_entries d = concat (map (\<lambda>(t, ls). map (\<lambda>(k, l). ((t, k), l)) ls) (dp_maps d))"

lemma eventListeners_entries: "dp_eventListeners d = map snd (listener_entries d)"
  by (simp add: dp_eventListeners_def listener_entries_def map_concat comp_def case_prod_unfold)

lemma distinct_entries: "dp_distinct d \<Longrightarrow> distinct (map fst (listener_entries d))"
proof -
  have "distinct (map fst (concat (map (\<lambda>(t, ls). map (\<lambda>(k, l). ((t, k), l)) ls) m)))"
    if "nested_distinct m" for m :: "(event_target, (jsstr, event_listener) jsmap) jsmap"
    using that
  proof (induction m)
    case (Cons p m)
    obtain t ls where p: "p = (t, ls)" by fastforce
    have "distinct (map fst (map (\<lambda>(k, l). ((t, k), l)) ls))"
    proof -
      have "map fst (map (\<lambda>(k, l). ((t, k), l)) ls) = map (Pair t) (map_keys ls)" by auto
      then show ?thesis using Cons.prems by (simp add: p nested_distinct_def distinct_map inj_on_def)
    qed
    with Cons show ?case by (force simp: p nested_distinct_def)
  qed simp
  then show "dp_distinct d \<Longrightarrow> ?thesis" by (simp add: dp_distinct_nested listener_entries_def)
qed

lemma listener_entries_iff:
  "dp_distinct d \<Longrightarrow> ((t, key), l) \<in> set (listener_entries d) \<longleftrightarrow> find_listener d t key = Some l"
proof -
  assume "dp_distinct d"
  then have d: "distinct (map_keys (dp_maps d))" "\<And>t ls. (t, ls) \<in> set (dp_maps d) \<Longrightarrow> distinct (map_keys ls)"
    by (auto simp: dp_distinct_nested nested_distinct_def)
  have "((t, key), l) \<in> set (listener_entries d) \<longleftrightarrow> (\<exists>ls. (t, ls) \<in> set (dp_maps d) \<and> (key, l) \<in> set ls)"
    by (force simp: listener_entries_def case_prod_unfold)
  also have "\<dots> \<longleftrightarrow> (\<exists>ls. map_get (dp_maps d) t = Some ls \<and> map_get ls key = Some l)"
    using d by (metis map_of_eq_Some_iff)
  finally show ?thesis by (auto simp: find_listener_def split: option.splits)
qed

lemma distinct_filed_bindings:
  assumes "distinct (map fst es)"
    and "\<And>t key l. ((t, key), l) \<in> set es \<Longrightarrow> distinct (ls_unordered l) \<and>
      (\<forall>b \<in> set (ls_unordered l). binding_eventTarget b = t \<and> binding_key b = key)"
  shows "distinct (concat (map ls_bindings (filter P (map snd es))))"
  using assms
proof (induction es)
  case (Cons e es)
  obtain t key l where e: "e = ((t, key), l)" by (metis prod.collapse)
  have "b \<notin> set (ls_unordered l')" if b: "b \<in> set (ls_unordered l)" and l': "l' \<in> set (map snd es)" for b l'
  proof
    assume "b \<in> set (ls_unordered l')"
    from l' obtain t' key' where "((t', key'), l') \<in> set es" by auto
    with \<open>b \<in> set (ls_unordered l')\<close> Cons.prems(2) have "(t', key') = (t, key)"
      using b e by (metis list.set_intros(1,2))
    with \<open>((t', key'), l') \<in> set es\<close> Cons.prems(1) e show False by force
  qed
  then have "set (ls_bindings l) \<inter> set (concat (map ls_bindings (filter P (map snd es)))) = {}"
    by (auto simp: ls_bindings_def)
  with Cons show ?case by (auto simp: e ls_bindings_def)
qed simp

lemma listening_bindings:
  assumes "dp_wf d"
  shows "distinct (concat (map ls_bindings (dp_listening d t n)))"
    and "b \<in> set (concat (map ls_bindings (dp_listening d t n))) \<longleftrightarrow>
      (\<exists>l. find_listener d t (binding_key b) = Some l \<and> ls_connected l \<and> ls_name l = n \<and> b \<in> set (ls_unordered l))"
proof -
  have wf: "dp_distinct d" "\<And>t key l. find_listener d t key = Some l \<Longrightarrow> ls_target l = t"
      "\<And>t key l. find_listener d t key = Some l \<Longrightarrow> distinct (ls_unordered l) \<and>
        (\<forall>b \<in> set (ls_unordered l). binding_eventTarget b = t \<and> binding_key b = key)"
    using assms unfolding dp_wf_def by blast+
  note entries = listener_entries_iff [OF wf(1)]
  show "distinct (concat (map ls_bindings (dp_listening d t n)))"
    unfolding dp_listening_def eventListeners_entries
    by (rule distinct_filed_bindings [OF distinct_entries [OF wf(1)]]) (use wf(3) entries in blast)
  have "l \<in> set (dp_listening d t n) \<longleftrightarrow> ls_connected l \<and> ls_name l = n \<and> (\<exists>key. find_listener d t key = Some l)" for l
    using wf(2) entries by (force simp: dp_listening_def eventListeners_entries)
  then show "b \<in> set (concat (map ls_bindings (dp_listening d t n))) \<longleftrightarrow>
      (\<exists>l. find_listener d t (binding_key b) = Some l \<and> ls_connected l \<and> ls_name l = n \<and> b \<in> set (ls_unordered l))"
    using wf(3) by (auto simp: ls_bindings_def)
qed

section \<open>Cache keys\<close>

definition key_text :: "(jsstr, bool) jsmap \<Rightarrow> jsstr \<Rightarrow> jsstr" where
  "key_text opts key = (if map_get opts key = Some True then [] else ''!'') @ key"

lemma cacheKey_parts:
  assumes "CHR '':'' \<notin> set n" and "options_ok opts"
  shows "split_on (CHR '':'') (cacheKey n opts) = n # map (key_text opts) (sort (map_keys opts))"
proof -
  have "CHR '':'' \<notin> set (key_text opts k)" if "k \<in> set (map_keys opts)" for k
    using assms(2) that by (auto simp: options_ok_def option_key_ok_def key_text_def list_all_iff)
  with assms(1) show ?thesis
    unfolding cacheKey_def key_text_def [symmetric, abs_def] by (intro split_on_join) auto
qed

lemma strip_key_text: "\<not> has_bang k \<Longrightarrow> strip_bang (key_text opts k) = k"
  by (auto simp: key_text_def strip_bang_def has_bang_def)

lemma has_bang_key_text: "\<not> has_bang k \<Longrightarrow> has_bang (key_text opts k) \<longleftrightarrow> map_get opts k \<noteq> Some True"
  by (auto simp: key_text_def has_bang_def)

lemma cacheKey_determines:
  assumes n: "CHR '':'' \<notin> set n" "CHR '':'' \<notin> set n'" and o: "options_ok opts" "options_ok opts'"
    and eq: "cacheKey n opts = cacheKey n' opts'"
  shows "n = n' \<and> map_get opts = map_get opts'"
proof -
  define ks where "ks = sort (map_keys opts)"
  define ks' where "ks' = sort (map_keys opts')"
  have ok: "\<forall>k \<in> set ks. \<not> has_bang k" "\<forall>k \<in> set ks'. \<not> has_bang k"
    using o by (auto simp: ks_def ks'_def options_ok_def option_key_ok_def list_all_iff)
  have "n # map (key_text opts) ks = n' # map (key_text opts') ks'"
    using cacheKey_parts [OF n(1) o(1)] cacheKey_parts [OF n(2) o(2)] eq by (simp add: ks_def ks'_def)
  then have nn: "n = n'" and texts: "map (key_text opts) ks = map (key_text opts') ks'" by simp_all
  have strip: "map strip_bang (map (key_text m) js) = js" if "\<forall>k \<in> set js. \<not> has_bang k" for m js
    using that by (induction js) (auto simp: strip_key_text)
  have ks: "ks' = ks" using strip [OF ok(1), of opts] strip [OF ok(2), of opts'] texts by metis
  have same: "set (map_keys opts') = set (map_keys opts)"
    using ks unfolding ks_def ks'_def by (metis set_sort)
  have "map_get opts k = map_get opts' k" for k
  proof (cases "k \<in> set ks")
    case True
    then have "key_text opts k = key_text opts' k" using texts ks by simp
    then have "(map_get opts k = Some True) = (map_get opts' k = Some True)"
      using True ok(1) has_bang_key_text by metis
    moreover have "map_get opts k \<noteq> None" "map_get opts' k \<noteq> None"
      using True same by (simp_all add: ks_def map_of_eq_None_iff)
    ultimately show ?thesis by (metis (full_types) not_None_eq)
  next
    case False
    then have "map_get opts k = None" "map_get opts' k = None"
      using same by (simp_all add: ks_def map_of_eq_None_iff)
    then show ?thesis by simp
  qed
  with nn show ?thesis by auto
qed

text \<open>
  The separator of the key may also occur in an event name, and then the key is ambiguous:
  the listener created for the event "a:once" is reused for the event "a" with the option
  once.
\<close>

lemma cacheKey_ambiguous:
  "parseActionDescriptorString ''a:once->c#m'' \<noteq> parseActionDescriptorString ''a->c#m:once'' \<and>
   cacheKey (the (d_eventName (parseActionDescriptorString ''a:once->c#m'')))
     (d_eventOptions (parseActionDescriptorString ''a:once->c#m'')) =
   cacheKey (the (d_eventName (parseActionDescriptorString ''a->c#m:once'')))
     (d_eventOptions (parseActionDescriptorString ''a->c#m:once''))"
  by code_simp

section \<open>Dispatch\<close>

lemma run_bindings_prefix:
  "\<exists>n \<le> length bs. run_bindings env ev bs s = fold (binding_handleEvent env ev) (take n bs) s \<and>
     (\<forall>i < n. \<not> propagation_stopped env (fold (binding_handleEvent env ev) (take i bs) s)) \<and>
     (n < length bs \<longrightarrow> propagation_stopped env (run_bindings env ev bs s))"
proof (induction bs arbitrary: s)
  case (Cons b bs)
  show ?case
  proof (cases "propagation_stopped env s")
    case True
    then show ?thesis by (intro exI [of _ 0]) simp
  next
    case False
    from Cons.IH [of "binding_handleEvent env ev b s"] obtain n where n: "n \<le> length bs"
      "run_bindings env ev bs (binding_handleEvent env ev b s) =
         fold (binding_handleEvent env ev) (take n bs) (binding_handleEvent env ev b s)"
      "\<forall>i < n. \<not> propagation_stopped env
         (fold (binding_handleEvent env ev) (take i bs) (binding_handleEvent env ev b s))"
      "n < length bs \<longrightarrow> propagation_stopped env (run_bindings env ev bs (binding_handleEvent env ev b s))"
      by blast
    have "\<not> propagation_stopped env (fold (binding_handleEvent env ev) (take i (b # bs)) s)" if "i < Suc n" for i
      using that n(3) False by (cases i) auto
    with n False show ?thesis by (intro exI [of _ "Suc n"]) simp
  qed
qed simp

definition active_bindings :: "dispatcher_call list \<Rightarrow> binding set" where
  "active_bindings cs = fold (\<lambda>c B. case c of DpConnect b \<Rightarrow> insert b B
     | DpDisconnect b \<Rightarrow> B - {b} | _ \<Rightarrow> B) cs {}"

lemma dp_run:
  "dp_wf d \<Longrightarrow> dp_wf (fold dp_call cs d) \<and>
   dp_bindings (fold dp_call cs d) = fold (\<lambda>c B. case c of DpConnect b \<Rightarrow> insert b B
     | DpDisconnect b \<Rightarrow> B - {b} | _ \<Rightarrow> B) cs (dp_bindings d)"
proof (induction cs arbitrary: d)
  case (Cons c cs)
  have "dp_bindings (dp_call c d) = (case c of DpConnect b \<Rightarrow> insert b (dp_bindings d)
      | DpDisconnect b \<Rightarrow> dp_bindings d - {b} | _ \<Rightarrow> dp_bindings d)"
    using Cons.prems by (cases c) (simp_all add: dp_bindings_connect dp_bindings_disconnect)
  with Cons.IH [OF dp_wf_call [OF Cons.prems, of c]] show ?case by simp
qed simp

section \<open>Properties\<close>

text \<open>
  C19. After any sequence of start, stop, bindingConnected and bindingDisconnected calls, the
  dispatcher holds exactly the bindings that were connected and not disconnected since, each
  in one listener: the one of its event target and cache key. Every listener is attached to
  the DOM while the dispatcher is started and detached while it is stopped.
\<close>

theorem dispatcher_holds_active_bindings:
  "let d = fold dp_call cs new_dispatcher in
     (b \<in> set (filed d t key) \<longleftrightarrow>
        b \<in> active_bindings cs \<and> t = binding_eventTarget b \<and> key = binding_key b) \<and>
     (case find_listener d t key of None \<Rightarrow> True
      | Some l \<Rightarrow> ls_connected l = dp_started d \<and> ls_target l = t)"
proof -
  let ?d = "fold dp_call cs new_dispatcher"
  have wf: "dp_wf ?d" and all: "dp_bindings ?d = active_bindings cs"
    using dp_run [OF dp_wf_new, of cs] by (simp_all add: active_bindings_def)
  have "b \<in> active_bindings cs \<longleftrightarrow> (\<exists>t key. b \<in> set (filed ?d t key))"
    by (simp add: all [symmetric] dp_bindings_def)
  then have "b \<in> set (filed ?d t key) \<longleftrightarrow>
      b \<in> active_bindings cs \<and> t = binding_eventTarget b \<and> key = binding_key b"
    using filed_only [OF wf] by blast
  moreover have "case find_listener ?d t key of None \<Rightarrow> True
      | Some l \<Rightarrow> ls_connected l = dp_started ?d \<and> ls_target l = t"
    using wf by (simp add: dp_wf_def split: option.splits)
  ultimately show ?thesis by (simp add: Let_def)
qed

text \<open>
  Two bindings on one target share a listener exactly as they should: when the event
  names contain no colon and the option names are well formed, equal cache keys mean equal
  event names and equal options, so no binding is attached with another's options.
\<close>

theorem cacheKey_injective:
  assumes "CHR '':'' \<notin> set n" and "CHR '':'' \<notin> set n'" and "options_ok opts" and "options_ok opts'"
    and "cacheKey n opts = cacheKey n' opts'"
  shows "n = n' \<and> map_get opts = map_get opts'"
  using assms by (rule cacheKey_determines)

lemma cacheKey_injective_witness:
  "''click'' = ''click'' \<and>
   map_get [(''once'', True), (''passive'', False)] = map_get [(''passive'', False), (''once'', True)]"
  using cacheKey_injective [of "''click''" "''click''" "[(''once'', True), (''passive'', False)]"
      "[(''passive'', False), (''once'', True)]"]
proof -
  have "CHR '':'' \<notin> set ''click''" by simp
  moreover have "options_ok [(''once'', True), (''passive'', False)]"
    "options_ok [(''passive'', False), (''once'', True)]" by code_simp+
  moreover have "cacheKey ''click'' [(''once'', True), (''passive'', False)] =
      cacheKey ''click'' [(''passive'', False), (''once'', True)]" by code_simp
  ultimately show ?thesis
    using cacheKey_injective [of "''click''" "''click''" "[(''once'', True), (''passive'', False)]"
      "[(''passive'', False), (''once'', True)]"] by blast
qed

text \<open>
  A listener hands an event to its bindings in the order of their position in the
  data-action attribute, ties in the order in which they were connected. It runs a prefix of
  that order: up to the first moment a controller method stops the immediate propagation,
  and to the end when none does, whatever errors the methods throw.
\<close>

theorem handleEvent_runs_prefix_in_order:
  "sorted (map binding_index (ls_bindings l)) \<and>
   filter (\<lambda>b. binding_index b = i) (ls_bindings l) = filter (\<lambda>b. binding_index b = i) (ls_unordered l) \<and>
   mset (ls_bindings l) = mset (ls_unordered l) \<and>
   (\<exists>n \<le> length (ls_bindings l).
      ls_handleEvent env ev l s = fold (binding_handleEvent env ev) (take n (ls_bindings l)) s \<and>
      (\<forall>j < n. \<not> propagation_stopped env (fold (binding_handleEvent env ev) (take j (ls_bindings l)) s)) \<and>
      (n = length (ls_bindings l) \<or> propagation_stopped env (ls_handleEvent env ev l s)))"
proof -
  have "\<exists>n \<le> length (ls_bindings l).
      ls_handleEvent env ev l s = fold (binding_handleEvent env ev) (take n (ls_bindings l)) s \<and>
      (\<forall>j < n. \<not> propagation_stopped env (fold (binding_handleEvent env ev) (take j (ls_bindings l)) s)) \<and>
      (n = length (ls_bindings l) \<or> propagation_stopped env (ls_handleEvent env ev l s))"
    using run_bindings_prefix [of "ls_bindings l" env ev s]
    unfolding ls_handleEvent_def by (metis order_le_imp_less_or_eq)
  moreover have "filter (\<lambda>b. binding_index b = i) (ls_bindings l) =
      filter (\<lambda>b. binding_index b = i) (ls_unordered l)"
    unfolding ls_bindings_def by (rule sort_key_stable)
  ultimately show ?thesis by (simp add: ls_bindings_def)
qed

lemma handleEvent_runs_prefix_in_order_witness:
  "\<exists>n \<le> length (ls_bindings (new_event_listener Window ''click'' [])). n = 0"
  using handleEvent_runs_prefix_in_order [of "new_event_listener Window ''click'' []" 0
      "\<lparr>scope_element = id, contains = (=), containsElement = (=), has_method = (\<lambda>_ _. True),
        call_method = (\<lambda>_ _ _ n. (None, Suc n)), handle_error = (\<lambda>_ _ n. n),
        propagation_stopped = (\<lambda>n. 2 < n)\<rparr>" Window "0::nat"]
  by auto

end
