(* ===== verification/Stimulus_Binding.thy ===== *)
theory Stimulus_Binding
  imports Stimulus_Observers Stimulus_Dispatcher
begin

text \<open>
  The class \<open>BindingObserver\<close> of stimulus.js: for one controller context it watches the
  data-action attributes below the context's element, turns every token into an action, and
  keeps the dispatcher supplied with a binding for each action that names the context's
  ident. It is a value delegate of the observer tower: the laws of
  \<open>value_delegate_laws\<close> are discharged for it here, and the tower's counting lemma becomes
  the statement that the dispatcher's bindings follow the attributes.
\<close>

section \<open>BindingObserver\<close>

text \<open>
  An action object is identified by the token it was parsed from (the value list observer
  caches one parse result per token): its key in \<open>bindingsByAction\<close> is the pair of the two.
\<close>

type_synonym action_object = "nat \<times> action"

record binding_core =
  bo_context :: nat
  bo_identifier :: jsstr
  bo_bindings :: "(action_object, binding) jsmap"
  bo_dispatcher :: dispatcher

definition connectAction :: "action_object \<Rightarrow> binding_core \<Rightarrow> binding_core" where
  "connectAction action c =
     (let binding = \<lparr>b_context = bo_context c, b_object = fst action, b_action = snd action\<rparr>
      in c\<lparr>bo_bindings := map_set action binding (bo_bindings c),
           bo_dispatcher := dp_bindingConnected binding (bo_dispatcher c)\<rparr>)"

definition disconnectAction :: "action_object \<Rightarrow> binding_core \<Rightarrow> binding_core" where
  "disconnectAction action c =
     (case map_get (bo_bindings c) action of
        Some binding \<Rightarrow>
          c\<lparr>bo_bindings := map_delete action (bo_bindings c),
            bo_dispatcher := dp_bindingDisconnected binding (bo_dispatcher c)\<rparr>
      | None \<Rightarrow> c)"

definition disconnectAllActions :: "binding_core \<Rightarrow> binding_core" where
  "disconnectAllActions c =
     (let c' = fold (\<lambda>binding c. c\<lparr>bo_dispatcher := dp_bindingDisconnected binding (bo_dispatcher c)\<rparr>)
                 (map_values (bo_bindings c)) c
      in c'\<lparr>bo_bindings := []\<rparr>)"

text \<open>\<open>elem\<close> gives the tag and attributes of an element when a token of it is parsed.\<close>

definition bo_parseValueForToken ::
  "(nat \<Rightarrow> element) \<Rightarrow> token \<Rightarrow> binding_core \<Rightarrow> (js_error + action_object option) \<times> binding_core" where
  "bo_parseValueForToken elem token c =
     (case action_forToken (elem (t_element token)) (t_index token) (t_content token) of
        Inl error \<Rightarrow> (Inl error, c)
      | Inr action \<Rightarrow>
          (Inr (if a_identifier action = bo_identifier c then Some (t_id token, action) else None), c))"

definition binding_delegate :: "(nat \<Rightarrow> element) \<Rightarrow> (action_object, binding_core) value_delegate" where
  "binding_delegate elem =
     \<lparr>parseValueForToken = bo_parseValueForToken elem,
      elementMatchedValue = (\<lambda>element action. connectAction action),
      elementUnmatchedValue = (\<lambda>element action. disconnectAction action)\<rparr>"

type_synonym binding_tower =
  "(action_object, binding_core) value_list_observer token_list_observer element_observer"

text \<open>The observer: \<open>Inr\<close> while \<open>valueListObserver\<close> exists, \<open>Inl\<close> while it does not.\<close>

type_synonym binding_observer = "binding_core + binding_tower"

definition new_binding_tower :: "nat \<Rightarrow> binding_core \<Rightarrow> binding_tower" where
  "new_binding_tower root c =
     new_element_observer root (new_token_list_observer (new_value_list_observer c))"

definition action_delegate ::
  "(nat \<Rightarrow> element) \<Rightarrow> jsstr \<Rightarrow> (action_object, binding_core) value_list_observer token_list_observer element_delegate" where
  "action_delegate elem actionAttribute =
     attribute_observer (value_list_observer (binding_delegate elem)) actionAttribute"

fun bo_start :: "(nat \<Rightarrow> element) \<Rightarrow> jsstr \<Rightarrow> nat \<Rightarrow> dom \<Rightarrow> binding_observer \<Rightarrow> binding_observer" where
  "bo_start elem actionAttribute root dm (Inl c) =
     Inr (eo_start (action_delegate elem actionAttribute) dm (new_binding_tower root c))"
| "bo_start elem actionAttribute root dm (Inr tower) = Inr tower"

fun bo_stop :: "binding_observer \<Rightarrow> binding_observer" where
  "bo_stop (Inr tower) = Inl (disconnectAllActions (tower_delegate (eo_stop tower)))"
| "bo_stop (Inl c) = Inl c"

fun bo_mutations ::
  "(nat \<Rightarrow> element) \<Rightarrow> jsstr \<Rightarrow> dom \<Rightarrow> mutation list \<Rightarrow> binding_observer \<Rightarrow> binding_observer" where
  "bo_mutations elem actionAttribute dm ms (Inr tower) =
     Inr (processMutations (action_delegate elem actionAttribute) dm ms tower)"
| "bo_mutations elem actionAttribute dm ms (Inl c) = Inl c"

section \<open>The binding observer is a lawful value delegate\<close>

definition token_action :: "(nat \<Rightarrow> element) \<Rightarrow> jsstr \<Rightarrow> token \<Rightarrow> action_object option" where
  "token_action elem ident token =
     (case action_forToken (elem (t_element token)) (t_index token) (t_content token) of
        Inl error \<Rightarrow> None
      | Inr action \<Rightarrow> (if a_identifier action = ident then Some (t_id token, action) else None))"

definition action_binding :: "nat \<Rightarrow> action_object \<Rightarrow> binding" where
  "action_binding ctx action = \<lparr>b_context = ctx, b_object = fst action, b_action = snd action\<rparr>"

definition bo_inv :: "nat \<Rightarrow> jsstr \<Rightarrow> binding_core \<Rightarrow> bool" where
  "bo_inv ctx ident c \<longleftrightarrow>
     bo_context c = ctx \<and> bo_identifier c = ident \<and> dp_wf (bo_dispatcher c) \<and>
     distinct (map_keys (bo_bindings c)) \<and>
     (\<forall>action b. map_get (bo_bindings c) action = Some b \<longrightarrow> b = action_binding ctx action) \<and>
     (\<forall>b. b_context b = ctx \<longrightarrow>
        (b \<in> dp_bindings (bo_dispatcher c) \<longleftrightarrow> map_has (bo_bindings c) (b_object b, b_action b)))"

definition bo_count :: "binding_core \<Rightarrow> action_object \<Rightarrow> nat" where
  "bo_count c action = (if map_has (bo_bindings c) action then 1 else 0)"

lemma action_binding_simps [simp]:
  "b_context (action_binding ctx a) = ctx"
  "b_object (action_binding ctx a) = fst a"
  "b_action (action_binding ctx a) = snd a"
  by (simp_all add: action_binding_def)

lemma action_binding_eq: "action_binding ctx a = b \<longleftrightarrow> b_context b = ctx \<and> a = (b_object b, b_action b)"
  by (cases b; cases a) (auto simp: action_binding_def)

lemma connectAction_eq:
  "connectAction action c =
     c\<lparr>bo_bindings := map_set action (action_binding (bo_context c) action) (bo_bindings c),
       bo_dispatcher := dp_bindingConnected (action_binding (bo_context c) action) (bo_dispatcher c)\<rparr>"
  by (simp add: connectAction_def action_binding_def Let_def)

lemma bo_inv_connect: "bo_inv ctx i c \<Longrightarrow> bo_inv ctx i (connectAction action c)"
  by (auto simp: bo_inv_def connectAction_eq dp_wf_connect dp_bindings_connect distinct_map_set
        action_binding_eq simp del: map_of_eq_Some_iff)

lemma bo_inv_disconnect: "bo_inv ctx i c \<Longrightarrow> bo_inv ctx i (disconnectAction action c)"
proof (cases "map_get (bo_bindings c) action")
  case (Some b)
  assume inv: "bo_inv ctx i c"
  with Some have b: "b = action_binding ctx action" unfolding bo_inv_def by blast
  from inv show ?thesis
    by (auto simp: bo_inv_def disconnectAction_def Some b dp_wf_disconnect dp_bindings_disconnect
          distinct_map_delete action_binding_eq simp del: map_of_eq_Some_iff)
qed (simp add: disconnectAction_def)

interpretation bo: value_delegate_laws "binding_delegate elem" "token_action elem ident"
    bo_count False "bo_inv ctx ident" for elem ident ctx
proof
  show "(case fst (parseValueForToken (binding_delegate elem) t d) of Inr v \<Rightarrow> v | Inl _ \<Rightarrow> None) =
      token_action elem ident t" if "bo_inv ctx ident d" for d t
    using that by (auto simp: bo_inv_def binding_delegate_def bo_parseValueForToken_def token_action_def
        split: sum.splits)
  have same: "snd (parseValueForToken (binding_delegate elem) t d) = d" for t d
    by (simp add: binding_delegate_def bo_parseValueForToken_def split: sum.splits)
  show "bo_inv ctx ident (snd (parseValueForToken (binding_delegate elem) t d))"
    if "bo_inv ctx ident d" for d t
    using that by (simp add: same)
  show "bo_count (snd (parseValueForToken (binding_delegate elem) t d)) = bo_count d" for d t
    by (simp add: same)
  show "bo_inv ctx ident (elementMatchedValue (binding_delegate elem) (t_element t) v d)"
    if "bo_inv ctx ident d" for d t v
    using that by (simp add: binding_delegate_def bo_inv_connect)
  show "bo_count (elementMatchedValue (binding_delegate elem) (t_element t) v d) =
      (bo_count d)(v := Suc (bo_count d v))" if "False \<or> bo_count d v = 0" for d t v
    using that by (auto simp: binding_delegate_def bo_count_def connectAction_eq split: if_splits)
  show "bo_inv ctx ident (elementUnmatchedValue (binding_delegate elem) (t_element t) v d)"
    if "bo_inv ctx ident d" for d t v
    using that by (simp add: binding_delegate_def bo_inv_disconnect)
  show "bo_count (elementUnmatchedValue (binding_delegate elem) (t_element t) v d) =
      (bo_count d)(v := bo_count d v - 1)" if "0 < bo_count d v" for d t v
    using that by (auto simp: binding_delegate_def bo_count_def disconnectAction_def split: if_splits)
  show "t_id t = t_id t'" if "token_action elem ident t = Some v" "token_action elem ident t' = Some v"
    for t t' v
    using that by (auto simp: token_action_def split: sum.splits if_splits)
qed

text \<open>The calls one binding observer receives while its context is connected.\<close>

definition bo_run ::
  "(nat \<Rightarrow> element) \<Rightarrow> jsstr \<Rightarrow> observer_call list \<Rightarrow> binding_tower \<Rightarrow> binding_tower" where
  "bo_run elem actionAttribute calls tower = eo_run (action_delegate elem actionAttribute) calls tower"

lemma tower_start_core: "bo.tower_start = new_binding_tower"
  by (intro ext) (simp add: bo.tower_start_def new_binding_tower_def)

section \<open>Disconnecting all actions\<close>

lemma fold_disconnect:
  "dp_wf (bo_dispatcher c) \<Longrightarrow>
   let c' = fold (\<lambda>b c. c\<lparr>bo_dispatcher := dp_bindingDisconnected b (bo_dispatcher c)\<rparr>) bs c
   in dp_wf (bo_dispatcher c') \<and> dp_bindings (bo_dispatcher c') = dp_bindings (bo_dispatcher c) - set bs \<and>
      bo_bindings c' = bo_bindings c \<and> bo_context c' = bo_context c \<and> bo_identifier c' = bo_identifier c"
proof (induction bs arbitrary: c)
  case (Cons b bs)
  then have "dp_wf (dp_bindingDisconnected b (bo_dispatcher c))" by (simp add: dp_wf_disconnect)
  with Cons.IH [of "c\<lparr>bo_dispatcher := dp_bindingDisconnected b (bo_dispatcher c)\<rparr>"]
  show ?case using Cons.prems by (simp add: Let_def dp_bindings_disconnect Diff_insert2 [symmetric])
qed simp

lemma disconnectAllActions_spec:
  assumes "bo_inv ctx i c"
  shows "bo_inv ctx i (disconnectAllActions c)"
    and "dp_bindings (bo_dispatcher (disconnectAllActions c)) =
      {b \<in> dp_bindings (bo_dispatcher c). b_context b \<noteq> ctx}"
proof -
  have inv: "dp_wf (bo_dispatcher c)" "bo_context c = ctx" "bo_identifier c = i"
    "\<And>a b. map_get (bo_bindings c) a = Some b \<Longrightarrow> b = action_binding ctx a"
    "\<And>b. b_context b = ctx \<Longrightarrow>
       b \<in> dp_bindings (bo_dispatcher c) \<longleftrightarrow> map_has (bo_bindings c) (b_object b, b_action b)"
    "distinct (map_keys (bo_bindings c))"
    using assms unfolding bo_inv_def by blast+
  have held: "b \<in> set (map_values (bo_bindings c)) \<longleftrightarrow>
      b_context b = ctx \<and> b \<in> dp_bindings (bo_dispatcher c)" for b
  proof -
    have "b \<in> set (map_values (bo_bindings c)) \<longleftrightarrow> (\<exists>a. map_get (bo_bindings c) a = Some b)"
      using inv(6) by force
    also have "\<dots> \<longleftrightarrow> (\<exists>a. map_has (bo_bindings c) a \<and> b = action_binding ctx a)"
      using inv(4) by (metis not_None_eq)
    also have "\<dots> \<longleftrightarrow> b_context b = ctx \<and> b \<in> dp_bindings (bo_dispatcher c)"
      using inv(5) action_binding_eq by (metis action_binding_simps surjective_pairing)
    finally show ?thesis .
  qed
  note f = fold_disconnect [OF inv(1), of "map_values (bo_bindings c)", unfolded Let_def]
  show eq: "dp_bindings (bo_dispatcher (disconnectAllActions c)) =
      {b \<in> dp_bindings (bo_dispatcher c). b_context b \<noteq> ctx}"
    using f held by (auto simp: disconnectAllActions_def Let_def)
  have "bo_bindings (disconnectAllActions c) = []"
    by (simp add: disconnectAllActions_def Let_def)
  then show "bo_inv ctx i (disconnectAllActions c)"
    using f inv(2,3) eq by (simp add: bo_inv_def) (simp add: disconnectAllActions_def Let_def)
qed

section \<open>Properties\<close>

definition fresh_core :: "nat \<Rightarrow> jsstr \<Rightarrow> dispatcher \<Rightarrow> binding_core" where
  "fresh_core ctx ident d =
     \<lparr>bo_context = ctx, bo_identifier = ident, bo_bindings = [], bo_dispatcher = d\<rparr>"

definition no_bindings_of :: "nat \<Rightarrow> dispatcher \<Rightarrow> bool" where
  "no_bindings_of ctx d \<longleftrightarrow> dp_wf d \<and> (\<forall>b \<in> dp_bindings d. b_context b \<noteq> ctx)"

lemma bo_inv_fresh: "no_bindings_of ctx d \<Longrightarrow> bo_inv ctx ident (fresh_core ctx ident d)"
  by (auto simp: bo_inv_def fresh_core_def no_bindings_of_def)

lemma bo_run_ok:
  assumes "no_bindings_of ctx d"
    and "tower = bo_run elem name calls (new_binding_tower root (fresh_core ctx ident d))"
  shows "bo.tokens.attribute.eo_ok elem ident ctx tower"
proof -
  have "bo.tokens.attribute.eo_ok elem ident ctx (bo.tower_start root (fresh_core ctx ident d))"
    using bo_inv_fresh [OF assms(1)] by (intro bo.tower_start_ok) (simp_all add: bo_count_def fresh_core_def)
  then show ?thesis
    unfolding assms(2) bo_run_def action_delegate_def tower_start_core
    by (rule bo.tokens.attribute.eo_run_ok)
qed

text \<open>
  C11. From a dispatcher without bindings of the context, whatever sequence of start, stop,
  refresh and DOM mutations the binding observer processes, the dispatcher's bindings of
  that context are exactly the actions, with the context's identifier, of the tokens it
  currently tracks, and tokens are tracked only on elements that the element observer
  holds.
\<close>

theorem bindings_follow_action_tokens:
  assumes "no_bindings_of ctx d"
    and "tower = bo_run elem name calls (new_binding_tower root (fresh_core ctx ident d))"
    and "b_context b = ctx"
  shows "b \<in> dp_bindings (bo_dispatcher (tower_delegate tower)) \<longleftrightarrow>
    (\<exists>t \<in> live_tokens (eo_delegate tower). t_element t \<in> set (eo_elements tower) \<and>
       token_action elem ident t = Some (b_object b, b_action b))"
proof -
  note ok = bo_run_ok [OF assms(1,2)]
  have "b \<in> dp_bindings (bo_dispatcher (tower_delegate tower)) \<longleftrightarrow>
      map_has (bo_bindings (tower_delegate tower)) (b_object b, b_action b)"
    using bo.eo_ok_delegate [OF ok] assms(3) unfolding bo_inv_def by blast
  also have "\<dots> \<longleftrightarrow> 0 < bo_count (tower_delegate tower) (b_object b, b_action b)"
    by (simp add: bo_count_def)
  finally show ?thesis by (simp only: bo.count_pos [OF ok])
qed

text \<open>A concrete page for the witnesses: button 2 below the root 1 carries one action.\<close>

definition sample_elem :: "nat \<Rightarrow> element" where
  "sample_elem e = \<lparr>el_id = e, tagName = ''BUTTON'', attributes = []\<rparr>"

definition sample_dom :: dom where
  "sample_dom = \<lparr>getAttr = (\<lambda>e n. if e = 2 \<and> n = ''data-action'' then Some ''unicast#send'' else None),
     contained = (\<lambda>_. True), subtree = (\<lambda>_. [1, 2])\<rparr>"

definition sample_tower :: binding_tower where
  "sample_tower = bo_run sample_elem ''data-action'' [Start sample_dom]
     (new_binding_tower 1 (fresh_core 7 ''unicast'' new_dispatcher))"

definition sample_action :: action where
  "sample_action = \<lparr>a_element = 2, a_index = 0, a_eventTarget = Element 2, a_eventName = ''click'',
     a_eventOptions = [], a_identifier = ''unicast'', a_methodName = ''send''\<rparr>"

lemma sample_no_bindings: "no_bindings_of 7 new_dispatcher"
  by (simp add: no_bindings_of_def)

lemma bindings_follow_action_tokens_witness:
  "\<exists>t \<in> live_tokens (eo_delegate sample_tower). t_element t \<in> set (eo_elements sample_tower) \<and>
     token_action sample_elem ''unicast'' t = Some (0, sample_action)"
proof -
  let ?b = "\<lparr>b_context = 7, b_object = 0, b_action = sample_action\<rparr>"
  have "?b \<in> set (filed (bo_dispatcher (tower_delegate sample_tower)) (Element 2) ''click'')"
    by code_simp
  then have "?b \<in> dp_bindings (bo_dispatcher (tower_delegate sample_tower))"
    unfolding dp_bindings_def by blast
  then show ?thesis
    using bindings_follow_action_tokens [OF sample_no_bindings sample_tower_def, of ?b] by simp
qed

text \<open>
  Stopping a binding observer removes every binding of its context from the dispatcher
  and no binding of any other context; a second stop does nothing.
\<close>

theorem stop_removes_own_bindings:
  assumes "no_bindings_of ctx d"
    and "tower = bo_run elem name calls (new_binding_tower root (fresh_core ctx ident d))"
  shows "case bo_stop (Inr tower) of
      Inl c \<Rightarrow> dp_bindings (bo_dispatcher c) =
          {b \<in> dp_bindings (bo_dispatcher (tower_delegate tower)). b_context b \<noteq> ctx} \<and>
        no_bindings_of ctx (bo_dispatcher c) \<and> bo_stop (Inl c) = Inl c
    | Inr _ \<Rightarrow> False"
proof -
  have core: "tower_delegate (eo_stop tower) = tower_delegate tower"
    by (simp add: tower_delegate_def eo_stop_def)
  note spec = disconnectAllActions_spec [OF bo.eo_ok_delegate [OF bo_run_ok [OF assms]]]
  then have "dp_wf (bo_dispatcher (disconnectAllActions (tower_delegate tower)))"
    by (simp add: bo_inv_def)
  with spec(2) show ?thesis by (simp add: core no_bindings_of_def)
qed

lemma stop_removes_own_bindings_witness:
  "case bo_stop (Inr sample_tower) of
      Inl c \<Rightarrow> dp_bindings (bo_dispatcher c) =
          {b \<in> dp_bindings (bo_dispatcher (tower_delegate sample_tower)). b_context b \<noteq> 7} \<and>
        no_bindings_of 7 (bo_dispatcher c) \<and> bo_stop (Inl c) = Inl c
    | Inr _ \<Rightarrow> False"
  by (rule stop_removes_own_bindings [OF sample_no_bindings sample_tower_def])

end
