(* ===== verification/Stimulus_Router.thy ===== *)
theory Stimulus_Router
  imports Stimulus_Observers
begin

text \<open>
  Controllers and their life cycle in stimulus.js: the classes \<open>Module\<close> (one registered
  controller definition and its contexts), \<open>Router\<close> (scopes by identifier, modules by
  identifier) and \<open>ScopeObserver\<close> (data-controller tokens to reference-counted scopes). A
  context object is identified by its module and its scope; what happens to it is recorded
  in the log of the router, in the order in which the code calls the context's
  constructor (which runs \<open>initialize\<close>), \<open>connect\<close> and \<open>disconnect\<close>. Scope objects are
  cached per element and identifier and never evicted, so the pair identifies them.

  ScopeObserver is the second value delegate of the observer tower: the laws are discharged
  below, with shared values, since one element may name an identifier twice.
\<close>

section \<open>Modules\<close>

record scope =
  sc_element :: nat
  sc_identifier :: jsstr

datatype lifecycle_kind = Initialize | Connect | Disconnect

datatype lifecycle = Lifecycle (lc_kind: lifecycle_kind) (lc_module: nat) (lc_scope: scope)

text \<open>\<open>m_contexts\<close> lists the scopes with an entry in \<open>contextsByScope\<close>.\<close>

record module =
  m_id :: nat
  m_identifier :: jsstr
  m_contexts :: "scope jsset"
  m_connected :: "scope jsset"

type_synonym module_log = "module \<times> lifecycle list"

definition new_module :: "nat \<Rightarrow> jsstr \<Rightarrow> module" where
  "new_module n ident = \<lparr>m_id = n, m_identifier = ident, m_contexts = [], m_connected = []\<rparr>"

definition fetchContextForScope :: "scope \<Rightarrow> module_log \<Rightarrow> module_log" where
  "fetchContextForScope s ml =
     (let (m, log) = ml
      in if s \<in> set (m_contexts m) then (m, log)
         else (m\<lparr>m_contexts := set_add s (m_contexts m)\<rparr>, log @ [Lifecycle Initialize (m_id m) s]))"

definition connectContextForScope :: "scope \<Rightarrow> module_log \<Rightarrow> module_log" where
  "connectContextForScope s ml =
     (let (m, log) = fetchContextForScope s ml
      in (m\<lparr>m_connected := set_add s (m_connected m)\<rparr>, log @ [Lifecycle Connect (m_id m) s]))"

definition disconnectContextForScope :: "scope \<Rightarrow> module_log \<Rightarrow> module_log" where
  "disconnectContextForScope s ml =
     (let (m, log) = ml
      in if s \<in> set (m_contexts m)
         then (m\<lparr>m_connected := set_delete s (m_connected m)\<rparr>, log @ [Lifecycle Disconnect (m_id m) s])
         else (m, log))"

section \<open>Router\<close>

record router =
  rt_scopes :: "(jsstr, scope) multimap"
  rt_modules :: "(jsstr, module) jsmap"
  rt_next :: nat
  rt_log :: "lifecycle list"

definition new_router :: router where
  "new_router = \<lparr>rt_scopes = [], rt_modules = [], rt_next = 0, rt_log = []\<rparr>"

definition scopeConnected :: "scope \<Rightarrow> router \<Rightarrow> router" where
  "scopeConnected s r =
     (let r' = r\<lparr>rt_scopes := mm_add (sc_identifier s) s (rt_scopes r)\<rparr>
      in case map_get (rt_modules r') (sc_identifier s) of
           Some m \<Rightarrow>
             let (m', log') = connectContextForScope s (m, rt_log r')
             in r'\<lparr>rt_modules := map_set (sc_identifier s) m' (rt_modules r'), rt_log := log'\<rparr>
         | None \<Rightarrow> r')"

definition scopeDisconnected :: "scope \<Rightarrow> router \<Rightarrow> router" where
  "scopeDisconnected s r =
     (let r' = r\<lparr>rt_scopes := mm_del (sc_identifier s) s (rt_scopes r)\<rparr>
      in case map_get (rt_modules r') (sc_identifier s) of
           Some m \<Rightarrow>
             let (m', log') = disconnectContextForScope s (m, rt_log r')
             in r'\<lparr>rt_modules := map_set (sc_identifier s) m' (rt_modules r'), rt_log := log'\<rparr>
         | None \<Rightarrow> r')"

definition connectModule :: "module \<Rightarrow> router \<Rightarrow> router" where
  "connectModule m r =
     (let scopes = mm_values_for_key (rt_scopes r) (m_identifier m);
          (m', log') = fold connectContextForScope scopes (m, rt_log r)
      in r\<lparr>rt_modules := map_set (m_identifier m) m' (rt_modules r), rt_log := log'\<rparr>)"

definition disconnectModule :: "module \<Rightarrow> router \<Rightarrow> router" where
  "disconnectModule m r =
     (let r' = r\<lparr>rt_modules := map_delete (m_identifier m) (rt_modules r)\<rparr>;
          scopes = mm_values_for_key (rt_scopes r') (m_identifier m);
          (m', log') = fold disconnectContextForScope scopes (m, rt_log r')
      in r'\<lparr>rt_log := log'\<rparr>)"

definition unloadIdentifier :: "jsstr \<Rightarrow> router \<Rightarrow> router" where
  "unloadIdentifier ident r =
     (case map_get (rt_modules r) ident of Some m \<Rightarrow> disconnectModule m r | None \<Rightarrow> r)"

definition loadDefinition :: "jsstr \<Rightarrow> router \<Rightarrow> router" where
  "loadDefinition ident r =
     (let r1 = unloadIdentifier ident r;
          m = new_module (rt_next r1) ident
      in connectModule m (r1\<lparr>rt_next := Suc (rt_next r1)\<rparr>))"

definition getContextForElementAndIdentifier :: "router \<Rightarrow> nat \<Rightarrow> jsstr \<Rightarrow> (nat \<times> scope) option" where
  "getContextForElementAndIdentifier r element ident =
     (case map_get (rt_modules r) ident of
        Some m \<Rightarrow> map_option (Pair (m_id m)) (find (\<lambda>s. sc_element s = element) (m_connected m))
      | None \<Rightarrow> None)"

section \<open>ScopeObserver\<close>

record scope_core =
  so_scopes :: "(nat, (jsstr, scope) jsmap) jsmap"
  so_counts :: "(scope, nat) jsmap"
  so_router :: router

definition new_scope_core :: scope_core where
  "new_scope_core = \<lparr>so_scopes = [], so_counts = [], so_router = new_router\<rparr>"

definition createScopeForElementAndIdentifier :: "nat \<Rightarrow> jsstr \<Rightarrow> scope" where
  "createScopeForElementAndIdentifier element ident = \<lparr>sc_element = element, sc_identifier = ident\<rparr>"

definition fetchScopesByIdentifierForElement ::
  "nat \<Rightarrow> scope_core \<Rightarrow> (jsstr, scope) jsmap \<times> scope_core" where
  "fetchScopesByIdentifierForElement element c =
     (case map_get (so_scopes c) element of
        Some scopesByIdentifier \<Rightarrow> (scopesByIdentifier, c)
      | None \<Rightarrow> ([], c\<lparr>so_scopes := map_set element [] (so_scopes c)\<rparr>))"

definition so_parseValueForToken ::
  "token \<Rightarrow> scope_core \<Rightarrow> (js_error + scope option) \<times> scope_core" where
  "so_parseValueForToken token c =
     (let element = t_element token; ident = t_content token;
          (scopesByIdentifier, c') = fetchScopesByIdentifierForElement element c
      in case map_get scopesByIdentifier ident of
           Some s \<Rightarrow> (Inr (Some s), c')
         | None \<Rightarrow>
             let s = createScopeForElementAndIdentifier element ident
             in (Inr (Some s),
                 c'\<lparr>so_scopes := map_set element (map_set ident s scopesByIdentifier) (so_scopes c')\<rparr>))"

definition reference_count :: "scope_core \<Rightarrow> scope \<Rightarrow> nat" where
  "reference_count c s = (case map_get (so_counts c) s of Some n \<Rightarrow> n | None \<Rightarrow> 0)"

definition so_elementMatchedValue :: "nat \<Rightarrow> scope \<Rightarrow> scope_core \<Rightarrow> scope_core" where
  "so_elementMatchedValue element s c =
     (let referenceCount = reference_count c s + 1;
          c' = c\<lparr>so_counts := map_set s referenceCount (so_counts c)\<rparr>
      in if referenceCount = 1 then c'\<lparr>so_router := scopeConnected s (so_router c')\<rparr> else c')"

definition so_elementUnmatchedValue :: "nat \<Rightarrow> scope \<Rightarrow> scope_core \<Rightarrow> scope_core" where
  "so_elementUnmatchedValue element s c =
     (case map_get (so_counts c) s of
        None \<Rightarrow> c
      | Some referenceCount \<Rightarrow>
          if referenceCount = 0 then c
          else let c' = c\<lparr>so_counts := map_set s (referenceCount - 1) (so_counts c)\<rparr>
               in if referenceCount = 1
                  then c'\<lparr>so_router := scopeDisconnected s (so_router c')\<rparr> else c')"

definition scope_delegate :: "(scope, scope_core) value_delegate" where
  "scope_delegate =
     \<lparr>parseValueForToken = so_parseValueForToken,
      elementMatchedValue = so_elementMatchedValue,
      elementUnmatchedValue = so_elementUnmatchedValue\<rparr>"

text \<open>The scope observer, with the tower below it, and the calls it and the router receive.\<close>

type_synonym application =
  "(scope, scope_core) value_list_observer token_list_observer element_observer"

definition controller_delegate ::
  "jsstr \<Rightarrow> (scope, scope_core) value_list_observer token_list_observer element_delegate" where
  "controller_delegate controllerAttribute =
     attribute_observer (value_list_observer scope_delegate) controllerAttribute"

definition new_application :: "nat \<Rightarrow> application" where
  "new_application root =
     new_element_observer root (new_token_list_observer (new_value_list_observer new_scope_core))"

definition app_router :: "application \<Rightarrow> router" where
  "app_router app = so_router (tower_delegate app)"

definition update_router :: "(router \<Rightarrow> router) \<Rightarrow> application \<Rightarrow> application" where
  "update_router f app = update_delegate (\<lambda>c. c\<lparr>so_router := f (so_router c)\<rparr>) app"

datatype application_call = Load jsstr | Unload jsstr | Observe observer_call

fun app_call :: "application_call \<Rightarrow> application \<Rightarrow> application" where
  "app_call (Load ident) app = update_router (loadDefinition ident) app"
| "app_call (Unload ident) app = update_router (unloadIdentifier ident) app"
| "app_call (Observe c) app = eo_call (controller_delegate ''data-controller'') c app"

definition app_run :: "nat \<Rightarrow> application_call list \<Rightarrow> application" where
  "app_run root calls = fold app_call calls (new_application root)"

section \<open>Life cycle of one context\<close>

datatype phase = Absent | Created | Connected

fun phase_step :: "lifecycle_kind \<Rightarrow> phase \<Rightarrow> phase option" where
  "phase_step Initialize Absent = Some Created"
| "phase_step Connect Created = Some Connected"
| "phase_step Disconnect Connected = Some Created"
| "phase_step _ _ = None"

text \<open>Read a log: \<open>None\<close> when the events of the context are out of order.\<close>

definition phase_of :: "nat \<Rightarrow> scope \<Rightarrow> lifecycle list \<Rightarrow> phase option" where
  "phase_of n s log =
     fold (\<lambda>ev p. if lc_module ev = n \<and> lc_scope ev = s
                  then Option.bind p (phase_step (lc_kind ev)) else p) log (Some Absent)"

lemma phase_of_Nil [simp]: "phase_of n s [] = Some Absent"
  by (simp add: phase_of_def)

lemma phase_of_snoc [simp]:
  "phase_of n s (log @ [ev]) =
     (if lc_module ev = n \<and> lc_scope ev = s
      then Option.bind (phase_of n s log) (phase_step (lc_kind ev)) else phase_of n s log)"
  by (simp add: phase_of_def)

lemma phase_of_snoc2 [simp]:
  "phase_of n s (log @ [ev, ev']) =
     (if lc_module ev' = n \<and> lc_scope ev' = s
      then Option.bind (phase_of n s (log @ [ev])) (phase_step (lc_kind ev'))
      else phase_of n s (log @ [ev]))"
  using phase_of_snoc [of n s "log @ [ev]" ev'] by simp

text \<open>The phases of a module's contexts, as its two sets record them.\<close>

definition module_phase :: "module \<Rightarrow> scope \<Rightarrow> phase" where
  "module_phase m s =
     (if s \<in> set (m_connected m) then Connected
      else if s \<in> set (m_contexts m) then Created else Absent)"

definition module_log_ok :: "module_log \<Rightarrow> bool" where
  "module_log_ok ml \<longleftrightarrow>
     set (m_connected (fst ml)) \<subseteq> set (m_contexts (fst ml)) \<and>
     (\<forall>s. phase_of (m_id (fst ml)) s (snd ml) = Some (module_phase (fst ml) s))"

lemma connectContext_spec:
  assumes "module_log_ok (m, log)" and "s \<notin> set (m_connected m)"
    and "connectContextForScope s (m, log) = (m', log')"
  shows "module_log_ok (m', log')" and "m_id m' = m_id m" and "m_identifier m' = m_identifier m"
    and "set (m_connected m') = insert s (set (m_connected m))"
    and "n \<noteq> m_id m \<Longrightarrow> phase_of n s' log' = phase_of n s' log"
  using assms
  by (auto simp: connectContextForScope_def fetchContextForScope_def module_log_ok_def module_phase_def
        split: if_splits)

lemma disconnectContext_spec:
  assumes "module_log_ok (m, log)" and "s \<in> set (m_connected m)"
    and "disconnectContextForScope s (m, log) = (m', log')"
  shows "module_log_ok (m', log')" and "m_id m' = m_id m" and "m_identifier m' = m_identifier m"
    and "set (m_connected m') = set (m_connected m) - {s}"
    and "n \<noteq> m_id m \<Longrightarrow> phase_of n s' log' = phase_of n s' log"
  using assms
  by (auto simp: disconnectContextForScope_def module_log_ok_def module_phase_def
        split: if_splits)

lemma fold_connect_spec:
  assumes "module_log_ok (m, log)" and "distinct ss" and "set ss \<inter> set (m_connected m) = {}"
    and "fold connectContextForScope ss (m, log) = (m', log')"
  shows "module_log_ok (m', log') \<and> m_id m' = m_id m \<and> m_identifier m' = m_identifier m \<and>
    set (m_connected m') = set ss \<union> set (m_connected m) \<and>
    (\<forall>n s. n \<noteq> m_id m \<longrightarrow> phase_of n s log' = phase_of n s log)"
  using assms
proof (induction ss arbitrary: m log)
  case (Cons s ss)
  obtain m1 log1 where step: "connectContextForScope s (m, log) = (m1, log1)"
    by (cases "connectContextForScope s (m, log)")
  have "s \<notin> set (m_connected m)" using Cons.prems(3) by auto
  note c = connectContext_spec [OF Cons.prems(1) this step]
  have "set ss \<inter> set (m_connected m1) = {}" using Cons.prems(2,3) c(4) by auto
  with Cons.IH [OF c(1)] Cons.prems(2,4) step c show ?case by auto
qed auto

lemma fold_disconnect_spec:
  assumes "module_log_ok (m, log)" and "distinct ss" and "set ss \<subseteq> set (m_connected m)"
    and "fold disconnectContextForScope ss (m, log) = (m', log')"
  shows "module_log_ok (m', log') \<and> m_id m' = m_id m \<and>
    set (m_connected m') = set (m_connected m) - set ss \<and>
    (\<forall>n s. n \<noteq> m_id m \<longrightarrow> phase_of n s log' = phase_of n s log)"
  using assms
proof (induction ss arbitrary: m log)
  case (Cons s ss)
  obtain m1 log1 where step: "disconnectContextForScope s (m, log) = (m1, log1)"
    by (cases "disconnectContextForScope s (m, log)")
  have "s \<in> set (m_connected m)" using Cons.prems(3) by auto
  note c = disconnectContext_spec [OF Cons.prems(1) this step]
  have "set ss \<subseteq> set (m_connected m1)" using Cons.prems(2,3) c(4) by auto
  with Cons.IH [OF c(1)] Cons.prems(2,4) step c show ?case by auto
qed auto

section \<open>The router's invariant\<close>

text \<open>\<open>S k\<close> are the scopes registered under \<open>k\<close>, \<open>f k\<close> the module loaded for \<open>k\<close>.\<close>

definition modules_ok ::
  "(jsstr \<Rightarrow> scope set) \<Rightarrow> (jsstr \<Rightarrow> module option) \<Rightarrow> nat \<Rightarrow> lifecycle list \<Rightarrow> bool" where
  "modules_ok S f nxt log \<longleftrightarrow>
     (\<forall>k m. f k = Some m \<longrightarrow> m_identifier m = k \<and> m_id m < nxt \<and> set (m_connected m) = S k \<and>
        module_log_ok (m, log)) \<and>
     (\<forall>k m k' m'. f k = Some m \<longrightarrow> f k' = Some m' \<longrightarrow> m_id m = m_id m' \<longrightarrow> k = k') \<and>
     (\<forall>n s. (\<forall>k m. f k = Some m \<longrightarrow> m_id m \<noteq> n) \<longrightarrow> phase_of n s log \<in> {Some Absent, Some Created}) \<and>
     (\<forall>n s. nxt \<le> n \<longrightarrow> phase_of n s log = Some Absent)"

definition same_elsewhere :: "nat \<Rightarrow> lifecycle list \<Rightarrow> lifecycle list \<Rightarrow> bool" where
  "same_elsewhere i log log' \<longleftrightarrow> (\<forall>n s. n \<noteq> i \<longrightarrow> phase_of n s log' = phase_of n s log)"

lemma module_log_ok_elsewhere:
  "same_elsewhere i log log' \<Longrightarrow> m_id m \<noteq> i \<Longrightarrow> module_log_ok (m, log') = module_log_ok (m, log)"
  by (simp add: same_elsewhere_def module_log_ok_def)

lemma modules_ok_step:
  assumes ok: "modules_ok S f nxt log" and "f k = Some m"
    and m': "m_id m' = m_id m" "m_identifier m' = m_identifier m" "module_log_ok (m', log')"
    and same: "same_elsewhere (m_id m) log log'"
  shows "modules_ok (S(k := set (m_connected m'))) (f(k \<mapsto> m')) nxt log'"
proof -
  have m: "m_identifier m = k" "m_id m < nxt" using ok \<open>f k = Some m\<close> by (simp_all add: modules_ok_def)
  have other: "m_id m2 \<noteq> m_id m" if "f k2 = Some m2" "k2 \<noteq> k" for k2 m2
    using ok \<open>f k = Some m\<close> that unfolding modules_ok_def by metis
  show ?thesis
    unfolding modules_ok_def
  proof (intro conjI allI impI)
    fix k2 m2 assume "(f(k \<mapsto> m')) k2 = Some m2"
    then show "m_identifier m2 = k2" "m_id m2 < nxt" "set (m_connected m2) = (S(k := set (m_connected m'))) k2"
      "module_log_ok (m2, log')"
      using ok m m' other [of k2 m2] module_log_ok_elsewhere [OF same, of m2]
      by (auto simp: modules_ok_def split: if_splits)
  next
    fix k1 m1 k2 m2
    assume "(f(k \<mapsto> m')) k1 = Some m1" "(f(k \<mapsto> m')) k2 = Some m2" "m_id m1 = m_id m2"
    with other m' ok show "k1 = k2"
      by (auto simp: modules_ok_def split: if_splits)
  next
    fix n s assume a: "\<forall>k1 m1. (f(k \<mapsto> m')) k1 = Some m1 \<longrightarrow> m_id m1 \<noteq> n"
    from a [rule_format, of k m'] m' have n: "n \<noteq> m_id m" by simp
    have "m_id m1 \<noteq> n" if "f k1 = Some m1" for k1 m1
      using a [rule_format, of k1 m1] that \<open>f k = Some m\<close> n by (cases "k1 = k") auto
    then have "phase_of n s log \<in> {Some Absent, Some Created}" using ok unfolding modules_ok_def by blast
    with same n show "phase_of n s log' \<in> {Some Absent, Some Created}" by (simp add: same_elsewhere_def)
  next
    fix n s assume "nxt \<le> n"
    with ok m(2) same show "phase_of n s log' = Some Absent"
      by (auto simp: modules_ok_def same_elsewhere_def)
  qed
qed

lemma modules_ok_unloaded_key:
  "modules_ok S f nxt log \<Longrightarrow> f k = None \<Longrightarrow> modules_ok (S(k := X)) f nxt log"
  unfolding modules_ok_def by (auto split: if_splits)

lemma modules_ok_new_module:
  "modules_ok S f nxt log \<Longrightarrow> module_log_ok (new_module nxt k, log)"
  by (simp add: modules_ok_def module_log_ok_def module_phase_def new_module_def)

lemma modules_ok_load:
  assumes ok: "modules_ok S f nxt log" and "f k = None"
    and m': "m_id m' = nxt" "m_identifier m' = k" "module_log_ok (m', log')" "set (m_connected m') = S k"
    and same: "same_elsewhere nxt log log'"
  shows "modules_ok S (f(k \<mapsto> m')) (Suc nxt) log'"
proof -
  have other: "m_id m2 \<noteq> nxt" if "f k2 = Some m2" for k2 m2
    using ok that by (auto simp: modules_ok_def)
  show ?thesis
    unfolding modules_ok_def
  proof (intro conjI allI impI)
    fix k2 m2 assume "(f(k \<mapsto> m')) k2 = Some m2"
    then show "m_identifier m2 = k2" "m_id m2 < Suc nxt" "set (m_connected m2) = S k2"
      "module_log_ok (m2, log')"
      using ok m' other [of k2 m2] module_log_ok_elsewhere [OF same, of m2]
      by (auto simp: modules_ok_def less_Suc_eq split: if_splits)
  next
    fix k1 m1 k2 m2
    assume "(f(k \<mapsto> m')) k1 = Some m1" "(f(k \<mapsto> m')) k2 = Some m2" "m_id m1 = m_id m2"
    with other m' ok show "k1 = k2"
      by (auto simp: modules_ok_def split: if_splits)
  next
    fix n s assume a: "\<forall>k1 m1. (f(k \<mapsto> m')) k1 = Some m1 \<longrightarrow> m_id m1 \<noteq> n"
    from a [rule_format, of k m'] m' have n: "n \<noteq> nxt" by simp
    have "m_id m1 \<noteq> n" if "f k1 = Some m1" for k1 m1
      using a [rule_format, of k1 m1] that \<open>f k = None\<close> by (cases "k1 = k") auto
    then have "phase_of n s log \<in> {Some Absent, Some Created}" using ok unfolding modules_ok_def by blast
    with same n show "phase_of n s log' \<in> {Some Absent, Some Created}" by (simp add: same_elsewhere_def)
  next
    fix n s assume "Suc nxt \<le> n"
    with ok same show "phase_of n s log' = Some Absent"
      by (auto simp: modules_ok_def same_elsewhere_def)
  qed
qed

lemma modules_ok_unload:
  assumes ok: "modules_ok S f nxt log" and "f k = Some m"
    and m': "m_id m' = m_id m" "module_log_ok (m', log')" "set (m_connected m') = {}"
    and same: "same_elsewhere (m_id m) log log'"
  shows "modules_ok S (f(k := None)) nxt log'"
proof -
  have other: "m_id m2 \<noteq> m_id m" if "f k2 = Some m2" "k2 \<noteq> k" for k2 m2
    using ok \<open>f k = Some m\<close> that unfolding modules_ok_def by metis
  show ?thesis
    unfolding modules_ok_def
  proof (intro conjI allI impI)
    fix k2 m2 assume "(f(k := None)) k2 = Some m2"
    then show "m_identifier m2 = k2" "m_id m2 < nxt" "set (m_connected m2) = S k2"
      "module_log_ok (m2, log')"
      using ok other [of k2 m2] module_log_ok_elsewhere [OF same, of m2]
      by (auto simp: modules_ok_def split: if_splits)
  next
    fix k1 m1 k2 m2
    assume "(f(k := None)) k1 = Some m1" "(f(k := None)) k2 = Some m2" "m_id m1 = m_id m2"
    with ok show "k1 = k2"
      unfolding modules_ok_def by (metis fun_upd_other fun_upd_same option.distinct(1))
  next
    fix n s assume a: "\<forall>k1 m1. (f(k := None)) k1 = Some m1 \<longrightarrow> m_id m1 \<noteq> n"
    show "phase_of n s log' \<in> {Some Absent, Some Created}"
    proof (cases "n = m_id m")
      case True
      with m' show ?thesis by (auto simp: module_log_ok_def module_phase_def)
    next
      case False
      have "m_id m1 \<noteq> n" if "f k1 = Some m1" for k1 m1
        using a [rule_format, of k1 m1] that \<open>f k = Some m\<close> False by (cases "k1 = k") auto
      then have "phase_of n s log \<in> {Some Absent, Some Created}" using ok unfolding modules_ok_def by blast
      with same False show ?thesis by (simp add: same_elsewhere_def)
    qed
  next
    fix n s assume n: "nxt \<le> n"
    have "m_id m < nxt" using ok \<open>f k = Some m\<close> by (simp add: modules_ok_def)
    with ok same n show "phase_of n s log' = Some Absent"
      by (auto simp: modules_ok_def same_elsewhere_def)
  qed
qed

definition router_ok :: "router \<Rightarrow> bool" where
  "router_ok r \<longleftrightarrow> mm_wf (rt_scopes r) \<and> (\<forall>k s. (k, s) \<in> mm_rel (rt_scopes r) \<longrightarrow> sc_identifier s = k) \<and>
     modules_ok (\<lambda>k. set (mm_values_for_key (rt_scopes r) k)) (map_get (rt_modules r)) (rt_next r) (rt_log r)"

lemma router_ok_new [simp]: "router_ok new_router"
  by (simp add: router_ok_def new_router_def modules_ok_def)

definition registered :: "router \<Rightarrow> scope \<Rightarrow> bool" where
  "registered r s \<longleftrightarrow> (sc_identifier s, s) \<in> mm_rel (rt_scopes r)"

lemma registered_new: "\<not> registered new_router s"
  by (simp add: registered_def new_router_def)

lemma registered_iff: "registered r s \<longleftrightarrow> s \<in> set (mm_values_for_key (rt_scopes r) (sc_identifier s))"
  by (simp add: registered_def mm_rel_def)

lemma scopeConnected_scopes [simp]:
  "rt_scopes (scopeConnected s r) = mm_add (sc_identifier s) s (rt_scopes r)"
  by (simp add: scopeConnected_def Let_def split: option.splits prod.splits)

lemma scopeDisconnected_scopes [simp]:
  "rt_scopes (scopeDisconnected s r) = mm_del (sc_identifier s) s (rt_scopes r)"
  by (simp add: scopeDisconnected_def Let_def split: option.splits prod.splits)

lemma values_for_key_add_fun:
  "(\<lambda>k'. set (mm_values_for_key (mm_add k v m) k')) =
     (\<lambda>k'. set (mm_values_for_key m k'))(k := insert v (set (mm_values_for_key m k)))"
  by (auto simp: fun_eq_iff mm_values_for_key_add)

lemma values_for_key_del_fun:
  "(\<lambda>k'. set (mm_values_for_key (mm_del k v m) k')) =
     (\<lambda>k'. set (mm_values_for_key m k'))(k := set (mm_values_for_key m k) - {v})"
  by (auto simp: fun_eq_iff mm_values_for_key_del set_delete_def)

lemma router_ok_scopeConnected:
  assumes ok: "router_ok r" and new: "\<not> registered r s"
  shows "router_ok (scopeConnected s r)"
proof -
  let ?k = "sc_identifier s"
  let ?S = "\<lambda>k. set (mm_values_for_key (rt_scopes r) k)"
  have mods: "modules_ok ?S (map_get (rt_modules r)) (rt_next r) (rt_log r)"
    using ok by (simp add: router_ok_def)
  have "modules_ok (?S(?k := insert s (?S ?k))) (map_get (rt_modules (scopeConnected s r)))
      (rt_next (scopeConnected s r)) (rt_log (scopeConnected s r))"
  proof (cases "map_get (rt_modules r) ?k")
    case None
    with modules_ok_unloaded_key [OF mods None] show ?thesis by (simp add: scopeConnected_def)
  next
    case (Some m)
    obtain m' log' where c: "connectContextForScope s (m, rt_log r) = (m', log')"
      by (cases "connectContextForScope s (m, rt_log r)")
    have m: "module_log_ok (m, rt_log r)" "set (m_connected m) = ?S ?k"
      using mods Some by (simp_all add: modules_ok_def)
    with new have "s \<notin> set (m_connected m)" by (simp add: registered_iff)
    note spec = connectContext_spec [OF m(1) this c]
    then have "same_elsewhere (m_id m) (rt_log r) log'" by (simp add: same_elsewhere_def)
    from modules_ok_step [OF mods Some spec(2,3,1) this] show ?thesis
      by (simp add: scopeConnected_def Some c spec(4) m(2) fun_upd_def)
  qed
  with ok show ?thesis
    by (simp add: router_ok_def values_for_key_add_fun mm_rel_add mm_wf_add)
qed

lemma router_ok_scopeDisconnected:
  assumes ok: "router_ok r" and held: "registered r s"
  shows "router_ok (scopeDisconnected s r)"
proof -
  let ?k = "sc_identifier s"
  let ?S = "\<lambda>k. set (mm_values_for_key (rt_scopes r) k)"
  have mods: "modules_ok ?S (map_get (rt_modules r)) (rt_next r) (rt_log r)"
    using ok by (simp add: router_ok_def)
  have "modules_ok (?S(?k := ?S ?k - {s})) (map_get (rt_modules (scopeDisconnected s r)))
      (rt_next (scopeDisconnected s r)) (rt_log (scopeDisconnected s r))"
  proof (cases "map_get (rt_modules r) ?k")
    case None
    with modules_ok_unloaded_key [OF mods None] show ?thesis by (simp add: scopeDisconnected_def)
  next
    case (Some m)
    obtain m' log' where c: "disconnectContextForScope s (m, rt_log r) = (m', log')"
      by (cases "disconnectContextForScope s (m, rt_log r)")
    have m: "module_log_ok (m, rt_log r)" "set (m_connected m) = ?S ?k"
      using mods Some by (simp_all add: modules_ok_def)
    with held have "s \<in> set (m_connected m)" by (simp add: registered_iff)
    note spec = disconnectContext_spec [OF m(1) this c]
    then have "same_elsewhere (m_id m) (rt_log r) log'" by (simp add: same_elsewhere_def)
    from modules_ok_step [OF mods Some spec(2,3,1) this] show ?thesis
      by (simp add: scopeDisconnected_def Some c spec(4) m(2) fun_upd_def)
  qed
  with ok show ?thesis
    by (simp add: router_ok_def values_for_key_del_fun mm_rel_del mm_wf_del)
qed

lemma values_for_key_distinct: "router_ok r \<Longrightarrow> distinct (mm_values_for_key (rt_scopes r) k)"
  by (auto simp: router_ok_def mm_values_for_key_def split: option.splits dest: mm_wf_lookup)

lemma unload_effect:
  assumes ok: "router_ok r"
  shows "router_ok (unloadIdentifier ident r)"
    and "rt_scopes (unloadIdentifier ident r) = rt_scopes r"
    and "map_get (rt_modules (unloadIdentifier ident r)) = (map_get (rt_modules r))(ident := None)"
proof -
  let ?S = "\<lambda>k. set (mm_values_for_key (rt_scopes r) k)"
  have mods: "modules_ok ?S (map_get (rt_modules r)) (rt_next r) (rt_log r)"
    using ok by (simp add: router_ok_def)
  have "router_ok (unloadIdentifier ident r) \<and> rt_scopes (unloadIdentifier ident r) = rt_scopes r \<and>
    map_get (rt_modules (unloadIdentifier ident r)) = (map_get (rt_modules r))(ident := None)"
  proof (cases "map_get (rt_modules r) ident")
    case None
    with ok show ?thesis by (simp add: unloadIdentifier_def fun_upd_idem)
  next
    case (Some m)
    let ?ss = "mm_values_for_key (rt_scopes r) ident"
    have m: "module_log_ok (m, rt_log r)" "m_identifier m = ident" "set (m_connected m) = set ?ss"
      using mods Some by (auto simp: modules_ok_def)
    obtain m' log' where c: "fold disconnectContextForScope ?ss (m, rt_log r) = (m', log')"
      by (cases "fold disconnectContextForScope ?ss (m, rt_log r)")
    note spec = fold_disconnect_spec [OF m(1) values_for_key_distinct [OF ok] equalityD2 [OF m(3)] c]
    have "modules_ok ?S ((map_get (rt_modules r))(ident := None)) (rt_next r) log'"
      by (rule modules_ok_unload [OF mods Some, of m']) (use spec m in \<open>simp_all add: same_elsewhere_def\<close>)
    with ok show ?thesis
      by (simp add: unloadIdentifier_def disconnectModule_def Some m(2) c router_ok_def fun_upd_def)
  qed
  then show "router_ok (unloadIdentifier ident r)" "rt_scopes (unloadIdentifier ident r) = rt_scopes r"
    "map_get (rt_modules (unloadIdentifier ident r)) = (map_get (rt_modules r))(ident := None)"
    by blast+
qed

lemma load_effect:
  assumes "router_ok r"
  shows "router_ok (loadDefinition ident r)"
    and "rt_scopes (loadDefinition ident r) = rt_scopes r"
    and "map_get (rt_modules (loadDefinition ident r)) k \<noteq> None \<longleftrightarrow>
      k = ident \<or> map_get (rt_modules r) k \<noteq> None"
proof -
  define r1 where "r1 = unloadIdentifier ident r"
  note u = unload_effect [OF assms, of ident, folded r1_def]
  let ?S = "\<lambda>k. set (mm_values_for_key (rt_scopes r1) k)"
  let ?ss = "mm_values_for_key (rt_scopes r1) ident"
  have mods: "modules_ok ?S (map_get (rt_modules r1)) (rt_next r1) (rt_log r1)"
    and none: "map_get (rt_modules r1) ident = None"
    using u(1,3) by (simp_all add: router_ok_def)
  let ?m = "new_module (rt_next r1) ident"
  obtain m' log' where c: "fold connectContextForScope ?ss (?m, rt_log r1) = (m', log')"
    by (cases "fold connectContextForScope ?ss (?m, rt_log r1)")
  have "set ?ss \<inter> set (m_connected ?m) = {}" by (simp add: new_module_def)
  note spec = fold_connect_spec [OF modules_ok_new_module [OF mods] values_for_key_distinct [OF u(1)] this c]
  have eq: "loadDefinition ident r =
      r1\<lparr>rt_modules := map_set ident m' (rt_modules r1), rt_next := Suc (rt_next r1), rt_log := log'\<rparr>"
    using c by (simp add: loadDefinition_def connectModule_def r1_def [symmetric] Let_def)
      (simp add: new_module_def)
  have "modules_ok ?S ((map_get (rt_modules r1))(ident \<mapsto> m')) (Suc (rt_next r1)) log'"
    by (rule modules_ok_load [OF mods none])
      (use spec in \<open>simp_all add: same_elsewhere_def new_module_def\<close>)
  then show "router_ok (loadDefinition ident r)"
    using u(1) by (simp add: router_ok_def eq fun_upd_def)
  show "rt_scopes (loadDefinition ident r) = rt_scopes r" by (simp add: eq u(2))
  show "map_get (rt_modules (loadDefinition ident r)) k \<noteq> None \<longleftrightarrow>
      k = ident \<or> map_get (rt_modules r) k \<noteq> None"
    using u(3) by (simp add: eq)
qed

section \<open>ScopeObserver is a lawful value delegate\<close>

definition token_scope :: "token \<Rightarrow> scope" where
  "token_scope t = \<lparr>sc_element = t_element t, sc_identifier = t_content t\<rparr>"

definition module_loaded :: "router \<Rightarrow> jsstr \<Rightarrow> bool" where
  "module_loaded r ident \<longleftrightarrow> map_has (rt_modules r) ident"

definition so_inv :: "jsstr set \<Rightarrow> scope_core \<Rightarrow> bool" where
  "so_inv K c \<longleftrightarrow> router_ok (so_router c) \<and> (\<forall>k. module_loaded (so_router c) k \<longleftrightarrow> k \<in> K) \<and>
     (\<forall>s. registered (so_router c) s \<longleftrightarrow> 0 < reference_count c s) \<and>
     (\<forall>e m i s. map_get (so_scopes c) e = Some m \<longrightarrow> map_get m i = Some s \<longrightarrow>
        s = \<lparr>sc_element = e, sc_identifier = i\<rparr>)"

lemma registered_connected: "registered (scopeConnected s r) s' \<longleftrightarrow> s' = s \<or> registered r s'"
  by (auto simp: registered_def mm_rel_add)

lemma registered_disconnected: "registered (scopeDisconnected s r) s' \<longleftrightarrow> s' \<noteq> s \<and> registered r s'"
  by (auto simp: registered_def mm_rel_del)

lemma loaded_scopeConnected [simp]:
  "module_loaded (scopeConnected s r) k = module_loaded r k"
  by (auto simp: module_loaded_def scopeConnected_def Let_def split: option.splits prod.splits)

lemma loaded_scopeDisconnected [simp]:
  "module_loaded (scopeDisconnected s r) k = module_loaded r k"
  by (auto simp: module_loaded_def scopeDisconnected_def Let_def split: option.splits prod.splits)

lemma reference_count_matched:
  "reference_count (so_elementMatchedValue e s c) = (reference_count c)(s := Suc (reference_count c s))"
  by (auto simp: fun_eq_iff so_elementMatchedValue_def reference_count_def Let_def)

lemma reference_count_unmatched:
  "reference_count (so_elementUnmatchedValue e s c) = (reference_count c)(s := reference_count c s - 1)"
  by (cases "map_get (so_counts c) s")
     (auto simp: fun_eq_iff so_elementUnmatchedValue_def reference_count_def Let_def)

lemma so_inv_matched:
  assumes "so_inv K c"
  shows "so_inv K (so_elementMatchedValue e s c)"
proof -
  have r: "so_router (so_elementMatchedValue e s c) =
      (if reference_count c s = 0 then scopeConnected s (so_router c) else so_router c)"
    and "so_scopes (so_elementMatchedValue e s c) = so_scopes c"
    by (simp_all add: so_elementMatchedValue_def Let_def)
  then show ?thesis
    using assms
    by (auto simp: so_inv_def reference_count_matched registered_connected router_ok_scopeConnected)
qed

lemma so_inv_unmatched:
  assumes "so_inv K c"
  shows "so_inv K (so_elementUnmatchedValue e s c)"
proof -
  have r: "so_router (so_elementUnmatchedValue e s c) =
      (if reference_count c s = 1 then scopeDisconnected s (so_router c) else so_router c)"
    and "so_scopes (so_elementUnmatchedValue e s c) = so_scopes c"
    by (cases "map_get (so_counts c) s";
        simp add: so_elementUnmatchedValue_def reference_count_def Let_def)+
  then show ?thesis
    using assms
    by (auto simp: so_inv_def reference_count_unmatched registered_disconnected router_ok_scopeDisconnected)
qed

lemma so_parse_spec:
  assumes "so_inv K c" and "so_parseValueForToken t c = (r, c')"
  shows "r = Inr (Some (token_scope t))" and "so_inv K c'" and "so_counts c' = so_counts c"
proof -
  have cache: "s = \<lparr>sc_element = e, sc_identifier = i\<rparr>"
    if "map_get (so_scopes c) e = Some m" "map_get m i = Some s" for e m i s
    using assms(1) that unfolding so_inv_def by blast
  show "r = Inr (Some (token_scope t))"
    using assms(2) cache by (auto simp: so_parseValueForToken_def fetchScopesByIdentifierForElement_def
        token_scope_def createScopeForElementAndIdentifier_def Let_def split: option.splits)
  show counts: "so_counts c' = so_counts c"
    using assms(2) by (auto simp: so_parseValueForToken_def fetchScopesByIdentifierForElement_def Let_def
        split: option.splits)
  have router: "so_router c' = so_router c"
    using assms(2) by (auto simp: so_parseValueForToken_def fetchScopesByIdentifierForElement_def Let_def
        split: option.splits)
  have "s = \<lparr>sc_element = e, sc_identifier = i\<rparr>"
    if "map_get (so_scopes c') e = Some m" "map_get m i = Some s" for e m i s
    using assms(2) that cache [of e _ i s]
    by (auto simp: so_parseValueForToken_def fetchScopesByIdentifierForElement_def
        createScopeForElementAndIdentifier_def Let_def split: option.splits if_splits)
  moreover have "reference_count c' = reference_count c"
    by (simp add: fun_eq_iff reference_count_def counts)
  ultimately show "so_inv K c'"
    using assms(1) router by (simp add: so_inv_def)
qed

interpretation so: value_delegate_laws scope_delegate "\<lambda>t. Some (token_scope t)" reference_count True "so_inv K" for K
proof
  note defs = scope_delegate_def
  show "(case fst (parseValueForToken scope_delegate t d) of Inr v \<Rightarrow> v | Inl _ \<Rightarrow> None) = Some (token_scope t)"
    "so_inv K (snd (parseValueForToken scope_delegate t d))"
    "reference_count (snd (parseValueForToken scope_delegate t d)) = reference_count d"
    if "so_inv K d" for d t
  proof -
    obtain r c' where p: "so_parseValueForToken t d = (r, c')" by (cases "so_parseValueForToken t d")
    with so_parse_spec [OF that p]
    show "(case fst (parseValueForToken scope_delegate t d) of Inr v \<Rightarrow> v | Inl _ \<Rightarrow> None) = Some (token_scope t)"
      "so_inv K (snd (parseValueForToken scope_delegate t d))"
      "reference_count (snd (parseValueForToken scope_delegate t d)) = reference_count d"
      by (simp_all add: defs fun_eq_iff reference_count_def)
  qed
qed (auto simp: scope_delegate_def so_inv_matched so_inv_unmatched reference_count_matched
       reference_count_unmatched)

section \<open>The application\<close>

abbreviation app_ok :: "jsstr set \<Rightarrow> application \<Rightarrow> bool" where
  "app_ok \<equiv> so.tokens.attribute.eo_ok"

lemma app_ok_update_router:
  assumes ok: "app_ok K app" and r': "router_ok (f (app_router app))"
    and "\<And>s. registered (f (app_router app)) s = registered (app_router app) s"
    and "\<And>k. module_loaded (f (app_router app)) k \<longleftrightarrow> k \<in> K'"
  shows "app_ok K' (update_router f app)"
proof -
  let ?c = "tower_delegate app"
  have "so_inv K' (?c\<lparr>so_router := f (so_router ?c)\<rparr>)"
    using so.eo_ok_delegate [OF ok] assms(2-4) by (simp add: so_inv_def app_router_def reference_count_def)
  with ok show ?thesis
    by (simp add: so.tokens.attribute.eo_ok_def update_router_def update_delegate_def tower_delegate_def
          so.tokens.tower_ok_def so.tokens.tlo_ok_def tokens_wf_def live_tokens_def so.counted_def
          so.parsed_ok_def reference_count_def Let_def)
qed

lemma app_router_ok: "app_ok K app \<Longrightarrow> router_ok (app_router app)"
  and app_loaded: "app_ok K app \<Longrightarrow> module_loaded (app_router app) k \<longleftrightarrow> k \<in> K"
  using so.eo_ok_delegate [of K app] by (auto simp: so_inv_def app_router_def)

fun loaded_step :: "application_call \<Rightarrow> jsstr set \<Rightarrow> jsstr set" where
  "loaded_step (Load i) K = insert i K"
| "loaded_step (Unload i) K = K - {i}"
| "loaded_step (Observe c) K = K"

lemma app_call_ok: "app_ok K app \<Longrightarrow> app_ok (loaded_step call K) (app_call call app)"
proof (cases call)
  case (Load i)
  assume ok: "app_ok K app"
  note r = app_router_ok [OF ok]
  show ?thesis
    unfolding Load app_call.simps loaded_step.simps
    using app_loaded [OF ok] load_effect [OF r, of i]
    by (intro app_ok_update_router [OF ok]) (auto simp: registered_def module_loaded_def)
next
  case (Unload i)
  assume ok: "app_ok K app"
  note r = app_router_ok [OF ok]
  show ?thesis
    unfolding Unload app_call.simps loaded_step.simps
    using app_loaded [OF ok] unload_effect [OF r, of i]
    by (intro app_ok_update_router [OF ok]) (auto simp: registered_def module_loaded_def)
next
  case (Observe c)
  assume "app_ok K app"
  with Observe show ?thesis by (simp add: controller_delegate_def so.tokens.attribute.eo_call_ok)
qed

text \<open>The identifiers loaded and not unloaded since.\<close>

definition loaded_after :: "application_call list \<Rightarrow> jsstr set" where
  "loaded_after calls = fold loaded_step calls {}"

lemma app_run_ok: "app_ok (loaded_after calls) (app_run root calls)"
proof -
  have inv: "so_inv {} new_scope_core"
    using registered_new by (simp add: so_inv_def new_scope_core_def reference_count_def)
      (simp add: new_router_def module_loaded_def)
  have start: "app_ok {} (new_application root)"
    using so.tower_start_ok [OF inv, of root]
    by (simp add: so.tower_start_def new_application_def new_scope_core_def reference_count_def)
  have "app_ok (fold loaded_step calls K) (fold app_call calls app)" if "app_ok K app" for app K
    using that by (induction calls arbitrary: app K) (simp_all add: app_call_ok)
  with start show ?thesis by (simp add: app_run_def loaded_after_def)
qed

text \<open>What the application knows about the page: the scopes its controller tokens name.\<close>

definition page_scopes :: "application \<Rightarrow> scope set" where
  "page_scopes app =
     {token_scope t | t. t \<in> live_tokens (eo_delegate app) \<and> t_element t \<in> set (eo_elements app)}"

lemma registered_page:
  assumes "app_ok K app"
  shows "registered (app_router app) s \<longleftrightarrow> s \<in> page_scopes app"
proof -
  have "registered (app_router app) s \<longleftrightarrow> 0 < reference_count (tower_delegate app) s"
    using so.eo_ok_delegate [OF assms] by (simp add: so_inv_def app_router_def)
  also have "\<dots> \<longleftrightarrow> s \<in> page_scopes app"
    using so.count_pos [OF assms, of s] by (auto simp: page_scopes_def)
  finally show ?thesis .
qed

lemma scopes_of_key:
  assumes "app_ok K app"
  shows "set (mm_values_for_key (rt_scopes (app_router app)) k) = {s \<in> page_scopes app. sc_identifier s = k}"
  using registered_page [OF assms] app_router_ok [OF assms]
  by (auto simp: registered_iff router_ok_def mm_rel_def)

lemma loaded_module:
  assumes "app_ok K app" and "map_get (rt_modules (app_router app)) k = Some m"
  shows "set (m_connected m) = {s \<in> page_scopes app. sc_identifier s = k}"
    and "m_identifier m = k" and "module_log_ok (m, rt_log (app_router app))"
  using app_router_ok [OF assms(1)] assms(2) scopes_of_key [OF assms(1), of k]
  by (auto simp: router_ok_def modules_ok_def)

lemma unloaded_phase:
  assumes "app_ok K app" and "\<And>k m. map_get (rt_modules (app_router app)) k = Some m \<Longrightarrow> m_id m \<noteq> n"
  shows "phase_of n s (rt_log (app_router app)) \<in> {Some Absent, Some Created}"
  using app_router_ok [OF assms(1)] assms(2) unfolding router_ok_def modules_ok_def by blast

lemma phase_outcome:
  assumes ok: "app_ok K app"
  shows "phase_of n s (rt_log (app_router app)) \<noteq> None \<and>
    (phase_of n s (rt_log (app_router app)) = Some Connected \<longleftrightarrow>
       s \<in> page_scopes app \<and> map_option m_id (map_get (rt_modules (app_router app)) (sc_identifier s)) = Some n)"
proof (cases "\<exists>k m. map_get (rt_modules (app_router app)) k = Some m \<and> m_id m = n")
  case True
  let ?p = "phase_of n s (rt_log (app_router app))"
  obtain k m where m: "map_get (rt_modules (app_router app)) k = Some m" "m_id m = n" using True by blast
  note l = loaded_module [OF ok m(1)]
  have "?p = Some (module_phase m s)" using l(3) m(2) by (simp add: module_log_ok_def)
  moreover have "module_phase m s = Connected \<longleftrightarrow> s \<in> page_scopes app \<and> sc_identifier s = k"
    using l(1) by (auto simp: module_phase_def)
  moreover have "map_option m_id (map_get (rt_modules (app_router app)) k') = Some n \<longleftrightarrow> k' = k" for k'
    using m app_router_ok [OF ok] unfolding router_ok_def modules_ok_def by force
  ultimately show ?thesis by simp
next
  case False
  then have "phase_of n s (rt_log (app_router app)) \<in> {Some Absent, Some Created}"
    by (intro unloaded_phase [OF ok]) blast
  with False show ?thesis by auto
qed

section \<open>Properties\<close>

text \<open>
  Whatever modules are loaded, reloaded and unloaded and whatever the scope observer
  sees of the page, in any interleaving, the modules of the router are those loaded and not
  unloaded since, and the connected contexts of each are exactly the scopes named by the
  controller tokens the observer tracks: every element and identifier on the page once,
  however often the identifier is repeated.
\<close>

theorem connected_contexts_follow_page:
  "let app = app_run root calls; r = app_router app
   in (\<forall>ident. module_loaded r ident \<longleftrightarrow> ident \<in> loaded_after calls) \<and>
      (case map_get (rt_modules r) ident of
         None \<Rightarrow> True
       | Some m \<Rightarrow> m_identifier m = ident \<and>
           set (m_connected m) = {s \<in> page_scopes app. sc_identifier s = ident})"
proof -
  note ok = app_run_ok [of calls root]
  show ?thesis
    using app_loaded [OF ok] loaded_module [OF ok]
    by (cases "map_get (rt_modules (app_router (app_run root calls))) ident") (auto simp: Let_def)
qed

text \<open>
  C10. Life cycle. In every run, and for every module and scope, the context's callbacks are
  legal: \<open>initialize\<close> runs at most once and before anything else, \<open>connect\<close> and \<open>disconnect\<close>
  alternate starting with \<open>connect\<close>, and the context is left connected exactly when its
  module is still loaded and its scope is still on the page. So unloading or replacing a
  module, or removing an element, leaves no context behind.
\<close>

theorem context_lifecycle_legal:
  "let app = app_run root calls; r = app_router app; p = phase_of n s (rt_log r)
   in p \<noteq> None \<and>
      (p = Some Connected \<longleftrightarrow>
         s \<in> page_scopes app \<and> map_option m_id (map_get (rt_modules r) (sc_identifier s)) = Some n)"
  unfolding Let_def by (rule phase_outcome [OF app_run_ok])

text \<open>
  \<open>getContextForElementAndIdentifier\<close> finds a context exactly when the module is loaded and
  the element carries the identifier, and then it is that module's context for that element.
\<close>

theorem getContext_outcome:
  "let app = app_run root calls
   in getContextForElementAndIdentifier (app_router app) e ident =
      (case map_get (rt_modules (app_router app)) ident of
         None \<Rightarrow> None
       | Some m \<Rightarrow>
           if \<lparr>sc_element = e, sc_identifier = ident\<rparr> \<in> page_scopes app
           then Some (m_id m, \<lparr>sc_element = e, sc_identifier = ident\<rparr>) else None)"
proof (cases "map_get (rt_modules (app_router (app_run root calls))) ident")
  case None
  then show ?thesis by (simp add: getContextForElementAndIdentifier_def Let_def)
next
  case (Some m)
  note l = loaded_module [OF app_run_ok Some]
  let ?s = "\<lparr>sc_element = e, sc_identifier = ident\<rparr>"
  have only: "s = ?s" if "s \<in> set (m_connected m)" "sc_element s = e" for s
    using that(2) that(1) [unfolded l(1)] by (auto intro!: scope.equality)
  have mem: "?s \<in> set (m_connected m) \<longleftrightarrow> ?s \<in> page_scopes (app_run root calls)"
    using l(1) by auto
  have "find (\<lambda>s. sc_element s = e) (m_connected m) =
      (if ?s \<in> set (m_connected m) then Some ?s else None)"
  proof (cases "find (\<lambda>s. sc_element s = e) (m_connected m)")
    case None
    then show ?thesis by (fastforce simp: find_None_iff)
  next
    case (Some s)
    then have "s \<in> set (m_connected m)" "sc_element s = e" by (auto simp: find_Some_iff)
    with only [of s] Some show ?thesis by simp
  qed
  then show ?thesis
    using Some mem by (simp add: getContextForElementAndIdentifier_def Let_def)
qed

end
