(* ===== verification/Stimulus_Sync.thy ===== *)
theory Stimulus_Sync
  imports Stimulus_Router
begin

text \<open>
  The observers keep up with the document. The browser delivers mutation records in batches,
  and the observers read the document as it is when a batch arrives, not as it was when a
  record was made. This theory states what the records of a batch have to cover
  (\<open>batch_covers\<close>, the promise of MutationObserver) and shows that the observer tower then
  mirrors the document after every batch; for the application it follows that the connected
  controllers are those that the document names, at any moment after the start.
\<close>

section \<open>What the records of a batch cover\<close>

definition listed :: "jsstr \<Rightarrow> nat \<Rightarrow> dom \<Rightarrow> nat \<Rightarrow> bool" where
  "listed name root dm e \<longleftrightarrow> e \<in> set (subtree dm root) \<and> getAttr dm e name \<noteq> None"

text \<open>The containment test of the observer agrees with the tree.\<close>

definition dom_ok :: "nat \<Rightarrow> dom \<Rightarrow> bool" where
  "dom_ok root dm \<longleftrightarrow> (\<forall>e. contained dm e \<longleftrightarrow> e \<in> set (subtree dm root))"

fun changes :: "jsstr \<Rightarrow> nat \<Rightarrow> mutation \<Rightarrow> bool" where
  "changes name e (AttributeMutation x n) = (x = e \<and> n = name)"
| "changes name e (ChildListMutation removed added) = False"

definition in_nodes :: "jsstr \<Rightarrow> dom \<Rightarrow> nat \<Rightarrow> nat list \<Rightarrow> bool" where
  "in_nodes name dm e ns \<longleftrightarrow> getAttr dm e name \<noteq> None \<and> list_ex (\<lambda>n. e \<in> set (subtree dm n)) ns"

definition element_nodes :: "node list \<Rightarrow> nat list" where
  "element_nodes ns = List.map_filter elementFromNode ns"

fun removes :: "jsstr \<Rightarrow> dom \<Rightarrow> nat \<Rightarrow> mutation \<Rightarrow> bool" where
  "removes name dm e (AttributeMutation x n) = False"
| "removes name dm e (ChildListMutation removed added) = in_nodes name dm e (element_nodes removed)"

fun adds :: "jsstr \<Rightarrow> dom \<Rightarrow> nat \<Rightarrow> mutation \<Rightarrow> bool" where
  "adds name dm e (AttributeMutation x n) = False"
| "adds name dm e (ChildListMutation removed added) =
     (contained dm e \<and> in_nodes name dm e (filter (contained dm) (element_nodes added)))"

text \<open>A record that takes an element out that is in the document is followed by one that puts it in.\<close>

fun settled_records :: "jsstr \<Rightarrow> dom \<Rightarrow> nat \<Rightarrow> mutation list \<Rightarrow> bool" where
  "settled_records name dm e [] = True"
| "settled_records name dm e (m # ms) =
     ((if removes name dm e m then adds name dm e m \<or> list_ex (\<lambda>m. adds name dm e m \<or> changes name e m) ms
       else True) \<and> settled_records name dm e ms)"

definition covers_element :: "jsstr \<Rightarrow> nat \<Rightarrow> dom \<Rightarrow> dom \<Rightarrow> mutation list \<Rightarrow> nat \<Rightarrow> bool" where
  "covers_element name root dm dm' ms e \<longleftrightarrow>
     (if listed name root dm' e
      then settled_records name dm' e ms \<and>
        (if listed name root dm e
         then getAttr dm e name = getAttr dm' e name \<or> list_ex (\<lambda>m. changes name e m \<or> removes name dm' e m) ms
         else list_ex (\<lambda>m. adds name dm' e m \<or> changes name e m) ms)
      else if listed name root dm e
      then list_ex (\<lambda>m. removes name dm' e m \<or> (changes name e m \<and> getAttr dm' e name = None)) ms
      else True)"

definition batch_covers :: "jsstr \<Rightarrow> nat \<Rightarrow> dom \<Rightarrow> dom \<Rightarrow> mutation list \<Rightarrow> bool" where
  "batch_covers name root dm dm' ms \<longleftrightarrow>
     list_all (covers_element name root dm dm' ms) (subtree dm root @ subtree dm' root)"

lemma batch_covers_element: "batch_covers name root dm dm' ms \<Longrightarrow> covers_element name root dm dm' ms e"
proof (cases "e \<in> set (subtree dm root @ subtree dm' root)")
  case False
  then show ?thesis by (simp add: covers_element_def listed_def)
qed (simp add: batch_covers_def list_all_iff)

section \<open>One element under the operations\<close>

definition texts :: "nat \<Rightarrow> 'd token_list_observer element_observer \<Rightarrow> (nat \<times> jsstr) list" where
  "texts e ob = token_texts (mm_values_for_key (tlo_tokens (eo_delegate ob)) e)"

text \<open>If the element is tracked, its tokens are those of its attribute.\<close>

definition fresh :: "jsstr \<Rightarrow> dom \<Rightarrow> nat \<Rightarrow> 'd token_list_observer element_observer \<Rightarrow> bool" where
  "fresh name dm e ob \<longleftrightarrow>
     (if e \<in> set (eo_elements ob) then texts e ob = enumerate 0 (attribute_words name dm e) else True)"

definition mirrors :: "jsstr \<Rightarrow> nat \<Rightarrow> dom \<Rightarrow> 'd token_list_observer element_observer \<Rightarrow> bool" where
  "mirrors name root dm ob \<longleftrightarrow>
     (\<forall>e. (e \<in> set (eo_elements ob) \<longleftrightarrow> listed name root dm e) \<and> fresh name dm e ob)"

context token_delegate_laws
begin

abbreviation (input) tracking :: "jsstr \<Rightarrow> 'd token_list_observer element_delegate" where
  "tracking name \<equiv> attribute_observer T name"

lemma add_view:
  assumes "attribute.eo_ok ob"
  shows "e \<in> set (eo_elements (addElement (tracking name) dm x ob)) \<longleftrightarrow>
      e \<in> set (eo_elements ob) \<or> (e = x \<and> contained dm x)"
    and "fresh name dm e ob \<Longrightarrow> fresh name dm e (addElement (tracking name) dm x ob)"
proof -
  have ok: "tower_ok (set (eo_elements ob)) (eo_delegate ob)"
    using assms by (simp add: attribute.eo_ok_def)
  show "e \<in> set (eo_elements (addElement (tracking name) dm x ob)) \<longleftrightarrow>
      e \<in> set (eo_elements ob) \<or> (e = x \<and> contained dm x)"
    by (auto simp: addElement_def)
  show "fresh name dm e (addElement (tracking name) dm x ob)" if "fresh name dm e ob"
  proof (cases "x \<in> set (eo_elements ob) \<or> \<not> contained dm x")
    case False
    then have "mm_values_for_key (tlo_tokens (eo_delegate ob)) x = []"
      using tower_ok_elements [OF ok] by simp
    with ok tokens_after_match [of "eo_delegate ob" x name dm e] False that show ?thesis
      by (auto simp: fresh_def texts_def addElement_def attribute_observer_def tower_ok_def read_texts)
  qed (use that in \<open>auto simp: addElement_def\<close>)
qed

lemma remove_view:
  assumes "attribute.eo_ok ob"
  shows "e \<in> set (eo_elements (removeElement (tracking name) x ob)) \<longleftrightarrow> e \<in> set (eo_elements ob) \<and> e \<noteq> x"
    and "fresh name dm e ob \<or> e = x \<Longrightarrow> fresh name dm e (removeElement (tracking name) x ob)"
proof -
  have ok: "tlo_ok (eo_delegate ob)"
    using assms by (simp add: attribute.eo_ok_def tower_ok_def)
  show tracked: "e \<in> set (eo_elements (removeElement (tracking name) x ob)) \<longleftrightarrow>
      e \<in> set (eo_elements ob) \<and> e \<noteq> x"
    by (auto simp: removeElement_def)
  show "fresh name dm e ob \<or> e = x \<Longrightarrow> fresh name dm e (removeElement (tracking name) x ob)"
    using tokens_after_unmatch [OF ok, of x e] tracked
    by (auto simp: fresh_def texts_def removeElement_def attribute_observer_def)
qed

lemma change_view:
  assumes "attribute.eo_ok ob"
  shows "e \<in> set (eo_elements (processAttributeChange (tracking name) dm x n ob)) \<longleftrightarrow>
      (if x = e then getAttr dm e name \<noteq> None \<and> (e \<in> set (eo_elements ob) \<or> contained dm e)
       else e \<in> set (eo_elements ob))"
    and "fresh name dm e ob \<or> changes name e (AttributeMutation x n) \<Longrightarrow>
      fresh name dm e (processAttributeChange (tracking name) dm x n ob)"
proof -
  have match: "matchElement (tracking name) dm x \<longleftrightarrow> getAttr dm x name \<noteq> None"
    by (simp add: attribute_observer_def)
  have ok: "tlo_ok (eo_delegate ob)"
    using assms by (simp add: attribute.eo_ok_def tower_ok_def)
  show "e \<in> set (eo_elements (processAttributeChange (tracking name) dm x n ob)) \<longleftrightarrow>
      (if x = e then getAttr dm e name \<noteq> None \<and> (e \<in> set (eo_elements ob) \<or> contained dm e)
       else e \<in> set (eo_elements ob))"
    using add_view(1) [OF assms, of e name dm x] remove_view(1) [OF assms, of e name x]
    by (auto simp: processAttributeChange_def match)
  show "fresh name dm e (processAttributeChange (tracking name) dm x n ob)"
    if f: "fresh name dm e ob \<or> changes name e (AttributeMutation x n)"
  proof (cases "x \<in> set (eo_elements ob) \<and> getAttr dm x name \<noteq> None")
    case True
    note same = tokens_after_change [OF ok, of name dm x] tokens_after_change_other [OF ok, of e x name dm]
    from True f same show ?thesis
      by (cases "e = x"; cases "n = name")
        (auto simp: processAttributeChange_def match fresh_def texts_def attribute_observer_def
           token_texts_patched read_texts)
  next
    case False
    have out: "fresh name dm e ob" if "e \<notin> set (eo_elements ob)" using that by (simp add: fresh_def)
    from False f out add_view(2) [OF assms] remove_view(2) [OF assms] show ?thesis
      by (auto simp: processAttributeChange_def match)
  qed
qed

text \<open>Removing and adding whole subtrees.\<close>

lemma fold_remove_view:
  assumes "attribute.eo_ok ob"
  shows "attribute.eo_ok (fold (removeElement (tracking name)) xs ob)"
    and "e \<in> set (eo_elements (fold (removeElement (tracking name)) xs ob)) \<longleftrightarrow>
      e \<in> set (eo_elements ob) \<and> e \<notin> set xs"
    and "fresh name dm e ob \<or> e \<in> set xs \<Longrightarrow> fresh name dm e (fold (removeElement (tracking name)) xs ob)"
proof -
  show "attribute.eo_ok (fold (removeElement (tracking name)) xs ob)"
    using assms by (intro attribute.fold_ok attribute.removeElement_ok)
  show "e \<in> set (eo_elements (fold (removeElement (tracking name)) xs ob)) \<longleftrightarrow>
      e \<in> set (eo_elements ob) \<and> e \<notin> set xs"
    using assms by (induction xs arbitrary: ob) (auto simp: remove_view(1) attribute.removeElement_ok)
  show "fresh name dm e ob \<or> e \<in> set xs \<Longrightarrow> fresh name dm e (fold (removeElement (tracking name)) xs ob)"
    using assms
  proof (induction xs arbitrary: ob)
    case (Cons x xs)
    then have "attribute.eo_ok (removeElement (tracking name) x ob)"
      by (simp add: attribute.removeElement_ok)
    moreover have "fresh name dm e (removeElement (tracking name) x ob) \<or> e \<in> set xs"
      using Cons.prems remove_view(2) [OF Cons.prems(2), of name dm e x] by auto
    ultimately show ?case using Cons.IH by simp
  qed simp
qed

lemma fold_add_view:
  assumes "attribute.eo_ok ob"
  shows "attribute.eo_ok (fold (addElement (tracking name) dm) xs ob)"
    and "e \<in> set (eo_elements (fold (addElement (tracking name) dm) xs ob)) \<longleftrightarrow>
      e \<in> set (eo_elements ob) \<or> (e \<in> set xs \<and> contained dm e)"
    and "fresh name dm e ob \<Longrightarrow> fresh name dm e (fold (addElement (tracking name) dm) xs ob)"
proof -
  show "attribute.eo_ok (fold (addElement (tracking name) dm) xs ob)"
    using assms by (intro attribute.fold_ok attribute.addElement_ok)
  show "e \<in> set (eo_elements (fold (addElement (tracking name) dm) xs ob)) \<longleftrightarrow>
      e \<in> set (eo_elements ob) \<or> (e \<in> set xs \<and> contained dm e)"
    using assms by (induction xs arbitrary: ob) (auto simp: add_view(1) attribute.addElement_ok)
  show "fresh name dm e ob \<Longrightarrow> fresh name dm e (fold (addElement (tracking name) dm) xs ob)"
    using assms by (induction xs arbitrary: ob) (auto simp: add_view(2) attribute.addElement_ok)
qed

lemma removed_nodes_view:
  assumes "attribute.eo_ok ob"
  shows "attribute.eo_ok (processRemovedNodes (tracking name) dm ns ob)"
    and "e \<in> set (eo_elements (processRemovedNodes (tracking name) dm ns ob)) \<longleftrightarrow>
      e \<in> set (eo_elements ob) \<and> \<not> in_nodes name dm e (element_nodes ns)"
    and "fresh name dm e ob \<or> in_nodes name dm e (element_nodes ns) \<Longrightarrow>
      fresh name dm e (processRemovedNodes (tracking name) dm ns ob)"
proof -
  have tree: "e \<in> set (matchElementsInTree (tracking name) dm x) \<longleftrightarrow>
      e \<in> set (subtree dm x) \<and> getAttr dm e name \<noteq> None" for e x
    by (simp add: attribute_observer_def)
  show "attribute.eo_ok (processRemovedNodes (tracking name) dm ns ob)"
    using assms by (rule attribute.processRemovedNodes_ok)
  show "e \<in> set (eo_elements (processRemovedNodes (tracking name) dm ns ob)) \<longleftrightarrow>
      e \<in> set (eo_elements ob) \<and> \<not> in_nodes name dm e (element_nodes ns)"
    using assms
  proof (induction ns arbitrary: ob)
    case (Cons n ns)
    then show ?case
      by (cases n) (auto simp: fold_remove_view tree in_nodes_def element_nodes_def map_filter_simps)
  qed (simp add: in_nodes_def element_nodes_def map_filter_simps)
  show "fresh name dm e ob \<or> in_nodes name dm e (element_nodes ns) \<Longrightarrow>
      fresh name dm e (processRemovedNodes (tracking name) dm ns ob)"
    using assms
  proof (induction ns arbitrary: ob)
    case (Cons n ns)
    show ?case
    proof (cases n)
      case (ElementNode x)
      let ?xs = "matchElementsInTree (tracking name) dm x"
      note fold = fold_remove_view [OF Cons.prems(2), where name = name and xs = ?xs]
      have "fresh name dm e ob \<or> e \<in> set ?xs \<or> in_nodes name dm e (element_nodes ns)"
        using Cons.prems(1) tree by (auto simp: ElementNode in_nodes_def element_nodes_def map_filter_simps)
      then have "fresh name dm e (fold (removeElement (tracking name)) ?xs ob) \<or>
          in_nodes name dm e (element_nodes ns)"
        using fold(3) by blast
      from Cons.IH [OF this fold(1)] show ?thesis by (simp add: ElementNode)
    next
      case OtherNode
      with Cons show ?thesis by (simp add: in_nodes_def element_nodes_def map_filter_simps)
    qed
  qed (simp add: in_nodes_def element_nodes_def map_filter_simps)
qed

lemma added_nodes_view:
  assumes "attribute.eo_ok ob"
  shows "attribute.eo_ok (processAddedNodes (tracking name) dm ns ob)"
    and "e \<in> set (eo_elements (processAddedNodes (tracking name) dm ns ob)) \<longleftrightarrow>
      e \<in> set (eo_elements ob) \<or>
      (contained dm e \<and> in_nodes name dm e (filter (contained dm) (element_nodes ns)))"
    and "fresh name dm e ob \<Longrightarrow> fresh name dm e (processAddedNodes (tracking name) dm ns ob)"
proof -
  have tree: "e \<in> set (matchElementsInTree (tracking name) dm x) \<longleftrightarrow>
      e \<in> set (subtree dm x) \<and> getAttr dm e name \<noteq> None" for e x
    by (simp add: attribute_observer_def)
  show "attribute.eo_ok (processAddedNodes (tracking name) dm ns ob)"
    using assms by (rule attribute.processAddedNodes_ok)
  show "e \<in> set (eo_elements (processAddedNodes (tracking name) dm ns ob)) \<longleftrightarrow>
      e \<in> set (eo_elements ob) \<or>
      (contained dm e \<and> in_nodes name dm e (filter (contained dm) (element_nodes ns)))"
    using assms
  proof (induction ns arbitrary: ob)
    case (Cons n ns)
    then show ?case
      by (cases n) (auto simp: fold_add_view tree in_nodes_def element_nodes_def map_filter_simps)
  qed (simp add: in_nodes_def element_nodes_def map_filter_simps)
  show "fresh name dm e ob \<Longrightarrow> fresh name dm e (processAddedNodes (tracking name) dm ns ob)"
    using assms
  proof (induction ns arbitrary: ob)
    case (Cons n ns)
    then show ?case by (cases n) (simp_all add: fold_add_view)
  qed simp
qed

lemma mutation_view:
  assumes "attribute.eo_ok ob"
  shows "attribute.eo_ok (processMutation (tracking name) dm m ob)"
    and "e \<in> set (eo_elements (processMutation (tracking name) dm m ob)) \<longleftrightarrow>
      (case m of
         AttributeMutation x n \<Rightarrow>
           if x = e then getAttr dm e name \<noteq> None \<and> (e \<in> set (eo_elements ob) \<or> contained dm e)
           else e \<in> set (eo_elements ob)
       | ChildListMutation _ _ \<Rightarrow> adds name dm e m \<or> (e \<in> set (eo_elements ob) \<and> \<not> removes name dm e m))"
    and "fresh name dm e ob \<or> changes name e m \<or> removes name dm e m \<Longrightarrow>
      fresh name dm e (processMutation (tracking name) dm m ob)"
proof -
  show "attribute.eo_ok (processMutation (tracking name) dm m ob)"
    using assms by (rule attribute.processMutation_ok)
  show "e \<in> set (eo_elements (processMutation (tracking name) dm m ob)) \<longleftrightarrow>
      (case m of
         AttributeMutation x n \<Rightarrow>
           if x = e then getAttr dm e name \<noteq> None \<and> (e \<in> set (eo_elements ob) \<or> contained dm e)
           else e \<in> set (eo_elements ob)
       | ChildListMutation _ _ \<Rightarrow> adds name dm e m \<or> (e \<in> set (eo_elements ob) \<and> \<not> removes name dm e m))"
  proof (cases m)
    case (AttributeMutation x n)
    then show ?thesis by (simp add: change_view(1) [OF assms])
  next
    case (ChildListMutation removed added)
    then show ?thesis
      using removed_nodes_view(1,2) [OF assms] by (simp add: added_nodes_view(2)) blast
  qed
  show "fresh name dm e (processMutation (tracking name) dm m ob)"
    if "fresh name dm e ob \<or> changes name e m \<or> removes name dm e m"
  proof (cases m)
    case (AttributeMutation x n)
    with that change_view(2) [OF assms, of name dm e x n] show ?thesis by simp
  next
    case (ChildListMutation removed added)
    with that have "fresh name dm e (processRemovedNodes (tracking name) dm removed ob)"
      by (intro removed_nodes_view(3) [OF assms]) simp
    then show ?thesis
      using ChildListMutation added_nodes_view(3) [OF removed_nodes_view(1) [OF assms]] by simp
  qed
qed

section \<open>One batch\<close>

lemma batch_ok: "attribute.eo_ok ob \<Longrightarrow> attribute.eo_ok (fold (processMutation (tracking name) dm) ms ob)"
  by (intro attribute.fold_ok attribute.processMutation_ok)

lemma batch_tracked:
  assumes "attribute.eo_ok ob" and "contained dm e" and "getAttr dm e name \<noteq> None"
    and "settled_records name dm e ms"
    and "e \<in> set (eo_elements ob) \<or> list_ex (\<lambda>m. adds name dm e m \<or> changes name e m) ms"
  shows "e \<in> set (eo_elements (fold (processMutation (tracking name) dm) ms ob))"
  using assms(1,4,5)
proof (induction ms arbitrary: ob)
  case (Cons m ms)
  define ob' where "ob' = processMutation (tracking name) dm m ob"
  note view = mutation_view [OF Cons.prems(1), where name = name and dm = dm and m = m, folded ob'_def]
  have "e \<in> set (eo_elements ob') \<or> list_ex (\<lambda>m. adds name dm e m \<or> changes name e m) ms"
    using Cons.prems(2,3) assms(2,3) by (cases m) (auto simp: view(2) split: if_splits)
  with Cons.IH [OF view(1)] Cons.prems(2) show ?case by (simp add: ob'_def)
qed simp

lemma batch_untracked:
  assumes "attribute.eo_ok ob" and "\<not> (contained dm e \<and> getAttr dm e name \<noteq> None)"
    and "e \<notin> set (eo_elements ob) \<or>
      list_ex (\<lambda>m. removes name dm e m \<or> (changes name e m \<and> getAttr dm e name = None)) ms"
  shows "e \<notin> set (eo_elements (fold (processMutation (tracking name) dm) ms ob))"
  using assms(1,3)
proof (induction ms arbitrary: ob)
  case (Cons m ms)
  define ob' where "ob' = processMutation (tracking name) dm m ob"
  note view = mutation_view [OF Cons.prems(1), where name = name and dm = dm and m = m, folded ob'_def]
  have "e \<notin> set (eo_elements ob') \<or>
      list_ex (\<lambda>m. removes name dm e m \<or> (changes name e m \<and> getAttr dm e name = None)) ms"
    using Cons.prems(2) assms(2) by (cases m) (auto simp: view(2) in_nodes_def split: if_splits)
  with Cons.IH [OF view(1)] show ?case by (simp add: ob'_def)
qed simp

lemma batch_fresh:
  assumes "attribute.eo_ok ob"
    and "fresh name dm e ob \<or> list_ex (\<lambda>m. changes name e m \<or> removes name dm e m) ms"
  shows "fresh name dm e (fold (processMutation (tracking name) dm) ms ob)"
  using assms
proof (induction ms arbitrary: ob)
  case (Cons m ms)
  note view = mutation_view [OF Cons.prems(1), where name = name and dm = dm and m = m]
  have "fresh name dm e (processMutation (tracking name) dm m ob) \<or>
      list_ex (\<lambda>m. changes name e m \<or> removes name dm e m) ms"
    using Cons.prems(2) view(3) by auto
  with Cons.IH [OF view(1)] show ?case by simp
qed simp

lemma batch_mirrors:
  assumes "attribute.eo_ok ob" and "eo_started ob" and "mirrors name root dm ob"
    and "dom_ok root dm'" and "batch_covers name root dm dm' ms"
  shows "mirrors name root dm' (processMutations (tracking name) dm' ms ob)"
  unfolding mirrors_def
proof
  fix e
  let ?ob = "fold (processMutation (tracking name) dm') ms ob"
  have ob: "processMutations (tracking name) dm' ms ob = ?ob"
    using assms(2) by (simp add: processMutations_def)
  have was: "e \<in> set (eo_elements ob) \<longleftrightarrow> listed name root dm e" and f: "fresh name dm e ob"
    using assms(3) by (simp_all add: mirrors_def)
  have now: "listed name root dm' e \<longleftrightarrow> contained dm' e \<and> getAttr dm' e name \<noteq> None"
    using assms(4) by (simp add: listed_def dom_ok_def)
  note cov = batch_covers_element [OF assms(5), of e]
  show "(e \<in> set (eo_elements (processMutations (tracking name) dm' ms ob)) \<longleftrightarrow> listed name root dm' e) \<and>
      fresh name dm' e (processMutations (tracking name) dm' ms ob)"
  proof (cases "listed name root dm' e")
    case True
    then have s: "settled_records name dm' e ms"
      and c: "if listed name root dm e
         then getAttr dm e name = getAttr dm' e name \<or> list_ex (\<lambda>m. changes name e m \<or> removes name dm' e m) ms
         else list_ex (\<lambda>m. adds name dm' e m \<or> changes name e m) ms"
      using cov by (simp_all add: covers_element_def)
    have "e \<in> set (eo_elements ?ob)"
      using batch_tracked [OF assms(1) _ _ s] True now was c by (auto split: if_splits)
    moreover have "fresh name dm' e ob \<or> list_ex (\<lambda>m. changes name e m \<or> removes name dm' e m) ms"
      using was f c by (auto simp: fresh_def attribute_words_def split: if_splits)
    then have "fresh name dm' e ?ob" by (rule batch_fresh [OF assms(1)])
    ultimately show ?thesis using True ob by simp
  next
    case False
    then have "e \<notin> set (eo_elements ob) \<or>
        list_ex (\<lambda>m. removes name dm' e m \<or> (changes name e m \<and> getAttr dm' e name = None)) ms"
      using cov was by (auto simp: covers_element_def split: if_splits)
    then have "e \<notin> set (eo_elements ?ob)"
      using batch_untracked [OF assms(1)] False now by simp
    then show ?thesis using False ob by (simp add: fresh_def)
  qed
qed

text \<open>A first start reads the whole tree.\<close>

lemma start_mirrors:
  assumes "attribute.eo_ok ob" and "\<not> eo_started ob" and "eo_elements ob = []" and "dom_ok (eo_root ob) dm"
  shows "mirrors name (eo_root ob) dm (eo_start (tracking name) dm ob)"
proof -
  let ?ob = "ob\<lparr>eo_started := True\<rparr>"
  let ?matches = "fold set_add (matchElementsInTree (tracking name) dm (eo_root ob)) []"
  have ok: "attribute.eo_ok ?ob" using assms(1) by (simp add: attribute.eo_ok_started)
  have start: "eo_start (tracking name) dm ob = fold (addElement (tracking name) dm) ?matches ?ob"
    using assms(2,3) by (simp add: eo_start_def eo_refresh_def Let_def)
  have "set (fold set_add xs ys) = set xs \<union> set ys" for xs ys :: "nat list"
    by (induction xs arbitrary: ys) auto
  then have m: "e \<in> set ?matches \<longleftrightarrow> listed name (eo_root ob) dm e" for e
    by (auto simp: listed_def attribute_observer_def)
  have "fresh name dm e ?ob" for e using assms(3) by (simp add: fresh_def)
  then show ?thesis
    unfolding mirrors_def start
    using fold_add_view [OF ok, where name = name and dm = dm and xs = ?matches] m assms(3,4)
    by (auto simp: dom_ok_def listed_def)
qed

end

section \<open>The application\<close>

abbreviation controller_attribute :: jsstr where
  "controller_attribute \<equiv> ''data-controller''"

text \<open>
  Calls behind the start: modules come and go, and each batch of records covers the
  changes since the document of the batch before.
\<close>

fun follows :: "nat \<Rightarrow> dom \<Rightarrow> application_call list \<Rightarrow> bool" where
  "follows root dm [] = True"
| "follows root dm (Load i # cs) = follows root dm cs"
| "follows root dm (Unload i # cs) = follows root dm cs"
| "follows root dm (Observe (Mutations dm' ms) # cs) =
     (dom_ok root dm' \<and> batch_covers controller_attribute root dm dm' ms \<and> follows root dm' cs)"
| "follows root dm (Observe c # cs) = False"

fun last_document :: "dom \<Rightarrow> application_call list \<Rightarrow> dom" where
  "last_document dm [] = dm"
| "last_document dm (Observe (Mutations dm' ms) # cs) = last_document dm' cs"
| "last_document dm (c # cs) = last_document dm cs"

text \<open>Before the start, changes of the document go unnoticed.\<close>

fun registers :: "application_call \<Rightarrow> bool" where
  "registers (Observe (Mutations dm ms)) = True"
| "registers (Observe c) = False"
| "registers _ = True"

lemma update_router_view:
  "eo_elements (update_router f app) = eo_elements app" "eo_root (update_router f app) = eo_root app"
  "eo_started (update_router f app) = eo_started app"
  "mirrors name root dm (update_router f app) = mirrors name root dm app"
  by (simp_all add: update_router_def update_delegate_def Let_def mirrors_def fresh_def texts_def)

lemma registers_view:
  "list_all registers cs \<Longrightarrow> \<not> eo_started app \<Longrightarrow> eo_elements (fold app_call cs app) = eo_elements app \<and>
   eo_root (fold app_call cs app) = eo_root app \<and> \<not> eo_started (fold app_call cs app)"
proof (induction cs arbitrary: app)
  case (Cons c cs)
  have "eo_elements (app_call c app) = eo_elements app \<and> eo_root (app_call c app) = eo_root app \<and>
      eo_started (app_call c app) = eo_started app"
    using Cons.prems by (cases c rule: registers.cases) (simp_all add: update_router_view processMutations_def)
  with Cons.IH [of "app_call c app"] Cons.prems show ?case by simp
qed simp

lemma processMutations_started: "eo_started (processMutations D dm ms ob) = eo_started ob"
proof -
  have add: "eo_started (addElement D dm x ob) = eo_started ob" for D :: "'a element_delegate" and dm x ob
    by (simp add: addElement_def)
  have rem: "eo_started (removeElement D x ob) = eo_started ob" for D :: "'a element_delegate" and dm x ob
    by (simp add: removeElement_def)
  have fold_add: "eo_started (fold (addElement D dm) xs ob) = eo_started ob" for D :: "'a element_delegate" and dm xs ob
    by (induction xs arbitrary: ob) (simp_all add: add)
  have fold_rem: "eo_started (fold (removeElement D) xs ob) = eo_started ob" for D :: "'a element_delegate" and dm xs ob
    by (induction xs arbitrary: ob) (simp_all add: rem)
  have removed: "eo_started (processRemovedNodes D dm ns ob) = eo_started ob" for D :: "'a element_delegate" and dm ns ob
    by (induction D dm ns ob rule: processRemovedNodes.induct) (auto simp: fold_rem split: option.splits)
  have added: "eo_started (processAddedNodes D dm ns ob) = eo_started ob" for D :: "'a element_delegate" and dm ns ob
    by (induction D dm ns ob rule: processAddedNodes.induct) (auto simp: fold_add split: option.splits)
  have one: "eo_started (processMutation D dm m ob) = eo_started ob" for m ob
    by (cases m) (simp_all add: removed added processAttributeChange_def add rem)
  have "eo_started (fold (processMutation D dm) ms ob) = eo_started ob" for ob
    by (induction ms arbitrary: ob) (simp_all add: one)
  then show ?thesis by (simp add: processMutations_def)
qed

lemma follows_mirrors:
  assumes "app_ok K app" and "eo_started app" and "mirrors controller_attribute root dm app"
    and "follows root dm cs"
  shows "mirrors controller_attribute root (last_document dm cs) (fold app_call cs app)"
  using assms
proof (induction root dm cs arbitrary: app K rule: follows.induct)
  case (2 root dm i cs)
  from app_call_ok [OF "2.prems"(1), of "Load i"] "2.prems" show ?case
    by (simp add: "2.IH" update_router_view)
next
  case (3 root dm i cs)
  from app_call_ok [OF "3.prems"(1), of "Unload i"] "3.prems" show ?case
    by (simp add: "3.IH" update_router_view)
next
  case (4 root dm dm' ms cs)
  let ?app = "app_call (Observe (Mutations dm' ms)) app"
  have "app_ok K ?app" using app_call_ok [OF "4.prems"(1), of "Observe (Mutations dm' ms)"] by simp
  moreover have "eo_started ?app" using "4.prems"(2) by (simp add: processMutations_started)
  moreover have "mirrors controller_attribute root dm' ?app"
    using "4.prems"(4) so.tokens.batch_mirrors [OF "4.prems"(1-3)]
    by (simp add: controller_delegate_def)
  ultimately show ?case using "4.IH" "4.prems"(4) by simp
qed simp_all

lemma mirrored_scopes:
  assumes "app_ok K app" and "mirrors controller_attribute root dm app"
  shows "page_scopes app = {\<lparr>sc_element = e, sc_identifier = i\<rparr> | e i.
    e \<in> set (subtree dm root) \<and> i \<in> set (attribute_words controller_attribute dm e)}"
proof -
  have wf: "tokens_wf (eo_delegate app)"
    using assms(1) by (simp add: so.tokens.attribute.eo_ok_def so.tokens.tower_ok_def so.tokens.tlo_ok_def)
  define tokens where "tokens e = mm_values_for_key (tlo_tokens (eo_delegate app)) e" for e
  have content: "t_content ` set (tokens e) = set (attribute_words controller_attribute dm e)"
    if "listed controller_attribute root dm e" for e
  proof -
    have "e \<in> set (eo_elements app)" and "fresh controller_attribute dm e app"
      using assms(2) that by (simp_all add: mirrors_def)
    then have "token_texts (tokens e) = enumerate 0 (attribute_words controller_attribute dm e)"
      by (simp add: fresh_def texts_def tokens_def)
    then have "map snd (token_texts (tokens e)) = attribute_words controller_attribute dm e" by simp
    then have "map t_content (tokens e) = attribute_words controller_attribute dm e"
      by (simp add: token_texts_def comp_def)
    then show ?thesis by (metis set_map)
  qed
  have unlisted: "listed controller_attribute root dm e"
    if "e \<in> set (subtree dm root)" "i \<in> set (attribute_words controller_attribute dm e)" for e i
    using that by (auto simp: listed_def attribute_words_def words_def trim_def split_ws_free split: option.splits)
  have live: "t \<in> live_tokens (eo_delegate app) \<longleftrightarrow> t \<in> set (tokens (t_element t))" for t
    using live_tokens_element [OF wf] by (simp add: tokens_def)
  have el: "t_element t = e" if "t \<in> set (tokens e)" for t e
    using tokens_wf_element [OF wf] that by (simp add: tokens_def)
  have scopes: "page_scopes app =
      {token_scope t | t. t \<in> set (tokens (t_element t)) \<and> listed controller_attribute root dm (t_element t)}"
    using assms(2) by (simp add: page_scopes_def live mirrors_def)
  have "s \<in> page_scopes app \<longleftrightarrow> listed controller_attribute root dm (sc_element s) \<and>
      sc_identifier s \<in> t_content ` set (tokens (sc_element s))" for s
  proof
    assume "s \<in> page_scopes app"
    then show "listed controller_attribute root dm (sc_element s) \<and>
        sc_identifier s \<in> t_content ` set (tokens (sc_element s))"
      unfolding scopes by (auto simp: token_scope_def)
  next
    assume a: "listed controller_attribute root dm (sc_element s) \<and>
        sc_identifier s \<in> t_content ` set (tokens (sc_element s))"
    then obtain t where t: "t \<in> set (tokens (sc_element s))" "sc_identifier s = t_content t" by auto
    then have s: "s = token_scope t" using el [OF t(1)] by (simp add: token_scope_def)
    have "t \<in> set (tokens (t_element t)) \<and> listed controller_attribute root dm (t_element t)"
      using a t(1) el [OF t(1)] by simp
    then show "s \<in> page_scopes app" unfolding scopes s by blast
  qed
  then have iff: "s \<in> page_scopes app \<longleftrightarrow> sc_element s \<in> set (subtree dm root) \<and>
      sc_identifier s \<in> set (attribute_words controller_attribute dm (sc_element s))" for s
    using content unlisted by (auto simp: listed_def)
  show ?thesis
  proof (rule set_eqI)
    show "s \<in> page_scopes app \<longleftrightarrow> s \<in> {\<lparr>sc_element = e, sc_identifier = i\<rparr> | e i.
        e \<in> set (subtree dm root) \<and> i \<in> set (attribute_words controller_attribute dm e)}" for s
      unfolding iff by (cases s) auto
  qed
qed

lemma start_follows_mirrors:
  assumes "list_all registers before" and "dom_ok root dm" and "follows root dm after"
  shows "mirrors controller_attribute root (last_document dm after)
    (app_run root (before @ Observe (Start dm) # after))"
proof -
  define app where "app = fold app_call before (new_application root)"
  have ok: "app_ok (loaded_after before) app"
    using app_run_ok [of before root] by (simp add: app_def app_run_def)
  have view: "eo_elements app = []" "eo_root app = root" "\<not> eo_started app"
    using registers_view [OF assms(1), of "new_application root"]
    by (simp_all add: app_def new_application_def new_element_observer_def)
  let ?start = "app_call (Observe (Start dm)) app"
  have ok1: "app_ok (loaded_after before) ?start"
    using app_call_ok [OF ok, of "Observe (Start dm)"] by simp
  have "mirrors controller_attribute root dm ?start"
    using so.tokens.start_mirrors [OF ok, of dm controller_attribute] view assms(2)
    by (simp add: controller_delegate_def)
  moreover have "eo_started ?start"
  proof -
    have fold_add: "eo_started (fold (addElement D dm) xs ob) = eo_started ob"
      for D :: "'x element_delegate" and xs ob
      by (induction xs arbitrary: ob) (simp_all add: addElement_def)
    show ?thesis using view by (simp add: eo_start_def eo_refresh_def Let_def fold_add)
  qed
  ultimately show ?thesis
    using follows_mirrors [OF ok1 _ _ assms(3)] by (simp add: app_run_def app_def)
qed

text \<open>An application that mirrors a document has the contexts that the document names.\<close>

lemma connected_in_document:
  assumes mirrors: "mirrors controller_attribute root dm (app_run root calls)"
  shows "case map_get (rt_modules (app_router (app_run root calls))) ident of
      None \<Rightarrow> ident \<notin> loaded_after calls
    | Some m \<Rightarrow> ident \<in> loaded_after calls \<and>
        set (m_connected m) = {\<lparr>sc_element = e, sc_identifier = ident\<rparr> | e.
          e \<in> set (subtree dm root) \<and> ident \<in> set (attribute_words controller_attribute dm e)}"
proof -
  have ok: "app_ok (loaded_after calls) (app_run root calls)" by (rule app_run_ok)
  have "ident \<in> loaded_after calls \<longleftrightarrow> map_get (rt_modules (app_router (app_run root calls))) ident \<noteq> None"
    using app_loaded [OF ok, of ident] by (simp add: module_loaded_def)
  then show ?thesis
    using loaded_module(1) [OF ok] mirrored_scopes [OF ok mirrors] by (auto split: option.splits)
qed

section \<open>Properties\<close>

text \<open>
  C5. The controllers are those the document names. Modules are registered in any number
  before the application starts on a document and come and go afterwards, while the document
  changes and the browser reports the changes in batches that cover them: at the end the
  loaded modules are those registered and not unloaded since, and the connected contexts of
  each belong to exactly the elements of the current document whose controller attribute
  names it.
\<close>

theorem controllers_follow_document:
  assumes "list_all registers before" and "dom_ok root dm" and "follows root dm after"
  shows "let calls = before @ Observe (Start dm) # after; r = app_router (app_run root calls);
      now = last_document dm after
    in case map_get (rt_modules r) ident of
         None \<Rightarrow> ident \<notin> loaded_after calls
       | Some m \<Rightarrow> ident \<in> loaded_after calls \<and>
           set (m_connected m) = {\<lparr>sc_element = e, sc_identifier = ident\<rparr> | e.
             e \<in> set (subtree now root) \<and> ident \<in> set (attribute_words controller_attribute now e)}"
  unfolding Let_def by (rule connected_in_document [OF start_follows_mirrors [OF assms]])

lemma controllers_follow_document_witness:
  "let here = \<lparr>getAttr = (\<lambda>e n. if e = 7 \<and> n = ''data-controller'' then Some ''flash'' else None),
       contained = (\<lambda>e. e = 1 \<or> e = 7), subtree = (\<lambda>e. if e = 1 then [1, 7] else [e])\<rparr>;
     later = here\<lparr>getAttr := (\<lambda>e n. if e = 7 \<and> n = ''data-controller'' then Some ''page flash'' else None)\<rparr>;
     calls = [Load ''flash'', Observe (Start here), Load ''page'',
       Observe (Mutations later [AttributeMutation 7 ''data-controller'']), Unload ''flash''];
     r = app_router (app_run 1 calls)
   in map_get (rt_modules r) ''flash'' = None \<and>
      (case map_get (rt_modules r) ''page'' of None \<Rightarrow> False
       | Some m \<Rightarrow> set (m_connected m) = {\<lparr>sc_element = 7, sc_identifier = ''page''\<rparr>})"
proof -
  define here where "here = \<lparr>getAttr = (\<lambda>e n. if e = 7 \<and> n = ''data-controller'' then Some ''flash'' else None),
    contained = (\<lambda>e::nat. e = 1 \<or> e = 7), subtree = (\<lambda>e. if e = 1 then [1, 7] else [e])\<rparr>"
  define later where "later = here\<lparr>getAttr :=
    (\<lambda>e n. if e = 7 \<and> n = ''data-controller'' then Some ''page flash'' else None)\<rparr>"
  let ?after = "[Load ''page'', Observe (Mutations later [AttributeMutation 7 ''data-controller'']), Unload ''flash'']"
  have before: "list_all registers [Load ''flash'']" by simp
  have start: "dom_ok 1 here" and then_ok: "dom_ok 1 later" by (auto simp: dom_ok_def here_def later_def)
  have "batch_covers controller_attribute 1 here later [AttributeMutation 7 ''data-controller'']"
    by (auto simp: batch_covers_def covers_element_def listed_def here_def later_def)
  then have after: "follows 1 here ?after" using then_ok by simp
  note result = controllers_follow_document [OF before start after]
  let ?calls = "[Load ''flash''] @ Observe (Start here) # ?after"
  let ?modules = "rt_modules (app_router (app_run 1 ?calls))"
  have gone: "''flash'' \<notin> loaded_after ?calls" and there: "''page'' \<in> loaded_after ?calls"
    by (simp_all add: loaded_after_def)
  have words: "attribute_words controller_attribute later e = (if e = 7 then [''page'', ''flash''] else [])" for e
    by (cases "e = 7") (simp_all add: attribute_words_def later_def here_def, code_simp, code_simp)
  have "{\<lparr>sc_element = e, sc_identifier = ''page''\<rparr> | e. e \<in> set (subtree later 1) \<and>
      ''page'' \<in> set (attribute_words controller_attribute later e)} = {\<lparr>sc_element = 7, sc_identifier = ''page''\<rparr>}"
    by (auto simp: words) (simp_all add: later_def here_def)
  then have "case map_get ?modules ''page'' of None \<Rightarrow> False
      | Some m \<Rightarrow> set (m_connected m) = {\<lparr>sc_element = 7, sc_identifier = ''page''\<rparr>}"
    using result [where ident = "''page''"] there by (simp del: append_Cons append_Nil add: Let_def split: option.splits)
  moreover have "map_get ?modules ''flash'' = None"
    using result [where ident = "''flash''"] gone
    by (cases "map_get ?modules ''flash''") (simp_all del: append_Cons append_Nil add: Let_def)
  ultimately show ?thesis by (simp only: Let_def here_def later_def append_Cons append_Nil simp_thms)
qed

end
