(* ===== verification/Stimulus_Live.thy ===== *)
theory Stimulus_Live
  imports Stimulus_Binding Stimulus_Sync
begin

text \<open>
  The router, the contexts and the dispatcher of stimulus.js together. What the router does
  to a context is an event of its log; here each event is carried out: a new context gets
  a binding observer, \<open>connect\<close> starts it and \<open>disconnect\<close> stops it (\<open>Context.connect\<close> and
  \<open>Context.disconnect\<close>), and all of them share the dispatcher. After the router the running
  binding observers get the records of their own element; an observer that was created
  during the same callback gets none of them.
\<close>

section \<open>Contexts with their binding observers\<close>

text \<open>A context object is its module and scope; the bindings refer to it by a number.\<close>

type_synonym context_key = "nat \<times> scope"

record live =
  lv_app :: application
  lv_contexts :: "(context_key, nat \<times> binding_observer) jsmap"
  lv_dispatcher :: dispatcher

definition new_live :: "nat \<Rightarrow> live" where
  "new_live root = \<lparr>lv_app = new_application root, lv_contexts = [], lv_dispatcher = new_dispatcher\<rparr>"

text \<open>The observers share one dispatcher: it is handed to the observer at work.\<close>

abbreviation tower_with :: "dispatcher \<Rightarrow> binding_tower \<Rightarrow> binding_tower" where
  "tower_with d \<equiv> update_delegate (\<lambda>c. c\<lparr>bo_dispatcher := d\<rparr>)"

fun with_dispatcher :: "dispatcher \<Rightarrow> binding_observer \<Rightarrow> binding_observer" where
  "with_dispatcher d (Inl c) = Inl (c\<lparr>bo_dispatcher := d\<rparr>)"
| "with_dispatcher d (Inr tower) = Inr (tower_with d tower)"

fun observer_dispatcher :: "binding_observer \<Rightarrow> dispatcher" where
  "observer_dispatcher (Inl c) = bo_dispatcher c"
| "observer_dispatcher (Inr tower) = bo_dispatcher (tower_delegate tower)"

definition on_context :: "context_key \<Rightarrow> (binding_observer \<Rightarrow> binding_observer) \<Rightarrow> live \<Rightarrow> live" where
  "on_context key f lv =
     (case map_get (lv_contexts lv) key of
        None \<Rightarrow> lv
      | Some (i, ob) \<Rightarrow>
          let ob' = f (with_dispatcher (lv_dispatcher lv) ob)
          in lv\<lparr>lv_contexts := map_set key (i, ob') (lv_contexts lv),
                lv_dispatcher := observer_dispatcher ob'\<rparr>)"

text \<open>The document as an observer of the subtree of an element sees it.\<close>

definition context_view :: "dom \<Rightarrow> nat \<Rightarrow> dom" where
  "context_view dm e = dm\<lparr>contained := (\<lambda>x. x \<in> set (subtree dm e))\<rparr>"

abbreviation action_attribute :: jsstr where
  "action_attribute \<equiv> ''data-action''"

definition event_key :: "lifecycle \<Rightarrow> context_key" where
  "event_key ev = (lc_module ev, lc_scope ev)"

text \<open>What a context does with its binding observer: in its constructor, \<open>connect\<close> and \<open>disconnect\<close>.\<close>

definition context_created :: "context_key \<Rightarrow> live \<Rightarrow> live" where
  "context_created key lv =
     (let i = length (lv_contexts lv)
      in lv\<lparr>lv_contexts := map_set key
           (i, Inl (fresh_core i (sc_identifier (snd key)) (lv_dispatcher lv))) (lv_contexts lv)\<rparr>)"

definition context_connected :: "(nat \<Rightarrow> element) \<Rightarrow> dom \<Rightarrow> context_key \<Rightarrow> live \<Rightarrow> live" where
  "context_connected elem dm key =
     (let e = sc_element (snd key) in on_context key (bo_start elem action_attribute e (context_view dm e)))"

definition context_disconnected :: "context_key \<Rightarrow> live \<Rightarrow> live" where
  "context_disconnected key = on_context key bo_stop"

definition perform :: "(nat \<Rightarrow> element) \<Rightarrow> dom \<Rightarrow> lifecycle \<Rightarrow> live \<Rightarrow> live" where
  "perform elem dm ev =
     (case lc_kind ev of
        Initialize \<Rightarrow> context_created (event_key ev)
      | Connect \<Rightarrow> context_connected elem dm (event_key ev)
      | Disconnect \<Rightarrow> context_disconnected (event_key ev))"

lemmas perform_defs = perform_def context_created_def context_connected_def context_disconnected_def

text \<open>A call of the application, with what it does to contexts.\<close>

definition live_events :: "application_call \<Rightarrow> live \<Rightarrow> lifecycle list" where
  "live_events c lv =
     drop (length (rt_log (app_router (lv_app lv)))) (rt_log (app_router (app_call c (lv_app lv))))"

definition live_call :: "(nat \<Rightarrow> element) \<Rightarrow> dom \<Rightarrow> application_call \<Rightarrow> live \<Rightarrow> live" where
  "live_call elem dm c lv =
     fold (perform elem dm) (live_events c lv) (lv\<lparr>lv_app := app_call c (lv_app lv)\<rparr>)"

definition deliver ::
  "(nat \<Rightarrow> element) \<Rightarrow> dom \<Rightarrow> (nat \<Rightarrow> mutation list) \<Rightarrow> context_key \<Rightarrow> live \<Rightarrow> live" where
  "deliver elem dm records key =
     (let e = sc_element (snd key)
      in on_context key (bo_mutations elem action_attribute (context_view dm e) (records e)))"

datatype live_event =
    Register jsstr | Unregister jsstr | Begin dom
  | Batch dom "mutation list" "nat \<Rightarrow> mutation list"  \<comment> \<open>records of the root and of each element\<close>

fun live_step :: "(nat \<Rightarrow> element) \<Rightarrow> live_event \<Rightarrow> dom \<times> live \<Rightarrow> dom \<times> live" where
  "live_step elem (Register i) (dm, lv) = (dm, live_call elem dm (Load i) lv)"
| "live_step elem (Unregister i) (dm, lv) = (dm, live_call elem dm (Unload i) lv)"
| "live_step elem (Begin dm') (dm, lv) = (dm', live_call elem dm' (Observe (Start dm')) (lv\<lparr>lv_dispatcher := dp_start (lv_dispatcher lv)\<rparr>))"
| "live_step elem (Batch dm' ms records) (dm, lv) =
     (let c = Observe (Mutations dm' ms); restarted = event_key ` set (live_events c lv) in
      (dm', fold (deliver elem dm' records) (filter (\<lambda>key. key \<notin> restarted) (map_keys (lv_contexts lv)))
              (live_call elem dm' c lv)))"

section \<open>The log only grows\<close>

lemma fold_grows:
  assumes "\<And>x m log. \<exists>ys. snd (f x (m, log)) = log @ ys"
  shows "\<exists>ys. snd (fold f xs (m, log)) = log @ ys"
proof (induction xs arbitrary: m log)
  case (Cons x xs)
  obtain m1 log1 where one: "f x (m, log) = (m1, log1)" by fastforce
  with assms [of x m log] obtain ys where "log1 = log @ ys" by auto
  with Cons.IH [of m1 log1] one show ?case by auto
qed simp

lemma connect_grows: "\<exists>ys. snd (connectContextForScope s (m, log)) = log @ ys"
  by (simp add: connectContextForScope_def fetchContextForScope_def)

lemma disconnect_grows: "\<exists>ys. snd (disconnectContextForScope s (m, log)) = log @ ys"
  by (simp add: disconnectContextForScope_def)

lemma router_grows:
  "prefix (rt_log r) (rt_log (scopeConnected s r))" "prefix (rt_log r) (rt_log (scopeDisconnected s r))"
  "prefix (rt_log r) (rt_log (unloadIdentifier i r))" "prefix (rt_log r) (rt_log (loadDefinition i r))"
proof -
  have connect: "prefix log (snd (fold connectContextForScope ss (m, log)))" for ss m log
    using fold_grows [of connectContextForScope] connect_grows by (auto simp: prefix_def)
  have disconnect: "prefix log (snd (fold disconnectContextForScope ss (m, log)))" for ss m log
    using fold_grows [of disconnectContextForScope] disconnect_grows by (auto simp: prefix_def)
  show "prefix (rt_log r) (rt_log (scopeConnected s r))" "prefix (rt_log r) (rt_log (scopeDisconnected s r))"
    using connect [where ss = "[s]"] disconnect [where ss = "[s]"]
    by (auto simp: scopeConnected_def scopeDisconnected_def Let_def split: option.splits prod.splits)
      (metis snd_conv)+
  have unload: "prefix (rt_log r) (rt_log (unloadIdentifier i r))" for r
    using disconnect
    by (auto simp: unloadIdentifier_def disconnectModule_def Let_def split: option.splits prod.splits)
      (metis snd_conv)
  then show "prefix (rt_log r) (rt_log (unloadIdentifier i r))" .
  have "prefix (rt_log r) (rt_log (connectModule m r))" for m r
    using connect by (auto simp: connectModule_def Let_def split: prod.splits) (metis snd_conv)
  from this [where m = "new_module (rt_next (unloadIdentifier i r)) i"
      and r = "(unloadIdentifier i r)\<lparr>rt_next := Suc (rt_next (unloadIdentifier i r))\<rparr>"] unload [of r]
  show "prefix (rt_log r) (rt_log (loadDefinition i r))"
    by (auto simp: loadDefinition_def Let_def intro: prefix_order.trans)
qed

text \<open>A law of the delegate that its calls keep may join its invariant.\<close>

lemma value_delegate_laws_and:
  assumes laws: "value_delegate_laws V tv cnt sh ok"
    and parse: "\<And>t d. ok d \<Longrightarrow> P d \<Longrightarrow> P (snd (parseValueForToken V t d))"
    and matched: "\<And>e v d. ok d \<Longrightarrow> P d \<Longrightarrow> P (elementMatchedValue V e v d)"
    and unmatched: "\<And>e v d. ok d \<Longrightarrow> P d \<Longrightarrow> P (elementUnmatchedValue V e v d)"
  shows "value_delegate_laws V tv cnt sh (\<lambda>d. ok d \<and> P d)"
proof -
  show ?thesis
  proof (unfold_locales, goal_cases)
    case (1 d t)
    then show ?case using value_delegate_laws.parse_val [OF laws] by blast
  next
    case (2 d t)
    then show ?case using value_delegate_laws.parse_inv [OF laws] parse by blast
  next
    case (3 d t)
    then show ?case using value_delegate_laws.parse_count [OF laws] by blast
  next
    case (4 d t v)
    then show ?case using value_delegate_laws.matched_inv [OF laws] matched by blast
  next
    case (5 d t v)
    then show ?case using value_delegate_laws.matched_count [OF laws] by blast
  next
    case (6 d t v)
    then show ?case using value_delegate_laws.unmatched_inv [OF laws] unmatched by blast
  next
    case (7 d t v)
    then show ?case using value_delegate_laws.unmatched_count [OF laws] by blast
  next
    case (8 t v t')
    then show ?case using value_delegate_laws.distinct_values [OF laws] by blast
  qed
qed

interpretation sl: value_delegate_laws scope_delegate "\<lambda>t. Some (token_scope t)" reference_count True
    "\<lambda>c. so_inv K c \<and> prefix L (rt_log (so_router c))" for K L
proof (rule value_delegate_laws_and [OF so.value_delegate_laws_axioms])
  fix e v and c :: scope_core
  assume L: "prefix L (rt_log (so_router c))"
  show "prefix L (rt_log (so_router (elementMatchedValue scope_delegate e v c)))"
    using L router_grows(1) [of "so_router c"]
    by (auto simp: scope_delegate_def so_elementMatchedValue_def Let_def intro: prefix_order.trans)
  show "prefix L (rt_log (so_router (elementUnmatchedValue scope_delegate e v c)))"
    using L router_grows(2) [of "so_router c"]
    by (auto simp: scope_delegate_def so_elementUnmatchedValue_def Let_def split: option.splits
        intro: prefix_order.trans)
next
  fix t and c :: scope_core
  assume "prefix L (rt_log (so_router c))"
  then show "prefix L (rt_log (so_router (snd (parseValueForToken scope_delegate t c))))"
    by (auto simp: scope_delegate_def so_parseValueForToken_def fetchScopesByIdentifierForElement_def Let_def
        split: option.splits prod.splits)
qed

lemma sl_iff:
  "sl.tokens.attribute.eo_ok K L app \<longleftrightarrow> app_ok K app \<and> prefix L (rt_log (app_router app))"
  by (auto simp: sl.tokens.attribute.eo_ok_def so.tokens.attribute.eo_ok_def sl.tokens.tower_ok_def
      so.tokens.tower_ok_def sl.tokens.tlo_ok_def so.tokens.tlo_ok_def sl.counted_def so.counted_def
      sl.parsed_ok_def so.parsed_ok_def app_router_def tower_delegate_def)

lemma app_call_grows:
  assumes "app_ok K app"
  shows "prefix (rt_log (app_router app)) (rt_log (app_router (app_call c app)))"
proof (cases c)
  case (Observe ob)
  have "sl.tokens.attribute.eo_ok K (rt_log (app_router app)) app" using assms by (simp add: sl_iff)
  then have "sl.tokens.attribute.eo_ok K (rt_log (app_router app)) (app_call c app)"
    by (simp add: Observe controller_delegate_def sl.tokens.attribute.eo_call_ok)
  then show ?thesis by (simp add: sl_iff)
qed (simp_all add: router_grows update_router_def app_router_def tower_delegate_def update_delegate_def Let_def)

lemma live_events_log:
  assumes "app_ok K (lv_app lv)"
  shows "rt_log (app_router (app_call c (lv_app lv))) = rt_log (app_router (lv_app lv)) @ live_events c lv"
  using app_call_grows [OF assms, of c] by (auto simp: live_events_def prefix_def)

section \<open>Bindings of other contexts\<close>

definition others :: "nat \<Rightarrow> dispatcher \<Rightarrow> binding set" where
  "others i d = {b \<in> dp_bindings d. b_context b \<noteq> i}"

text \<open>What the work on one context leaves of the dispatcher.\<close>

definition outside :: "nat \<Rightarrow> dispatcher \<Rightarrow> binding set \<times> bool" where
  "outside i d = (others i d, dp_started d)"

lemma started_binding [simp]:
  "dp_started (dp_bindingConnected b d) = dp_started d" "dp_started (dp_bindingDisconnected b d) = dp_started d"
  by (simp_all add: dp_bindingConnected_def dp_bindingDisconnected_def)

interpretation bx: value_delegate_laws "binding_delegate elem" "token_action elem ident" bo_count False
    "\<lambda>c. bo_inv ctx ident c \<and> outside ctx (bo_dispatcher c) = B" for elem ident ctx B
proof (rule value_delegate_laws_and [OF bo.value_delegate_laws_axioms])
  fix e v and c :: binding_core
  assume inv: "bo_inv ctx ident c" and B: "outside ctx (bo_dispatcher c) = B"
  show "outside ctx (bo_dispatcher (elementMatchedValue (binding_delegate elem) e v c)) = B"
    using inv B by (auto simp: binding_delegate_def connectAction_eq outside_def others_def bo_inv_def dp_bindings_connect)
  have "b_context b = ctx" if "map_get (bo_bindings c) v = Some b" for b
    using inv that unfolding bo_inv_def by (metis action_binding_simps(1))
  then show "outside ctx (bo_dispatcher (elementUnmatchedValue (binding_delegate elem) e v c)) = B"
    using inv B by (auto simp: binding_delegate_def disconnectAction_def outside_def others_def bo_inv_def
        dp_bindings_disconnect split: option.splits)
next
  fix t and c :: binding_core
  assume "outside ctx (bo_dispatcher c) = B"
  then show "outside ctx (bo_dispatcher (snd (parseValueForToken (binding_delegate elem) t c))) = B"
    by (simp add: binding_delegate_def bo_parseValueForToken_def split: sum.splits)
qed

lemma bx_iff:
  "bx.tokens.attribute.eo_ok elem ident ctx B tower \<longleftrightarrow>
     bo.tokens.attribute.eo_ok elem ident ctx tower \<and> outside ctx (bo_dispatcher (tower_delegate tower)) = B"
  by (auto simp: bx.tokens.attribute.eo_ok_def bo.tokens.attribute.eo_ok_def bx.tokens.tower_ok_def
      bo.tokens.tower_ok_def bx.tokens.tlo_ok_def bo.tokens.tlo_ok_def bx.counted_def bo.counted_def
      bx.parsed_ok_def bo.parsed_ok_def tower_delegate_def)

section \<open>The invariant\<close>

lemma tower_with_simps [simp]:
  "tower_with d (tower_with d' t) = tower_with d t"
  "tower_delegate (tower_with d t) = (tower_delegate t)\<lparr>bo_dispatcher := d\<rparr>"
  "eo_started (tower_with d t) = eo_started t" "eo_root (tower_with d t) = eo_root t"
  "mirrors name root dm (tower_with d t) = mirrors name root dm t"
  by (simp_all add: update_delegate_def tower_delegate_def mirrors_def fresh_def texts_def Let_def)

lemma context_view_simps [simp]:
  "dom_ok e (context_view dm e)" "mirrors name e (context_view dm x) ob = mirrors name e dm ob"
  by (simp_all add: dom_ok_def context_view_def mirrors_def fresh_def listed_def attribute_words_def)

definition tower_live :: "(nat \<Rightarrow> element) \<Rightarrow> dom \<Rightarrow> dispatcher \<Rightarrow> scope \<Rightarrow> nat \<Rightarrow> binding_tower \<Rightarrow> bool" where
  "tower_live elem dm d s i t \<longleftrightarrow>
     bo.tokens.attribute.eo_ok elem (sc_identifier s) i (tower_with d t) \<and> eo_started t \<and>
     eo_root t = sc_element s \<and> mirrors action_attribute (sc_element s) dm t"

definition context_ok ::
  "(nat \<Rightarrow> element) \<Rightarrow> dom \<Rightarrow> dispatcher \<Rightarrow> scope \<Rightarrow> phase option \<Rightarrow> (nat \<times> binding_observer) option \<Rightarrow> bool" where
  "context_ok elem dm d s ph entry \<longleftrightarrow>
     (case ph of
        None \<Rightarrow> False
      | Some Absent \<Rightarrow> entry = None
      | Some Created \<Rightarrow>
          (\<exists>i d'. entry = Some (i, Inl (fresh_core i (sc_identifier s) d')) \<and> others i d = dp_bindings d)
      | Some Connected \<Rightarrow> (\<exists>i t. entry = Some (i, Inr t) \<and> tower_live elem dm d s i t))"

text \<open>\<open>docs\<close> says which document each connected context has seen.\<close>

definition live_inv :: "(nat \<Rightarrow> element) \<Rightarrow> bool \<Rightarrow> (context_key \<Rightarrow> dom) \<Rightarrow> lifecycle list \<Rightarrow> live \<Rightarrow> bool" where
  "live_inv elem st docs log lv \<longleftrightarrow>
     dp_wf (lv_dispatcher lv) \<and> dp_started (lv_dispatcher lv) = st \<and> distinct (map_keys (lv_contexts lv)) \<and>
     (\<forall>key i ob. map_get (lv_contexts lv) key = Some (i, ob) \<longrightarrow> i < length (lv_contexts lv)) \<and>
     (\<forall>key key' i ob ob'. map_get (lv_contexts lv) key = Some (i, ob) \<longrightarrow>
        map_get (lv_contexts lv) key' = Some (i, ob') \<longrightarrow> key = key') \<and>
     (\<forall>b \<in> dp_bindings (lv_dispatcher lv). \<exists>key ob. map_get (lv_contexts lv) key = Some (b_context b, ob)) \<and>
     (\<forall>n s. context_ok elem (docs (n, s)) (lv_dispatcher lv) s (phase_of n s log) (map_get (lv_contexts lv) (n, s)))"

lemma bo_inv_other:
  assumes "bo_inv i ident (c\<lparr>bo_dispatcher := d\<rparr>)" and "i \<noteq> j" and "dp_wf d'" and "others j d' = others j d"
  shows "bo_inv i ident (c\<lparr>bo_dispatcher := d'\<rparr>)"
proof -
  have "b \<in> dp_bindings d' \<longleftrightarrow> b \<in> dp_bindings d" if "b_context b = i" for b
    using assms(2,4) that by (auto simp: others_def set_eq_iff)
  then show ?thesis using assms(1,3) by (simp add: bo_inv_def)
qed

lemma tower_live_other:
  assumes live: "tower_live elem dm d s i t" and "i \<noteq> j" and "dp_wf d'" and "others j d' = others j d"
  shows "tower_live elem dm d' s i t"
proof -
  have ok: "bo.tokens.attribute.eo_ok elem (sc_identifier s) i (tower_with d t)"
    using live by (simp add: tower_live_def)
  have "bo_inv i (sc_identifier s) ((tower_delegate t)\<lparr>bo_dispatcher := d\<rparr>)"
    using bo.eo_ok_delegate [OF ok] by simp
  then have "bo_inv i (sc_identifier s) ((tower_delegate t)\<lparr>bo_dispatcher := d'\<rparr>)"
    by (rule bo_inv_other [OF _ assms(2-4)])
  then have "bo.tokens.attribute.eo_ok elem (sc_identifier s) i (tower_with d' (tower_with d t))"
    using bo.eo_ok_update_core [OF ok, of "\<lambda>c. c\<lparr>bo_dispatcher := d'\<rparr>"] by (simp add: bo_count_def fun_eq_iff)
  then show ?thesis using live by (simp add: tower_live_def)
qed

lemma context_ok_other:
  assumes "context_ok elem dm d s ph entry" and "\<And>i ob. entry = Some (i, ob) \<Longrightarrow> i \<noteq> j"
    and "dp_wf d'" and "others j d' = others j d"
  shows "context_ok elem dm d' s ph entry"
proof -
  have created: "others i d' = dp_bindings d'" if "others i d = dp_bindings d" "i \<noteq> j" for i
    using assms(4) that by (auto simp: others_def set_eq_iff)
  show ?thesis
    using assms(1,2) created tower_live_other [OF _ _ assms(3,4)]
    by (auto simp: context_ok_def split: option.splits phase.splits)
qed

lemma length_map_set: "map_get m k \<noteq> None \<Longrightarrow> length (map_set k v m) = length m"
  by (induction m) (auto split: if_splits)

text \<open>Work on one context leaves the others alone.\<close>

lemma on_context_inv:
  assumes lv: "live_inv elem st docs log lv" and entry: "map_get (lv_contexts lv) (n, s) = Some (i, ob)"
    and ob': "f (with_dispatcher (lv_dispatcher lv) ob) = ob'"
    and wf: "dp_wf (observer_dispatcher ob')"
    and outside: "outside i (observer_dispatcher ob') = outside i (lv_dispatcher lv)"
    and own: "context_ok elem dm (observer_dispatcher ob') s (phase_of n s log') (Some (i, ob'))"
    and log': "\<And>n' s'. (n', s') \<noteq> (n, s) \<Longrightarrow> phase_of n' s' log' = phase_of n' s' log"
  shows "live_inv elem st (docs((n, s) := dm)) log' (on_context (n, s) f lv)"
proof -
  let ?d = "observer_dispatcher ob'"
  let ?lv = "lv\<lparr>lv_contexts := map_set (n, s) (i, ob') (lv_contexts lv), lv_dispatcher := ?d\<rparr>"
  have same: "others i ?d = others i (lv_dispatcher lv)" and started: "dp_started ?d = dp_started (lv_dispatcher lv)"
    using outside by (simp_all add: outside_def)
  have eq: "on_context (n, s) f lv = ?lv" by (simp add: on_context_def entry ob' Let_def)
  have inv: "distinct (map_keys (lv_contexts lv))" "dp_started (lv_dispatcher lv) = st"
      "\<And>key i ob. map_get (lv_contexts lv) key = Some (i, ob) \<Longrightarrow> i < length (lv_contexts lv)"
      "\<And>key key' i ob ob'. map_get (lv_contexts lv) key = Some (i, ob) \<Longrightarrow>
         map_get (lv_contexts lv) key' = Some (i, ob') \<Longrightarrow> key = key'"
      "\<And>b. b \<in> dp_bindings (lv_dispatcher lv) \<Longrightarrow> \<exists>key ob. map_get (lv_contexts lv) key = Some (b_context b, ob)"
      "\<And>n s. context_ok elem (docs (n, s)) (lv_dispatcher lv) s (phase_of n s log) (map_get (lv_contexts lv) (n, s))"
    using lv unfolding live_inv_def by blast+
  have len: "length (map_set (n, s) (i, ob') (lv_contexts lv)) = length (lv_contexts lv)"
    by (rule length_map_set) (simp add: entry)
  show ?thesis
    unfolding eq live_inv_def
  proof (intro conjI allI impI ballI)
    show "dp_wf (lv_dispatcher ?lv)" using wf by simp
    show "dp_started (lv_dispatcher ?lv) = st" using started inv(2) by simp
    show "distinct (map_keys (lv_contexts ?lv))" using inv(1) by (simp add: distinct_map_set)
    show "i' < length (lv_contexts ?lv)" if "map_get (lv_contexts ?lv) key = Some (i', o')" for key i' o'
      using that entry inv(3) by (auto simp: len split: if_splits)
    show "key = key'" if "map_get (lv_contexts ?lv) key = Some (i', o1)"
      "map_get (lv_contexts ?lv) key' = Some (i', o2)" for key key' i' o1 o2
      using that entry inv(4) by (auto split: if_splits)
    show "\<exists>key ob. map_get (lv_contexts ?lv) key = Some (b_context b, ob)"
      if "b \<in> dp_bindings (lv_dispatcher ?lv)" for b
    proof (cases "b_context b = i")
      case False
      then have "b \<in> dp_bindings (lv_dispatcher lv)" using that same by (auto simp: others_def)
      with inv(5) obtain key ob where "map_get (lv_contexts lv) key = Some (b_context b, ob)" by blast
      moreover from this have "key \<noteq> (n, s)" using entry False by auto
      ultimately show ?thesis by (intro exI [of _ key] exI [of _ ob]) simp
    next
      case True
      then show ?thesis by (intro exI [of _ "(n, s)"] exI [of _ ob']) simp
    qed
    show "context_ok elem ((docs((n, s) := dm)) (n', s')) (lv_dispatcher ?lv) s' (phase_of n' s' log')
        (map_get (lv_contexts ?lv) (n', s'))" for n' s'
    proof (cases "(n', s') = (n, s)")
      case True
      then show ?thesis using own by simp
    next
      case False
      moreover have "i' \<noteq> i" if "map_get (lv_contexts lv) (n', s') = Some (i', o')" for i' o'
        using inv(4) [OF that, of "(n, s)"] entry False by auto
      ultimately show ?thesis
        using context_ok_other [OF inv(6) [of n' s'] _ wf same] log' [OF False] by auto
    qed
  qed
qed

section \<open>Carrying out the events\<close>

lemma tower_with_own [simp]: "tower_with (bo_dispatcher (tower_delegate t)) t = t"
  by (simp add: update_delegate_def tower_delegate_def Let_def)

lemma eo_call_view:
  "eo_root (eo_start D dm ob) = eo_root ob" "eo_started (eo_start D dm ob)"
  "eo_root (processMutations D dm ms ob) = eo_root ob" for D :: "'d element_delegate"
proof -
  have add: "eo_root (addElement D dm x ob) = eo_root ob" "eo_started (addElement D dm x ob) = eo_started ob" for x ob
    by (simp_all add: addElement_def)
  have rem: "eo_root (removeElement D x ob) = eo_root ob" "eo_started (removeElement D x ob) = eo_started ob" for x ob
    by (simp_all add: removeElement_def)
  have fold_add: "eo_root (fold (addElement D dm) xs ob) = eo_root ob"
    "eo_started (fold (addElement D dm) xs ob) = eo_started ob" for xs ob
    by (induction xs arbitrary: ob) (simp_all add: add)
  have fold_rem: "eo_root (fold (removeElement D) xs ob) = eo_root ob" for xs ob
    by (induction xs arbitrary: ob) (simp_all add: rem)
  have fold_drop: "eo_root (fold (\<lambda>x ob. if x \<in> M then ob else removeElement D x ob) xs ob) = eo_root ob"
    "eo_started (fold (\<lambda>x ob. if x \<in> M then ob else removeElement D x ob) xs ob) = eo_started ob" for M xs ob
    by (induction xs arbitrary: ob) (simp_all add: rem)
  show "eo_root (eo_start D dm ob) = eo_root ob" "eo_started (eo_start D dm ob)"
    by (simp_all add: eo_start_def eo_refresh_def Let_def fold_add fold_drop)
  have removed: "eo_root (processRemovedNodes D' dm' ns ob) = eo_root ob"
    if "D' = D" for D' :: "'d element_delegate" and dm' ns ob
    using that by (induction D' dm' ns ob rule: processRemovedNodes.induct) (auto simp: fold_rem split: option.splits)
  have added: "eo_root (processAddedNodes D' dm' ns ob) = eo_root ob"
    if "D' = D" "dm' = dm" for D' :: "'d element_delegate" and dm' ns ob
    using that by (induction D' dm' ns ob rule: processAddedNodes.induct) (auto simp: fold_add split: option.splits)
  have one: "eo_root (processMutation D dm m ob) = eo_root ob" for m ob
    by (cases m) (simp_all add: removed added processAttributeChange_def add rem)
  have "eo_root (fold (processMutation D dm) ms ob) = eo_root ob" for ob
    by (induction ms arbitrary: ob) (simp_all add: one)
  then show "eo_root (processMutations D dm ms ob) = eo_root ob" by (simp add: processMutations_def)
qed

lemma started_context:
  fixes elem :: "nat \<Rightarrow> element" and dm :: dom and s :: scope and i :: nat and d :: dispatcher
  assumes "others i d = dp_bindings d" and "dp_wf d"
  defines "t \<equiv> eo_start (action_delegate elem action_attribute) (context_view dm (sc_element s))
    (new_binding_tower (sc_element s) (fresh_core i (sc_identifier s) d))"
  shows "tower_live elem dm (bo_dispatcher (tower_delegate t)) s i t"
    and "dp_wf (bo_dispatcher (tower_delegate t))" and "outside i (bo_dispatcher (tower_delegate t)) = outside i d"
proof -
  let ?new = "new_binding_tower (sc_element s) (fresh_core i (sc_identifier s) d)"
  have "no_bindings_of i d" using assms(1,2) by (auto simp: no_bindings_of_def others_def)
  then have inv: "bo_inv i (sc_identifier s) (fresh_core i (sc_identifier s) d)" by (rule bo_inv_fresh)
  have new: "eo_root ?new = sc_element s" "\<not> eo_started ?new" "eo_elements ?new = []"
    by (simp_all add: new_binding_tower_def new_element_observer_def)
  have start: "bx.tokens.attribute.eo_ok elem (sc_identifier s) i (outside i d) ?new"
    unfolding tower_start_core [symmetric] bo.tower_start_def
    using bx.tower_start_ok [where d = "fresh_core i (sc_identifier s) d" and root = "sc_element s"] inv
    by (simp add: bx.tower_start_def bo_count_def fresh_core_def)
  have "bx.tokens.attribute.eo_ok elem (sc_identifier s) i (outside i d) t"
    using bx.tokens.attribute.eo_call_ok [OF start, where c = "Start (context_view dm (sc_element s))"]
    by (simp add: t_def action_delegate_def)
  then have ok: "bo.tokens.attribute.eo_ok elem (sc_identifier s) i t"
      and "outside i (bo_dispatcher (tower_delegate t)) = outside i d"
    by (simp_all add: bx_iff)
  then show "outside i (bo_dispatcher (tower_delegate t)) = outside i d"
      and "dp_wf (bo_dispatcher (tower_delegate t))"
    using bo.eo_ok_delegate [OF ok] by (simp_all add: bo_inv_def)
  have "mirrors action_attribute (sc_element s) (context_view dm (sc_element s)) t"
    using bx.tokens.start_mirrors [OF start, where dm = "context_view dm (sc_element s)"
        and name = action_attribute] new
    by (simp add: t_def action_delegate_def)
  with ok show "tower_live elem dm (bo_dispatcher (tower_delegate t)) s i t"
    by (simp add: tower_live_def t_def eo_call_view new)
qed

lemma stopped_context:
  fixes elem :: "nat \<Rightarrow> element" and dm :: dom and s :: scope and i :: nat and d :: dispatcher
  assumes live: "tower_live elem dm d s i t"
  defines "c \<equiv> disconnectAllActions (tower_delegate (eo_stop (tower_with d t)))"
  shows "c = fresh_core i (sc_identifier s) (bo_dispatcher c)" and "dp_wf (bo_dispatcher c)"
    and "outside i (bo_dispatcher c) = outside i d" and "others i (bo_dispatcher c) = dp_bindings (bo_dispatcher c)"
proof -
  have ok: "bo.tokens.attribute.eo_ok elem (sc_identifier s) i (tower_with d t)"
    using live by (simp add: tower_live_def)
  have core: "tower_delegate (eo_stop (tower_with d t)) = (tower_delegate t)\<lparr>bo_dispatcher := d\<rparr>"
    by (simp add: eo_stop_def tower_delegate_def update_delegate_def Let_def)
  have inv: "bo_inv i (sc_identifier s) ((tower_delegate t)\<lparr>bo_dispatcher := d\<rparr>)"
    using bo.eo_ok_delegate [OF ok] by simp
  note spec = disconnectAllActions_spec [OF inv, folded core, folded c_def]
  have "bo_bindings c = []" by (simp add: c_def disconnectAllActions_def Let_def)
  moreover have "bo_context c = i" "bo_identifier c = sc_identifier s" "dp_wf (bo_dispatcher c)"
    using spec(1) by (simp_all add: bo_inv_def)
  ultimately show "c = fresh_core i (sc_identifier s) (bo_dispatcher c)" and "dp_wf (bo_dispatcher c)"
    by (simp_all add: fresh_core_def)
  have "dp_started (bo_dispatcher (fold (\<lambda>b c. c\<lparr>bo_dispatcher := dp_bindingDisconnected b (bo_dispatcher c)\<rparr>) bs c0)) =
      dp_started (bo_dispatcher c0)" for bs and c0 :: binding_core
    by (induction bs arbitrary: c0) simp_all
  then have "dp_started (bo_dispatcher c) = dp_started d" by (simp add: c_def disconnectAllActions_def Let_def core)
  then show "outside i (bo_dispatcher c) = outside i d" "others i (bo_dispatcher c) = dp_bindings (bo_dispatcher c)"
    using spec(2) by (auto simp: outside_def others_def core)
qed

lemma live_invD:
  assumes "live_inv elem st docs log lv"
  shows "dp_wf (lv_dispatcher lv)" and "distinct (map_keys (lv_contexts lv))"
    and "map_get (lv_contexts lv) key = Some (i, ob) \<Longrightarrow> i < length (lv_contexts lv)"
    and "map_get (lv_contexts lv) key = Some (i, ob) \<Longrightarrow> map_get (lv_contexts lv) key' = Some (i, ob') \<Longrightarrow> key = key'"
    and "b \<in> dp_bindings (lv_dispatcher lv) \<Longrightarrow> \<exists>key ob. map_get (lv_contexts lv) key = Some (b_context b, ob)"
    and "context_ok elem (docs (n, s)) (lv_dispatcher lv) s (phase_of n s log) (map_get (lv_contexts lv) (n, s))"
  using assms unfolding live_inv_def by blast+

lemma initialize_inv:
  assumes lv: "live_inv elem st docs log lv" and absent: "map_get (lv_contexts lv) (n, s) = None"
    and log': "phase_of n s log' = Some Created"
      "\<And>n' s'. (n', s') \<noteq> (n, s) \<Longrightarrow> phase_of n' s' log' = phase_of n' s' log"
  shows "live_inv elem st (docs((n, s) := dm)) log'
    (lv\<lparr>lv_contexts := map_set (n, s)
       (length (lv_contexts lv), Inl (fresh_core (length (lv_contexts lv)) (sc_identifier s) (lv_dispatcher lv)))
       (lv_contexts lv)\<rparr>)"
proof -
  let ?i = "length (lv_contexts lv)"
  let ?ob = "Inl (fresh_core ?i (sc_identifier s) (lv_dispatcher lv)) :: binding_observer"
  note inv = live_invD [OF lv]
  have len: "length (map_set (n, s) (?i, ?ob) (lv_contexts lv)) = Suc ?i"
    using absent by (simp add: map_set_new)
  have fresh: "i \<noteq> ?i" if "map_get (lv_contexts lv) key = Some (i, ob)" for key i ob
    using inv(3) [OF that] by simp
  have "b_context b \<noteq> ?i" if "b \<in> dp_bindings (lv_dispatcher lv)" for b
    using inv(5) [OF that] fresh by blast
  then have own: "others ?i (lv_dispatcher lv) = dp_bindings (lv_dispatcher lv)" by (auto simp: others_def)
  show ?thesis
    unfolding live_inv_def
  proof (intro conjI allI impI ballI)
    let ?lv = "lv\<lparr>lv_contexts := map_set (n, s) (?i, ?ob) (lv_contexts lv)\<rparr>"
    show "dp_wf (lv_dispatcher ?lv)" "dp_started (lv_dispatcher ?lv) = st" using inv(1) lv by (simp_all add: live_inv_def)
    show "distinct (map_keys (lv_contexts ?lv))" using inv(2) by (simp add: distinct_map_set)
    show "i' < length (lv_contexts ?lv)" if "map_get (lv_contexts ?lv) key = Some (i', o')" for key i' o'
      using that inv(3) by (auto simp: len less_Suc_eq split: if_splits)
    show "key = key'" if "map_get (lv_contexts ?lv) key = Some (i', o1)"
      "map_get (lv_contexts ?lv) key' = Some (i', o2)" for key key' i' o1 o2
    proof -
      have new: "key'' = (n, s) \<longleftrightarrow> i'' = ?i" if "map_get (lv_contexts ?lv) key'' = Some (i'', o'')" for key'' i'' o''
        using that fresh [of key'' i'' o''] by (simp split: if_splits)
      show ?thesis
      proof (cases "key = (n, s)")
        case True
        then show ?thesis using new [OF that(1)] new [OF that(2)] by blast
      next
        case False
        then have "key' \<noteq> (n, s)" using new [OF that(1)] new [OF that(2)] by blast
        with False that show ?thesis by (intro inv(4)) simp_all
      qed
    qed
    show "\<exists>key ob. map_get (lv_contexts ?lv) key = Some (b_context b, ob)"
      if "b \<in> dp_bindings (lv_dispatcher ?lv)" for b
    proof -
      have "b \<in> dp_bindings (lv_dispatcher lv)" using that by simp
      then obtain key ob where k: "map_get (lv_contexts lv) key = Some (b_context b, ob)"
        using inv(5) by blast
      with absent have "key \<noteq> (n, s)" by auto
      with k show ?thesis by (intro exI [of _ key] exI [of _ ob]) simp
    qed
    show "context_ok elem ((docs((n, s) := dm)) (n', s')) (lv_dispatcher ?lv) s' (phase_of n' s' log')
        (map_get (lv_contexts ?lv) (n', s'))" for n' s'
    proof (cases "(n', s') = (n, s)")
      case True
      then show ?thesis using own log'(1) by (auto simp: context_ok_def)
    next
      case False
      then show ?thesis using inv(6) [of n' s'] log'(2) [OF False] by auto
    qed
  qed
qed

lemma perform_inv:
  assumes lv: "live_inv elem st docs log lv"
    and legal: "phase_of (lc_module ev) (lc_scope ev) (log @ [ev]) \<noteq> None"
  shows "live_inv elem st (docs(event_key ev := dm)) (log @ [ev]) (perform elem dm ev lv)"
proof -
  define n s where "n = lc_module ev" and "s = lc_scope ev"
  then have key: "event_key ev = (n, s)" by (simp add: event_key_def)
  note inv = live_invD [OF lv]
  have elsewhere: "phase_of n' s' (log @ [ev]) = phase_of n' s' log" if "(n', s') \<noteq> (n, s)" for n' s'
    using that by (auto simp: n_def s_def)
  have phase: "phase_of n s (log @ [ev]) = Option.bind (phase_of n s log) (phase_step (lc_kind ev))"
    by (simp add: n_def s_def)
  obtain ph where ph: "phase_of n s log = Some ph"
    using legal phase by (cases "phase_of n s log") (auto simp: n_def s_def)
  have step: "phase_step (lc_kind ev) ph \<noteq> None" using legal phase ph by (auto simp: n_def s_def)
  have now: "context_ok elem (docs (n, s)) (lv_dispatcher lv) s (Some ph) (map_get (lv_contexts lv) (n, s))"
    using inv(6) [of n s] ph by simp
  show ?thesis
  proof (cases "lc_kind ev")
    case Initialize
    with step have "ph = Absent" by (cases ph) simp_all
    with now phase ph Initialize have "map_get (lv_contexts lv) (n, s) = None"
        "phase_of n s (log @ [ev]) = Some Created"
      by (simp_all add: context_ok_def)
    from initialize_inv [OF lv this elsewhere, of dm] show ?thesis
      by (simp add: perform_defs key Initialize s_def [symmetric] Let_def)
  next
    case Connect
    with step have "ph = Created" by (cases ph) simp_all
    with now obtain i d' where entry: "map_get (lv_contexts lv) (n, s) = Some (i, Inl (fresh_core i (sc_identifier s) d'))"
        and own: "others i (lv_dispatcher lv) = dp_bindings (lv_dispatcher lv)"
      by (auto simp: context_ok_def)
    have connected: "phase_of n s (log @ [ev]) = Some Connected"
      using phase ph Connect \<open>ph = Created\<close> by simp
    let ?t = "eo_start (action_delegate elem action_attribute) (context_view dm (sc_element s))
      (new_binding_tower (sc_element s) (fresh_core i (sc_identifier s) (lv_dispatcher lv)))"
    note started = started_context [OF own inv(1), of elem dm s]
    have f: "bo_start elem action_attribute (sc_element s) (context_view dm (sc_element s))
        (with_dispatcher (lv_dispatcher lv) (Inl (fresh_core i (sc_identifier s) d'))) = Inr ?t"
      by (simp add: fresh_core_def)
    have "context_ok elem dm (observer_dispatcher (Inr ?t)) s (phase_of n s (log @ [ev])) (Some (i, Inr ?t))"
      using started(1) connected by (simp add: context_ok_def)
    from on_context_inv [where f = "bo_start elem action_attribute (sc_element s) (context_view dm (sc_element s))",
        OF lv entry f _ _ this elsewhere] started(2,3) show ?thesis
      by (simp add: perform_defs key Connect s_def [symmetric] Let_def)
  next
    case Disconnect
    with step have "ph = Connected" by (cases ph) simp_all
    with now obtain i t where entry: "map_get (lv_contexts lv) (n, s) = Some (i, Inr t)"
        and live: "tower_live elem (docs (n, s)) (lv_dispatcher lv) s i t"
      by (auto simp: context_ok_def)
    have created: "phase_of n s (log @ [ev]) = Some Created"
      using phase ph Disconnect \<open>ph = Connected\<close> by simp
    let ?c = "disconnectAllActions (tower_delegate (eo_stop (tower_with (lv_dispatcher lv) t)))"
    note stopped = stopped_context [OF live]
    have f: "bo_stop (with_dispatcher (lv_dispatcher lv) (Inr t)) = Inl ?c" by simp
    have "context_ok elem dm (observer_dispatcher (Inl ?c)) s (phase_of n s (log @ [ev])) (Some (i, Inl ?c))"
      using stopped(1,4) created by (auto simp: context_ok_def)
    from on_context_inv [where f = bo_stop, OF lv entry f _ _ this elsewhere] stopped(2,3) show ?thesis
      by (simp add: perform_defs key Disconnect s_def [symmetric] Let_def)
  qed
qed

section \<open>A call of the application\<close>

lemma phase_of_append_None: "phase_of n s log = None \<Longrightarrow> phase_of n s (log @ evs) = None"
  by (induction evs rule: rev_induct) (simp_all del: append_assoc add: append_assoc [symmetric])

lemma perform_all:
  assumes "live_inv elem st docs log lv" and "\<And>n s. phase_of n s (log @ evs) \<noteq> None"
  shows "live_inv elem st (\<lambda>key. if key \<in> event_key ` set evs then dm else docs key) (log @ evs)
    (fold (perform elem dm) evs lv)"
  using assms
proof (induction evs arbitrary: docs log lv)
  case (Cons ev evs)
  have "phase_of (lc_module ev) (lc_scope ev) (log @ [ev]) \<noteq> None"
    using Cons.prems(2) phase_of_append_None [where log = "log @ [ev]" and evs = evs]
    by (metis append.assoc append_Cons append_Nil)
  from Cons.IH [OF perform_inv [OF Cons.prems(1) this]] Cons.prems(2)
  have "live_inv elem st (\<lambda>key. if key \<in> event_key ` set evs then dm else (docs(event_key ev := dm)) key)
      (log @ ev # evs) (fold (perform elem dm) (ev # evs) lv)" by simp
  moreover have "(\<lambda>key. if key \<in> event_key ` set evs then dm else (docs(event_key ev := dm)) key) =
      (\<lambda>key. if key \<in> event_key ` set (ev # evs) then dm else docs key)" by auto
  ultimately show ?case by simp
qed simp

lemma perform_app: "lv_app (perform elem dm ev lv) = lv_app lv"
  by (simp add: perform_defs on_context_def Let_def split: lifecycle_kind.splits option.splits prod.splits)

lemma live_call_app: "lv_app (live_call elem dm c lv) = app_call c (lv_app lv)"
proof -
  have "lv_app (fold (perform elem dm) evs lv) = lv_app lv" for evs lv
    by (induction evs arbitrary: lv) (simp_all add: perform_app)
  then show ?thesis by (simp add: live_call_def)
qed

abbreviation log_of :: "live \<Rightarrow> lifecycle list" where
  "log_of lv \<equiv> rt_log (app_router (lv_app lv))"

lemma live_call_inv:
  assumes "app_ok K (lv_app lv)" and "live_inv elem st docs (log_of lv) lv"
  shows "live_inv elem st (\<lambda>key. if key \<in> event_key ` set (live_events c lv) then dm else docs key)
    (log_of (live_call elem dm c lv)) (live_call elem dm c lv)"
proof -
  have ok: "app_ok (loaded_step c K) (app_call c (lv_app lv))" by (rule app_call_ok [OF assms(1)])
  have log: "rt_log (app_router (app_call c (lv_app lv))) = log_of lv @ live_events c lv"
    by (rule live_events_log [OF assms(1)])
  have "phase_of n s (log_of lv @ live_events c lv) \<noteq> None" for n s
    using phase_outcome [OF ok, of n s] by (simp add: log)
  moreover have "live_inv elem st docs (log_of lv) (lv\<lparr>lv_app := app_call c (lv_app lv)\<rparr>)"
    using assms(2) by (simp add: live_inv_def del: map_of_eq_Some_iff)
  ultimately show ?thesis
    unfolding live_call_app using perform_all by (fastforce simp: live_call_def log)
qed

section \<open>Delivery of records\<close>

lemma deliver_inv:
  assumes lv: "live_inv elem st docs log lv"
    and covers: "phase_of n s log = Some Connected \<Longrightarrow>
      batch_covers action_attribute (sc_element s) (context_view (docs (n, s)) (sc_element s))
        (context_view dm (sc_element s)) (records (sc_element s))"
  shows "live_inv elem st (docs((n, s) := dm)) log (deliver elem dm records (n, s) lv)"
proof (cases "map_get (lv_contexts lv) (n, s)")
  case None
  then have "phase_of n s log = Some Absent"
    using live_invD(6) [OF lv, of n s] by (auto simp: context_ok_def split: option.splits phase.splits)
  then have "context_ok elem dm' d s (phase_of n s log) None" for dm' d by (simp add: context_ok_def)
  with lv None show ?thesis by (auto simp: deliver_def on_context_def live_inv_def Let_def)
next
  case (Some entry)
  obtain i ob where entry: "map_get (lv_contexts lv) (n, s) = Some (i, ob)" using Some by (cases entry) auto
  let ?f = "bo_mutations elem action_attribute (context_view dm (sc_element s)) (records (sc_element s))"
  note inv = live_invD [OF lv]
  have now: "context_ok elem (docs (n, s)) (lv_dispatcher lv) s (phase_of n s log) (Some (i, ob))"
    using inv(6) [of n s] entry by simp
  show ?thesis
  proof (cases ob)
    case (Inl c)
    then obtain d' where c: "phase_of n s log = Some Created" "c = fresh_core i (sc_identifier s) d'"
        "others i (lv_dispatcher lv) = dp_bindings (lv_dispatcher lv)"
      using now by (auto simp: context_ok_def split: option.splits phase.splits)
    have f: "?f (with_dispatcher (lv_dispatcher lv) ob) = Inl (c\<lparr>bo_dispatcher := lv_dispatcher lv\<rparr>)"
      by (simp add: Inl)
    have "c\<lparr>bo_dispatcher := lv_dispatcher lv\<rparr> = fresh_core i (sc_identifier s) (lv_dispatcher lv)"
        "bo_dispatcher (fresh_core i (sc_identifier s) (lv_dispatcher lv)) = lv_dispatcher lv"
      by (simp_all add: c(2) fresh_core_def)
    with c(1,3) have "context_ok elem dm (observer_dispatcher (Inl (c\<lparr>bo_dispatcher := lv_dispatcher lv\<rparr>))) s
        (phase_of n s log) (Some (i, Inl (c\<lparr>bo_dispatcher := lv_dispatcher lv\<rparr>)))"
      by (auto simp: context_ok_def)
    from on_context_inv [where f = ?f, OF lv entry f _ _ this] inv(1) show ?thesis
      by (simp add: deliver_def Let_def)
  next
    case (Inr t)
    then have connected: "phase_of n s log = Some Connected"
        and live: "tower_live elem (docs (n, s)) (lv_dispatcher lv) s i t"
      using now by (auto simp: context_ok_def split: option.splits phase.splits)
    let ?t = "processMutations (action_delegate elem action_attribute) (context_view dm (sc_element s))
      (records (sc_element s)) (tower_with (lv_dispatcher lv) t)"
    have f: "?f (with_dispatcher (lv_dispatcher lv) ob) = Inr ?t" by (simp add: Inr)
    let ?B = "outside i (lv_dispatcher lv)"
    have ok: "bx.tokens.attribute.eo_ok elem (sc_identifier s) i ?B (tower_with (lv_dispatcher lv) t)"
      using live by (simp add: bx_iff tower_live_def)
    have started: "eo_started (tower_with (lv_dispatcher lv) t)" using live by (simp add: tower_live_def)
    have "bx.tokens.attribute.eo_ok elem (sc_identifier s) i ?B ?t"
      using bx.tokens.attribute.eo_call_ok [OF ok,
          where c = "Mutations (context_view dm (sc_element s)) (records (sc_element s))"]
      by (simp add: action_delegate_def)
    then have ok': "bo.tokens.attribute.eo_ok elem (sc_identifier s) i ?t"
        and same: "outside i (bo_dispatcher (tower_delegate ?t)) = ?B"
      by (simp_all add: bx_iff)
    have "mirrors action_attribute (sc_element s) (context_view (docs (n, s)) (sc_element s))
        (tower_with (lv_dispatcher lv) t)"
      using live by (simp add: tower_live_def)
    from bx.tokens.batch_mirrors [OF ok started this _ covers [OF connected]]
    have "mirrors action_attribute (sc_element s) dm ?t" by (simp add: action_delegate_def)
    with ok' live have "tower_live elem dm (bo_dispatcher (tower_delegate ?t)) s i ?t"
      by (simp add: tower_live_def eo_call_view processMutations_started)
    then have own: "context_ok elem dm (observer_dispatcher (Inr ?t)) s (phase_of n s log) (Some (i, Inr ?t))"
      by (simp add: context_ok_def connected)
    have "dp_wf (bo_dispatcher (tower_delegate ?t))"
      using bo.eo_ok_delegate [OF ok'] by (simp add: bo_inv_def)
    with on_context_inv [where f = ?f, OF lv entry f _ _ own] same show ?thesis
      by (simp add: deliver_def Let_def)
  qed
qed

lemma deliver_all:
  assumes "live_inv elem st docs log lv" and "distinct keys"
    and "\<And>n s. (n, s) \<in> set keys \<Longrightarrow> phase_of n s log = Some Connected \<Longrightarrow>
      batch_covers action_attribute (sc_element s) (context_view (docs (n, s)) (sc_element s))
        (context_view dm (sc_element s)) (records (sc_element s))"
  shows "live_inv elem st (\<lambda>key. if key \<in> set keys then dm else docs key) log (fold (deliver elem dm records) keys lv)"
  using assms
proof (induction keys arbitrary: docs lv)
  case (Cons key keys)
  obtain n s where key: "key = (n, s)" by fastforce
  have one: "live_inv elem st (docs(key := dm)) log (deliver elem dm records key lv)"
    unfolding key by (rule deliver_inv [OF Cons.prems(1)]) (use Cons.prems(3) key in simp)
  have "live_inv elem st (\<lambda>k. if k \<in> set keys then dm else (docs(key := dm)) k) log
      (fold (deliver elem dm records) (key # keys) lv)"
    using Cons.IH [OF one] Cons.prems(2,3) by fastforce
  moreover have "(\<lambda>k. if k \<in> set keys then dm else (docs(key := dm)) k) =
      (\<lambda>k. if k \<in> set (key # keys) then dm else docs k)" by auto
  ultimately show ?case by simp
qed simp

end
