(* ===== verification/Stimulus_Actions.thy ===== *)
theory Stimulus_Actions
  imports Stimulus_Live
begin

text \<open>
  The actions of the page. With the browser reporting changes of the document to the
  observers of the router and of every connected context, the bindings that the dispatcher
  holds are at any moment after the start those that the document names: one for each action
  of an action attribute below the element of a connected controller of that identifier.
\<close>

section \<open>Histories of the page\<close>

text \<open>Before the start modules may be registered; documents that are not observed do not matter.\<close>

fun registering :: "live_event \<Rightarrow> bool" where
  "registering (Register i) = True"
| "registering (Unregister i) = True"
| "registering _ = False"

definition context_covers :: "nat \<Rightarrow> dom \<Rightarrow> dom \<Rightarrow> (nat \<Rightarrow> mutation list) \<Rightarrow> bool" where
  "context_covers root dm dm' records \<longleftrightarrow>
     list_all (\<lambda>e. batch_covers action_attribute e (context_view dm e) (context_view dm' e) (records e))
       (filter (\<lambda>e. e \<in> set (subtree dm' root)) (subtree dm root))"

text \<open>Each batch covers the changes, for the router below the root and for every element below it.\<close>

fun live_follows :: "nat \<Rightarrow> dom \<Rightarrow> live_event list \<Rightarrow> bool" where
  "live_follows root dm [] = True"
| "live_follows root dm (Register i # evs) = live_follows root dm evs"
| "live_follows root dm (Unregister i # evs) = live_follows root dm evs"
| "live_follows root dm (Begin dm' # evs) = False"
| "live_follows root dm (Batch dm' ms records # evs) =
     (dom_ok root dm' \<and> batch_covers controller_attribute root dm dm' ms \<and>
      context_covers root dm dm' records \<and> live_follows root dm' evs)"

definition live_run :: "(nat \<Rightarrow> element) \<Rightarrow> nat \<Rightarrow> dom \<Rightarrow> live_event list \<Rightarrow> dom \<times> live" where
  "live_run elem root dm evs = fold (live_step elem) evs (dm, new_live root)"

section \<open>Which documents matter\<close>

lemma live_inv_docs:
  assumes "live_inv elem st docs log lv"
    and "\<And>n s. phase_of n s log = Some Connected \<Longrightarrow> docs (n, s) = docs' (n, s)"
  shows "live_inv elem st docs' log lv"
proof -
  have "context_ok elem (docs' (n, s)) d s (phase_of n s log) entry"
    if "context_ok elem (docs (n, s)) d s (phase_of n s log) entry" for n s d entry
    using that assms(2) [of n s]
    by (auto simp: context_ok_def split: option.splits phase.splits)
  with assms(1) show ?thesis unfolding live_inv_def by blast
qed

lemma phase_elsewhere: "(n, s) \<notin> event_key ` set evs \<Longrightarrow> phase_of n s (log @ evs) = phase_of n s log"
  by (induction evs rule: rev_induct) (auto simp: event_key_def simp del: append_assoc simp flip: append_assoc)

lemma deliver_app: "lv_app (fold (deliver elem dm records) keys lv) = lv_app lv"
  by (induction keys arbitrary: lv)
    (simp_all add: deliver_def on_context_def Let_def split: option.splits prod.splits)

definition synced :: "(nat \<Rightarrow> element) \<Rightarrow> nat \<Rightarrow> dom \<Rightarrow> live \<Rightarrow> bool" where
  "synced elem root dm lv \<longleftrightarrow>
     (\<exists>K. app_ok K (lv_app lv)) \<and> eo_started (lv_app lv) \<and> eo_root (lv_app lv) = root \<and>
     mirrors controller_attribute root dm (lv_app lv) \<and> live_inv elem True (\<lambda>_. dm) (log_of lv) lv"

text \<open>What happens before the start: no scope, so no context.\<close>

definition waiting :: "(nat \<Rightarrow> element) \<Rightarrow> nat \<Rightarrow> live \<Rightarrow> bool" where
  "waiting elem root lv \<longleftrightarrow>
     (\<exists>K. app_ok K (lv_app lv)) \<and> \<not> eo_started (lv_app lv) \<and> eo_root (lv_app lv) = root \<and>
     eo_elements (lv_app lv) = [] \<and> (\<exists>docs. live_inv elem False docs (log_of lv) lv)"

lemma waiting_not_connected:
  assumes "waiting elem root lv"
  shows "phase_of n s (log_of lv) \<noteq> Some Connected"
proof -
  obtain K where "app_ok K (lv_app lv)" and "page_scopes (lv_app lv) = {}"
    using assms by (auto simp: waiting_def page_scopes_def)
  then show ?thesis using phase_outcome by auto
qed

lemma waiting_docs: "waiting elem root lv \<Longrightarrow> live_inv elem False docs (log_of lv) lv"
  using waiting_not_connected live_inv_docs unfolding waiting_def by metis

text \<open>Starting the dispatcher only attaches its listeners.\<close>

lemma waiting_started:
  assumes "waiting elem root lv"
  shows "live_inv elem True docs (log_of lv) (lv\<lparr>lv_dispatcher := dp_start (lv_dispatcher lv)\<rparr>)"
proof -
  note inv = waiting_docs [OF assms, of docs]
  have "dp_started (dp_start d)" for d by (simp add: dp_start_def map_listeners_def)
  moreover have "context_ok elem dm (dp_start d) s ph entry"
    if "context_ok elem dm d s ph entry" "ph \<noteq> Some Connected" for dm d s ph entry
    using that by (auto simp: context_ok_def others_def split: option.splits phase.splits)
  ultimately show ?thesis
    using inv waiting_not_connected [OF assms] by (auto simp: live_inv_def dp_wf_start simp del: map_of_eq_Some_iff)
qed

lemma waiting_new: "waiting elem root (new_live root)"
proof -
  have "app_ok {} (new_application root)" using app_run_ok [of "[]" root] by (simp add: app_run_def loaded_after_def)
  moreover have "log_of (new_live root) = []"
    by (simp add: new_live_def new_application_def app_router_def tower_delegate_def new_element_observer_def
        new_token_list_observer_def new_value_list_observer_def new_scope_core_def new_router_def)
  ultimately show ?thesis
    by (auto simp: waiting_def live_inv_def context_ok_def new_live_def new_application_def new_element_observer_def
        new_dispatcher_def [THEN arg_cong, of dp_started])
qed

lemma waiting_call:
  assumes "waiting elem root lv" and "registers c"
  shows "waiting elem root (live_call elem dm c lv)"
proof -
  obtain K where ok: "app_ok K (lv_app lv)" using assms(1) by (auto simp: waiting_def)
  have "app_ok (loaded_step c K) (lv_app (live_call elem dm c lv))"
    using app_call_ok [OF ok] by (simp add: live_call_app)
  moreover have "\<exists>docs. live_inv elem False docs (log_of (live_call elem dm c lv)) (live_call elem dm c lv)"
    using live_call_inv [OF ok waiting_docs [OF assms(1)]] by blast
  ultimately show ?thesis
    using assms registers_view [of "[c]" "lv_app lv"] by (auto simp: waiting_def live_call_app)
qed

lemma waiting_run:
  assumes "list_all registering evs" and "waiting elem root lv"
  shows "waiting elem root (snd (fold (live_step elem) evs (dm, lv)))"
  using assms
proof (induction evs arbitrary: lv)
  case (Cons ev evs)
  have "\<exists>c. registers c \<and> live_step elem ev (dm, lv) = (dm, live_call elem dm c lv)"
    using Cons.prems(1) by (cases ev) (auto intro: exI [of _ "Load i" for i] exI [of _ "Unload i" for i])
  then obtain c where "registers c" "live_step elem ev (dm, lv) = (dm, live_call elem dm c lv)" by blast
  with Cons.IH [OF _ waiting_call] Cons.prems show ?case by simp
qed simp

section \<open>One event after the start\<close>

text \<open>What an event means for the application alone, and the document after it.\<close>

fun app_event :: "live_event \<Rightarrow> application_call" where
  "app_event (Register i) = Load i"
| "app_event (Unregister i) = Unload i"
| "app_event (Begin dm) = Observe (Start dm)"
| "app_event (Batch dm ms records) = Observe (Mutations dm ms)"

fun next_document :: "live_event \<Rightarrow> dom \<Rightarrow> dom" where
  "next_document (Begin dm') dm = dm'"
| "next_document (Batch dm' ms records) dm = dm'"
| "next_document ev dm = dm"

lemma live_step_app: "lv_app (snd (live_step elem ev (dm, lv))) = app_call (app_event ev) (lv_app lv)"
  by (cases ev) (simp_all add: live_call_app deliver_app Let_def)

lemma live_step_document: "fst (live_step elem ev (dm, lv)) = next_document ev dm"
  by (cases ev) (simp_all add: Let_def)

lemma live_run_app: "lv_app (snd (live_run elem root dm evs)) = app_run root (map app_event evs)"
proof -
  have "lv_app (snd (fold (live_step elem) evs (dm, lv))) = fold app_call (map app_event evs) (lv_app lv)" for dm lv
  proof (induction evs arbitrary: dm lv)
    case (Cons ev evs)
    have "live_step elem ev (dm, lv) = (next_document ev dm, snd (live_step elem ev (dm, lv)))"
      by (metis live_step_document prod.collapse)
    with Cons.IH [of "next_document ev dm" "snd (live_step elem ev (dm, lv))"] show ?case
      by (metis fold_simps(2) list.map(2) live_step_app)
  qed simp
  then show ?thesis by (simp add: live_run_def app_run_def new_live_def)
qed

lemma app_call_view:
  assumes "app_ok K app" and "eo_started app" and "mirrors controller_attribute root dm app"
    and "live_follows root dm [ev]"
  shows "mirrors controller_attribute root (next_document ev dm) (app_call (app_event ev) app)"
    and "eo_started (app_call (app_event ev) app)" and "eo_root (app_call (app_event ev) app) = eo_root app"
proof -
  have "follows root dm [app_event ev]" and "last_document dm [app_event ev] = next_document ev dm"
    using assms(4) by (cases ev; simp)+
  with follows_mirrors [OF assms(1-3), of "[app_event ev]"]
  show "mirrors controller_attribute root (next_document ev dm) (app_call (app_event ev) app)" by simp
  show "eo_started (app_call (app_event ev) app)" and "eo_root (app_call (app_event ev) app) = eo_root app"
    using assms(2,4) by (cases ev; simp add: update_router_view processMutations_started eo_call_view)+
qed

lemma connected_scope:
  assumes "app_ok K app" and "mirrors controller_attribute root dm app"
    and "phase_of n s (rt_log (app_router app)) = Some Connected"
  shows "sc_element s \<in> set (subtree dm root)"
  using phase_outcome [OF assms(1), of n s] assms(3) mirrored_scopes [OF assms(1,2)] by auto

lemma batch_synced:
  assumes "synced elem root dm lv" and follows: "live_follows root dm [Batch dm' ms records]"
    and lv': "lv' = snd (live_step elem (Batch dm' ms records) (dm, lv))"
  shows "live_inv elem True (\<lambda>_. dm') (log_of lv') lv'"
proof -
  let ?c = "Observe (Mutations dm' ms)"
  let ?call = "live_call elem dm' ?c lv"
  let ?touched = "event_key ` set (live_events ?c lv)"
  let ?keys = "filter (\<lambda>key. key \<notin> ?touched) (map_keys (lv_contexts lv))"
  obtain K where ok: "app_ok K (lv_app lv)" using assms(1) by (auto simp: synced_def)
  have view: "eo_started (lv_app lv)" "mirrors controller_attribute root dm (lv_app lv)"
      and inv: "live_inv elem True (\<lambda>_. dm) (log_of lv) lv"
    using assms(1) by (simp_all add: synced_def)
  have ok': "app_ok K (app_call ?c (lv_app lv))" using app_call_ok [OF ok, of ?c] by simp
  have view': "mirrors controller_attribute root dm' (app_call ?c (lv_app lv))"
    using app_call_view(1) [OF ok view follows] by simp
  have log: "log_of ?call = log_of lv @ live_events ?c lv"
    using live_events_log [OF ok, of ?c] by (simp add: live_call_app)
  have before: "phase_of n s (log_of lv) = Some Connected"
    if "phase_of n s (log_of ?call) = Some Connected" "(n, s) \<notin> ?touched" for n s
    using that phase_elsewhere [of n s "live_events ?c lv" "log_of lv"] by (simp add: log)
  have covers: "batch_covers action_attribute (sc_element s) (context_view dm (sc_element s))
      (context_view dm' (sc_element s)) (records (sc_element s))"
    if "phase_of n s (log_of ?call) = Some Connected" "(n, s) \<notin> ?touched" for n s
    using follows connected_scope [OF ok view(2) before [OF that]]
      connected_scope [OF ok' view', of n s] that(1)
    by (simp add: live_call_app context_covers_def list_all_iff)
  have "live_inv elem True (\<lambda>key. if key \<in> set ?keys then dm' else if key \<in> ?touched then dm' else dm)
      (log_of ?call) (fold (deliver elem dm' records) ?keys ?call)"
    by (rule deliver_all [OF live_call_inv [OF ok inv, where dm = dm' and c = ?c]])
      (use live_invD(2) [OF inv] covers in auto)
  then have "live_inv elem True (\<lambda>_. dm') (log_of ?call) (fold (deliver elem dm' records) ?keys ?call)"
  proof (rule live_inv_docs)
    fix n s
    assume c: "phase_of n s (log_of ?call) = Some Connected"
    have "map_get (lv_contexts lv) (n, s) \<noteq> None" if "(n, s) \<notin> ?touched"
      using live_invD(6) [OF inv, where n = n and s = s] before [OF c that] by (auto simp: context_ok_def)
    then have "(n, s) \<in> ?touched \<or> (n, s) \<in> set ?keys" by (auto simp: map_of_eq_None_iff)
    then show "(if (n, s) \<in> set ?keys then dm' else if (n, s) \<in> ?touched then dm' else dm) = dm'" by auto
  qed
  then show ?thesis by (simp add: lv' Let_def deliver_app)
qed

lemma synced_step:
  assumes "synced elem root dm lv" and "live_follows root dm [ev]"
  shows "synced elem root (next_document ev dm) (snd (live_step elem ev (dm, lv)))"
proof -
  let ?lv = "snd (live_step elem ev (dm, lv))"
  obtain K where ok: "app_ok K (lv_app lv)" using assms(1) by (auto simp: synced_def)
  have view: "eo_started (lv_app lv)" "mirrors controller_attribute root dm (lv_app lv)"
      "eo_root (lv_app lv) = root" and inv: "live_inv elem True (\<lambda>_. dm) (log_of lv) lv"
    using assms(1) by (simp_all add: synced_def)
  have same: "live_inv elem True (\<lambda>_. dm) (log_of (live_call elem dm c lv)) (live_call elem dm c lv)" for c
    using live_call_inv [OF ok inv, where dm = dm and c = c] by simp
  have "live_inv elem True (\<lambda>_. next_document ev dm) (log_of ?lv) ?lv"
  proof (cases ev)
    case (Batch dm' ms records)
    show ?thesis using batch_synced [OF assms(1) _ refl] assms(2) unfolding Batch by simp
  qed (use assms(2) same in simp_all)
  with app_call_ok [OF ok, of "app_event ev"] app_call_view [OF ok view(1,2) assms(2)] view(3) show ?thesis
    unfolding synced_def live_step_app by blast
qed

section \<open>The actions of a document\<close>

definition declares :: "(nat \<Rightarrow> element) \<Rightarrow> dom \<Rightarrow> scope \<Rightarrow> action \<Rightarrow> bool" where
  "declares elem dm s a \<longleftrightarrow>
     a_identifier a = sc_identifier s \<and>
     list_ex (\<lambda>e. list_ex (\<lambda>(k, w). action_forToken (elem e) k w = Inr a)
         (enumerate 0 (attribute_words action_attribute dm e))) (subtree dm (sc_element s))"

lemma no_attribute_no_words: "getAttr dm e name = None \<Longrightarrow> attribute_words name dm e = []"
  by (auto simp: attribute_words_def words_def trim_def split_ws_free)

lemma token_action_iff:
  "token_action elem ident t = Some (obj, a) \<longleftrightarrow>
     obj = t_id t \<and> a_identifier a = ident \<and> action_forToken (elem (t_element t)) (t_index t) (t_content t) = Inr a"
  by (auto simp: token_action_def split: sum.splits)

lemma tower_bindings:
  assumes live: "tower_live elem dm d s i t"
  shows "(\<exists>b \<in> dp_bindings d. b_context b = i \<and> b_action b = a) \<longleftrightarrow> declares elem dm s a"
proof -
  let ?t = "tower_with d t"
  let ?tokens = "\<lambda>e. mm_values_for_key (tlo_tokens (eo_delegate ?t)) e"
  let ?says = "\<lambda>e k w. action_forToken (elem e) k w = Inr a"
  have ok: "bo.tokens.attribute.eo_ok elem (sc_identifier s) i ?t"
      and mirror: "mirrors action_attribute (sc_element s) dm ?t"
    using live by (simp_all add: tower_live_def)
  have wf: "tokens_wf (eo_delegate ?t)"
    using ok by (simp add: bo.tokens.attribute.eo_ok_def bo.tokens.tower_ok_def bo.tokens.tlo_ok_def)
  have inv: "bo_inv i (sc_identifier s) (tower_delegate ?t)" by (rule bo.eo_ok_delegate [OF ok])
  have tracked: "e \<in> set (eo_elements ?t) \<longleftrightarrow>
      e \<in> set (subtree dm (sc_element s)) \<and> getAttr dm e action_attribute \<noteq> None" for e
    using mirror by (simp add: mirrors_def listed_def)
  have texts: "token_texts (?tokens e) = enumerate 0 (attribute_words action_attribute dm e)"
    if "e \<in> set (eo_elements ?t)" for e
  proof -
    have "fresh action_attribute dm e ?t" using mirror by (simp add: mirrors_def)
    with that show ?thesis by (simp add: fresh_def texts_def)
  qed
  have held: "b \<in> dp_bindings d \<longleftrightarrow> 0 < bo_count (tower_delegate ?t) (b_object b, b_action b)"
    if "b_context b = i" for b
    using inv that by (simp add: bo_inv_def bo_count_def)
  have "(\<exists>b \<in> dp_bindings d. b_context b = i \<and> b_action b = a) \<longleftrightarrow>
      (\<exists>obj. 0 < bo_count (tower_delegate ?t) (obj, a))"
    using held by (metis action_binding_simps fst_conv snd_conv)
  also have "\<dots> \<longleftrightarrow> a_identifier a = sc_identifier s \<and>
      (\<exists>x \<in> live_tokens (eo_delegate ?t). t_element x \<in> set (eo_elements ?t) \<and>
         ?says (t_element x) (t_index x) (t_content x))"
    unfolding bo.count_pos [OF ok] token_action_iff by blast
  also have "(\<exists>x \<in> live_tokens (eo_delegate ?t). t_element x \<in> set (eo_elements ?t) \<and>
         ?says (t_element x) (t_index x) (t_content x)) \<longleftrightarrow>
      (\<exists>e \<in> set (eo_elements ?t). \<exists>x \<in> set (?tokens e). ?says e (t_index x) (t_content x))"
    using live_tokens_element [OF wf] tokens_wf_element [OF wf] by metis
  also have "\<dots> \<longleftrightarrow> (\<exists>e \<in> set (eo_elements ?t). \<exists>(k, w) \<in> set (token_texts (?tokens e)). ?says e k w)"
    by (simp add: token_texts_def)
  also have "\<dots> \<longleftrightarrow> (\<exists>e \<in> set (subtree dm (sc_element s)).
      \<exists>(k, w) \<in> set (enumerate 0 (attribute_words action_attribute dm e)). ?says e k w)"
    using texts tracked no_attribute_no_words [of dm _ action_attribute] by fastforce
  finally show ?thesis by (simp add: declares_def list_ex_iff)
qed

text \<open>The bindings of a live page: each belongs to one context, and they are those the document asks for.\<close>

lemma context_bindings:
  assumes inv: "live_inv elem st (\<lambda>_. dm) log lv" and entry: "map_get (lv_contexts lv) (n, s) = Some (i, ob)"
  shows "(\<exists>b \<in> dp_bindings (lv_dispatcher lv). b_context b = i \<and> b_action b = a) \<longleftrightarrow>
    phase_of n s log = Some Connected \<and> declares elem dm s a"
proof -
  have ok: "context_ok elem dm (lv_dispatcher lv) s (phase_of n s log) (Some (i, ob))"
    using live_invD(6) [OF inv, where n = n and s = s] entry by simp
  then consider "phase_of n s log = Some Created" "others i (lv_dispatcher lv) = dp_bindings (lv_dispatcher lv)"
    | t where "phase_of n s log = Some Connected" "tower_live elem dm (lv_dispatcher lv) s i t"
    by (auto simp: context_ok_def split: option.splits phase.splits)
  then show ?thesis
  proof cases
    case 1
    then show ?thesis by (auto simp: others_def)
  next
    case 2
    then show ?thesis using tower_bindings by simp
  qed
qed

lemma live_bindings:
  assumes "synced elem root dm lv"
  shows "{(n, s, b_action b) | n s ob b. b \<in> dp_bindings (lv_dispatcher lv) \<and>
      map_get (lv_contexts lv) (n, s) = Some (b_context b, ob)} =
    {(n, s, a) | n s a. map_option m_id (map_get (rt_modules (app_router (lv_app lv))) (sc_identifier s)) = Some n \<and>
      sc_element s \<in> set (subtree dm root) \<and>
      sc_identifier s \<in> set (attribute_words controller_attribute dm (sc_element s)) \<and> declares elem dm s a}"
    (is "?bound = ?asked")
proof -
  obtain K where ok: "app_ok K (lv_app lv)" using assms by (auto simp: synced_def)
  have mirror: "mirrors controller_attribute root dm (lv_app lv)" and inv: "live_inv elem True (\<lambda>_. dm) (log_of lv) lv"
    using assms by (simp_all add: synced_def)
  have member: "s \<in> page_scopes (lv_app lv) \<longleftrightarrow> sc_element s \<in> set (subtree dm root) \<and>
      sc_identifier s \<in> set (attribute_words controller_attribute dm (sc_element s))" for s
    unfolding mirrored_scopes [OF ok mirror] by (cases s) auto
  have "(n, s, a) \<in> ?bound \<longleftrightarrow> (n, s, a) \<in> ?asked" for n s a
  proof -
    have "(n, s, a) \<in> ?bound \<longleftrightarrow> (\<exists>i ob. map_get (lv_contexts lv) (n, s) = Some (i, ob) \<and>
        (\<exists>b \<in> dp_bindings (lv_dispatcher lv). b_context b = i \<and> b_action b = a))"
      by (auto simp del: map_of_eq_Some_iff)
    also have "\<dots> \<longleftrightarrow> (\<exists>i ob. map_get (lv_contexts lv) (n, s) = Some (i, ob)) \<and>
        phase_of n s (log_of lv) = Some Connected \<and> declares elem dm s a"
      using context_bindings [OF inv] by blast
    also have "\<dots> \<longleftrightarrow> phase_of n s (log_of lv) = Some Connected \<and> declares elem dm s a"
      using live_invD(6) [OF inv, where n = n and s = s] by (auto simp: context_ok_def simp del: map_of_eq_Some_iff)
    also have "\<dots> \<longleftrightarrow> (n, s, a) \<in> ?asked"
      using phase_outcome [OF ok, of n s] member by simp blast
    finally show ?thesis .
  qed
  then show ?thesis by (simp only: set_eq_iff split_paired_All) blast
qed

lemma forToken_place: "action_forToken e k w = Inr a \<Longrightarrow> a_element a = el_id e \<and> a_index a = k"
  by (auto simp: action_forToken_def new_action_def split: option.splits)

lemma tower_binding_unique:
  assumes live: "tower_live elem dm d s i t" and ids: "\<And>e. el_id (elem e) = e"
    and b: "b \<in> dp_bindings d" "b_context b = i" and b': "b' \<in> dp_bindings d" "b_context b' = i"
    and "b_action b = b_action b'"
  shows "b = b'"
proof -
  let ?t = "tower_with d t"
  let ?tokens = "\<lambda>e. mm_values_for_key (tlo_tokens (eo_delegate ?t)) e"
  have ok: "bo.tokens.attribute.eo_ok elem (sc_identifier s) i ?t"
      and mirror: "mirrors action_attribute (sc_element s) dm ?t"
    using live by (simp_all add: tower_live_def)
  have wf: "tokens_wf (eo_delegate ?t)"
    using ok by (simp add: bo.tokens.attribute.eo_ok_def bo.tokens.tower_ok_def bo.tokens.tlo_ok_def)
  have inv: "bo_inv i (sc_identifier s) (tower_delegate ?t)" by (rule bo.eo_ok_delegate [OF ok])
  have token: "\<exists>x. t_id x = b_object c \<and> t_element x = a_element (b_action c) \<and> t_index x = a_index (b_action c) \<and>
      x \<in> set (?tokens (t_element x)) \<and> t_element x \<in> set (eo_elements ?t)"
    if "c \<in> dp_bindings d" "b_context c = i" for c
  proof -
    have "0 < bo_count (tower_delegate ?t) (b_object c, b_action c)"
      using inv that by (simp add: bo_inv_def bo_count_def)
    then obtain x where x: "x \<in> live_tokens (eo_delegate ?t)" "t_element x \<in> set (eo_elements ?t)"
        "token_action elem (sc_identifier s) x = Some (b_object c, b_action c)"
      unfolding bo.count_pos [OF ok] by blast
    then show ?thesis
      unfolding token_action_iff using forToken_place ids live_tokens_element [OF wf, of x] by fastforce
  qed
  obtain x where x: "t_id x = b_object b" "t_element x = a_element (b_action b)" "t_index x = a_index (b_action b)"
      "x \<in> set (?tokens (t_element x))" "t_element x \<in> set (eo_elements ?t)"
    using token [OF b] by blast
  obtain y where y: "t_id y = b_object b'" "t_element y = a_element (b_action b')" "t_index y = a_index (b_action b')"
      "y \<in> set (?tokens (t_element y))"
    using token [OF b'] by blast
  have "fresh action_attribute dm (t_element x) ?t" using mirror by (simp add: mirrors_def)
  with x(5) have texts: "token_texts (?tokens (t_element x)) = enumerate 0 (attribute_words action_attribute dm (t_element x))"
    by (simp add: fresh_def texts_def)
  have "map t_index (?tokens (t_element x)) = map fst (token_texts (?tokens (t_element x)))"
    by (simp add: token_texts_def)
  then have "distinct (map t_index (?tokens (t_element x)))" unfolding texts by simp
  then have "inj_on t_index (set (?tokens (t_element x)))" by (simp add: distinct_map)
  moreover have "y \<in> set (?tokens (t_element x))" "t_index x = t_index y" using x y assms(7) by simp_all
  ultimately have "x = y" using x(4) by (auto simp: inj_on_def)
  then have "b_object b = b_object b'" using x(1) y(1) by simp
  with assms(4,6,7) show ?thesis by simp
qed

lemma live_binding_unique:
  assumes "synced elem root dm lv" and "\<And>e. el_id (elem e) = e"
    and "b \<in> dp_bindings (lv_dispatcher lv)" and "b' \<in> dp_bindings (lv_dispatcher lv)"
    and "b_context b = b_context b'" and "b_action b = b_action b'"
  shows "b = b'"
proof -
  have inv: "live_inv elem True (\<lambda>_. dm) (log_of lv) lv" using assms(1) by (simp add: synced_def)
  obtain n s ob where entry: "map_get (lv_contexts lv) (n, s) = Some (b_context b, ob)"
    using live_invD(5) [OF inv assms(3)] by auto
  have "context_ok elem dm (lv_dispatcher lv) s (phase_of n s (log_of lv)) (Some (b_context b, ob))"
    using live_invD(6) [OF inv, where n = n and s = s] entry by simp
  then consider "others (b_context b) (lv_dispatcher lv) = dp_bindings (lv_dispatcher lv)"
    | t where "tower_live elem dm (lv_dispatcher lv) s (b_context b) t"
    by (auto simp: context_ok_def split: option.splits phase.splits)
  then show ?thesis
  proof cases
    case 1
    with assms(3) show ?thesis by (auto simp: others_def)
  next
    case 2
    then show ?thesis using assms(3-6) by (intro tower_binding_unique [OF 2 assms(2)]) simp_all
  qed
qed

lemma filed_listener:
  assumes wf: "dp_wf d" and "dp_started d" and b: "b \<in> dp_bindings d"
  shows "case find_listener d (a_eventTarget (b_action b)) (binding_key b) of
      None \<Rightarrow> False
    | Some l \<Rightarrow> ls_connected l \<and> ls_target l = a_eventTarget (b_action b) \<and> b \<in> set (ls_unordered l)"
proof -
  obtain t key where "b \<in> set (filed d t key)" using b by (auto simp: dp_bindings_def)
  moreover from filed_only [OF wf this] have "t = a_eventTarget (b_action b)" "key = binding_key b"
    by (simp_all add: binding_eventTarget_def)
  ultimately have "b \<in> set (filed d (a_eventTarget (b_action b)) (binding_key b))" by simp
  then obtain l where l: "find_listener d (a_eventTarget (b_action b)) (binding_key b) = Some l"
    and "b \<in> set (ls_unordered l)"
    by (cases "find_listener d (a_eventTarget (b_action b)) (binding_key b)") (simp_all add: filed_def)
  moreover have "ls_target l = a_eventTarget (b_action b) \<and> ls_connected l = dp_started d"
    using wf l unfolding dp_wf_def by blast
  ultimately show ?thesis using assms(2) by simp
qed

lemma synced_run:
  "synced elem root dm lv \<Longrightarrow> live_follows root dm evs \<Longrightarrow>
   case fold (live_step elem) evs (dm, lv) of (now, lv') \<Rightarrow> synced elem root now lv'"
proof (induction evs arbitrary: dm lv)
  case (Cons ev evs)
  have ev: "live_follows root dm [ev]" and evs: "live_follows root (next_document ev dm) evs"
    using Cons.prems(2) by (cases ev; simp)+
  have "live_step elem ev (dm, lv) = (next_document ev dm, snd (live_step elem ev (dm, lv)))"
    by (metis live_step_document prod.collapse)
  with Cons.IH [OF synced_step [OF Cons.prems(1) ev] evs] show ?case by (metis fold_simps(2))
qed simp

lemma live_run_synced:
  assumes "list_all registering before" and "dom_ok root dm" and "live_follows root dm after"
  shows "case live_run elem root blank (before @ Begin dm # after) of (now, lv) \<Rightarrow> synced elem root now lv"
proof -
  obtain d lv where first: "fold (live_step elem) before (blank, new_live root) = (d, lv)" by fastforce
  have wait: "waiting elem root lv" using waiting_run [OF assms(1) waiting_new, of elem root blank] first by simp
  then obtain K where ok: "app_ok K (lv_app lv)" and view: "eo_elements (lv_app lv) = []"
      "eo_root (lv_app lv) = root" "\<not> eo_started (lv_app lv)"
    by (auto simp: waiting_def)
  let ?start = "lv\<lparr>lv_dispatcher := dp_start (lv_dispatcher lv)\<rparr>"
  let ?lv = "live_call elem dm (Observe (Start dm)) ?start"
  have begun: "live_inv elem True (\<lambda>_. dm) (log_of ?start) ?start" using waiting_started [OF wait] by simp
  have "app_ok K (lv_app ?lv)" using app_call_ok [OF ok, of "Observe (Start dm)"] by (simp add: live_call_app)
  moreover have "mirrors controller_attribute root dm (lv_app ?lv)"
    using so.tokens.start_mirrors [OF ok, of dm controller_attribute] view assms(2)
    by (simp add: controller_delegate_def live_call_app)
  moreover have "live_inv elem True (\<lambda>_. dm) (log_of ?lv) ?lv"
    using live_call_inv [OF _ begun, where dm = dm] ok by simp
  ultimately have "synced elem root dm ?lv" using view by (auto simp: synced_def live_call_app eo_call_view)
  from synced_run [OF this assms(3)] show ?thesis by (simp add: live_run_def first)
qed

section \<open>Properties\<close>

text \<open>
  C2. The bindings are those the document names. Modules are registered before the
  application starts and come and go afterwards, while the document changes and the browser
  reports the changes to the observers of the router and of the running contexts: then the
  actions bound in the shared dispatcher are exactly those of the action attributes below
  the element of a controller that the current document names and whose module is loaded,
  under that controller's identifier; and each binding belongs to exactly one context
  and is in a listener attached to the event target of its action.
\<close>

theorem actions_follow_document:
  assumes "list_all registering before" and "dom_ok root dm" and "live_follows root dm after"
    and "live_run elem root blank (before @ Begin dm # after) = (now, lv)"
  shows "{(n, s, b_action b) | n s ob b. b \<in> dp_bindings (lv_dispatcher lv) \<and>
      map_get (lv_contexts lv) (n, s) = Some (b_context b, ob)} =
    {(n, s, a) | n s a. map_option m_id (map_get (rt_modules (app_router (lv_app lv))) (sc_identifier s)) = Some n \<and>
      sc_element s \<in> set (subtree now root) \<and>
      sc_identifier s \<in> set (attribute_words controller_attribute now (sc_element s)) \<and> declares elem now s a} \<and>
    (\<forall>b \<in> dp_bindings (lv_dispatcher lv). \<exists>!key. \<exists>ob. map_get (lv_contexts lv) key = Some (b_context b, ob)) \<and>
    (\<forall>b \<in> dp_bindings (lv_dispatcher lv).
       case find_listener (lv_dispatcher lv) (a_eventTarget (b_action b)) (binding_key b) of
         None \<Rightarrow> False
       | Some l \<Rightarrow> ls_connected l \<and> ls_target l = a_eventTarget (b_action b) \<and> b \<in> set (ls_unordered l))"
proof -
  have synced: "synced elem root now lv" using live_run_synced [OF assms(1-3), of elem blank] assms(4) by simp
  then have inv: "live_inv elem True (\<lambda>_. now) (log_of lv) lv" by (simp add: synced_def)
  have one: "\<exists>!key. \<exists>ob. map_get (lv_contexts lv) key = Some (b_context b, ob)"
    if "b \<in> dp_bindings (lv_dispatcher lv)" for b
  proof (rule ex_ex1I [OF live_invD(5) [OF inv that]])
    fix key key'
    assume "\<exists>ob. map_get (lv_contexts lv) key = Some (b_context b, ob)"
      and "\<exists>ob. map_get (lv_contexts lv) key' = Some (b_context b, ob)"
    then obtain ob ob' where "map_get (lv_contexts lv) key = Some (b_context b, ob)"
      and "map_get (lv_contexts lv) key' = Some (b_context b, ob')" by blast
    then show "key = key'" by (rule live_invD(4) [OF inv])
  qed
  have listens: "case find_listener (lv_dispatcher lv) (a_eventTarget (b_action b)) (binding_key b) of
      None \<Rightarrow> False
    | Some l \<Rightarrow> ls_connected l \<and> ls_target l = a_eventTarget (b_action b) \<and> b \<in> set (ls_unordered l)"
    if b: "b \<in> dp_bindings (lv_dispatcher lv)" for b
    by (rule filed_listener [OF live_invD(1) [OF inv] _ b]) (use inv in \<open>simp add: live_inv_def\<close>)
  show ?thesis by (intro conjI ballI live_bindings [OF synced] one listens)
qed

text \<open>A page for the witness: the tab element 7 holds button 8, whose actions change.\<close>

definition live_page :: "jsstr \<Rightarrow> dom" where
  "live_page actions =
     \<lparr>getAttr = (\<lambda>e n. if e = 7 \<and> n = ''data-controller'' then Some ''tab''
        else if e = 8 \<and> n = ''data-action'' then Some actions else None),
      contained = (\<lambda>e. e = 1 \<or> e = 7 \<or> e = 8),
      subtree = (\<lambda>e. if e = 1 then [1, 7, 8] else if e = 7 then [7, 8] else [e])\<rparr>"

definition live_after :: "live_event list" where
  "live_after = [Register ''page'',
     Batch (live_page ''tab#off tab#on'') [] (\<lambda>_. [AttributeMutation 8 ''data-action''])]"

definition live_lv :: live where
  "live_lv = snd (live_run sample_elem 1 (live_page []) ([Register ''tab''] @ Begin (live_page ''tab#off'') # live_after))"

lemma live_after_follows: "live_follows 1 (live_page ''tab#off'') live_after"
proof -
  have "dom_ok 1 (live_page w)" for w by (auto simp: dom_ok_def live_page_def)
  moreover have "batch_covers controller_attribute 1 (live_page w) (live_page w') []" for w w'
    by (auto simp: batch_covers_def covers_element_def listed_def live_page_def)
  moreover have "context_covers 1 (live_page w) (live_page w') (\<lambda>_. [AttributeMutation 8 ''data-action''])" for w w'
    by (auto simp: context_covers_def batch_covers_def covers_element_def listed_def live_page_def context_view_def)
  ultimately show ?thesis by (simp add: live_after_def)
qed

definition live_open :: action where
  "live_open = \<lparr>a_element = 8, a_index = 1, a_eventTarget = Element 8, a_eventName = ''click'',
     a_eventOptions = [], a_identifier = ''tab'', a_methodName = ''on''\<rparr>"

lemma live_sample:
  shows "list_all registering [Register ''tab'']" and "dom_ok 1 (live_page ''tab#off'')"
    and "live_run sample_elem 1 (live_page []) ([Register ''tab''] @ Begin (live_page ''tab#off'') # live_after) =
      (live_page ''tab#off tab#on'', live_lv)"
    and "map_get (rt_modules (app_router (lv_app live_lv))) ''tab'' \<noteq> None"
    and "7 \<in> set (subtree (live_page ''tab#off tab#on'') 1) \<and>
      ''tab'' \<in> set (attribute_words controller_attribute (live_page ''tab#off tab#on'') 7)"
    and "declares sample_elem (live_page ''tab#off tab#on'')
      \<lparr>sc_element = 7, sc_identifier = ''tab''\<rparr> live_open"
proof -
  let ?run = "live_run sample_elem 1 (live_page []) ([Register ''tab''] @ Begin (live_page ''tab#off'') # live_after)"
  have "fst ?run = live_page ''tab#off tab#on''"
    by (simp add: live_run_def live_after_def Let_def)
  then show "?run = (live_page ''tab#off tab#on'', live_lv)"
    by (simp add: live_lv_def prod_eq_iff)
  show "list_all registering [Register ''tab'']" by simp
  show "dom_ok 1 (live_page ''tab#off'')" by (auto simp: dom_ok_def live_page_def)
  let ?calls = "map app_event ([Register ''tab''] @ Begin (live_page ''tab#off'') # live_after)"
  have "''tab'' \<in> loaded_after ?calls" by (simp add: loaded_after_def live_after_def)
  then have "module_loaded (app_router (app_run 1 ?calls)) ''tab''" using app_loaded [OF app_run_ok] by blast
  then show "map_get (rt_modules (app_router (lv_app live_lv))) ''tab'' \<noteq> None"
    unfolding live_lv_def live_run_app by (simp add: module_loaded_def)
  have "action_forToken (sample_elem 8) 1 ''tab#on'' = Inr live_open" by code_simp
  moreover have "enumerate 0 (attribute_words action_attribute (live_page ''tab#off tab#on'') 8) =
      [(0, ''tab#off''), (1, ''tab#on'')]" by code_simp
  ultimately show "declares sample_elem (live_page ''tab#off tab#on'') \<lparr>sc_element = 7, sc_identifier = ''tab''\<rparr> live_open"
    by (simp add: declares_def list_ex_iff live_page_def live_open_def)
qed code_simp

lemma actions_follow_document_witness:
  "\<exists>n. (n, \<lparr>sc_element = 7, sc_identifier = ''tab''\<rparr>, live_open)
     \<in> {(n, s, b_action b) | n s ob b. b \<in> dp_bindings (lv_dispatcher live_lv) \<and>
          map_get (lv_contexts live_lv) (n, s) = Some (b_context b, ob)}"
  unfolding actions_follow_document [OF live_sample(1,2) live_after_follows live_sample(3), THEN conjunct1]
  using live_sample(4-6) by auto

end
