(* ===== verification/Stimulus_Events.thy ===== *)
theory Stimulus_Events
  imports Stimulus_Actions
begin

text \<open>
  An event on its way through the listeners of one target, and the errors of the controllers.
  \<open>extendEvent\<close> gives the event object the flag that the listeners read; the browser has a
  flag of its own, which keeps the remaining listeners from being called. An exception of a
  controller method passes \<open>Binding.invokeWithEvent\<close>, \<open>Context.handleError\<close> and
  \<open>Application.handleError\<close> and ends on the console. The property reduces all of it to one
  run of the bindings in order.
\<close>

section \<open>Event objects\<close>

text \<open>
  \<open>de_stopped\<close> is \<open>immediatePropagationStopped\<close>, \<open>None\<close> while the event has no such property;
  \<open>de_native\<close> is the browser's flag. An extended event also has the replaced method.
\<close>

record dom_event =
  de_target :: event_target
  de_stopped :: "bool option"
  de_native :: bool

definition new_event :: "event_target \<Rightarrow> dom_event" where
  "new_event t = \<lparr>de_target = t, de_stopped = None, de_native = False\<rparr>"

definition extendEvent :: "dom_event \<Rightarrow> dom_event" where
  "extendEvent e =
     (case de_stopped e of
        Some _ \<Rightarrow> e
      | None \<Rightarrow> e\<lparr>de_stopped := Some False\<rparr>)"

definition stopImmediatePropagation :: "dom_event \<Rightarrow> dom_event" where
  "stopImmediatePropagation e =
     (case de_stopped e of
        Some _ \<Rightarrow> e\<lparr>de_stopped := Some True, de_native := True\<rparr>
      | None \<Rightarrow> e\<lparr>de_native := True\<rparr>)"

section \<open>Errors on the console\<close>

datatype detail_value =
    DIdentifier jsstr | DController nat | DElement nat | DIndex nat | DEvent event_target

type_synonym detail = "(jsstr, detail_value) jsmap"

text \<open>\<open>Object.assign\<close> on objects with these properties.\<close>

definition assign_detail :: "detail \<Rightarrow> detail \<Rightarrow> detail" where
  "assign_detail target source = fold (\<lambda>(k, v). map_set k v) source target"

record console_entry =
  en_message :: jsstr
  en_error :: js_error
  en_detail :: detail

definition application_handleError ::
  "js_error \<Rightarrow> jsstr \<Rightarrow> detail \<Rightarrow> console_entry list \<Rightarrow> console_entry list" where
  "application_handleError error message detail console =
     console @ [\<lparr>en_message = message, en_error = error, en_detail = detail\<rparr>]"

definition router_handleError ::
  "js_error \<Rightarrow> jsstr \<Rightarrow> detail \<Rightarrow> console_entry list \<Rightarrow> console_entry list" where
  "router_handleError error message detail = application_handleError error message detail"

text \<open>The parameter \<open>detail\<close> is optional.\<close>

definition dispatcher_handleError ::
  "js_error \<Rightarrow> jsstr \<Rightarrow> detail option \<Rightarrow> console_entry list \<Rightarrow> console_entry list" where
  "dispatcher_handleError error message detail =
     application_handleError error (''Error '' @ message) (case detail of None \<Rightarrow> [] | Some d \<Rightarrow> d)"

text \<open>A context has one controller and is known by the same number.\<close>

definition context_handleError ::
  "(nat \<Rightarrow> scope) \<Rightarrow> nat \<Rightarrow> js_error \<Rightarrow> jsstr \<Rightarrow> detail option \<Rightarrow> console_entry list \<Rightarrow> console_entry list" where
  "context_handleError scopes context error message detail =
     (let d = assign_detail
          [(''identifier'', DIdentifier (sc_identifier (scopes context))), (''controller'', DController context),
           (''element'', DElement (sc_element (scopes context)))]
          (case detail of None \<Rightarrow> [] | Some d \<Rightarrow> d)
      in application_handleError error (''Error '' @ message) d)"

text \<open>The detail object that \<open>invokeWithEvent\<close> makes in its catch clause.\<close>

definition invocation_detail :: "(nat \<Rightarrow> scope) \<Rightarrow> binding \<Rightarrow> event_target \<Rightarrow> detail" where
  "invocation_detail scopes b event =
     (let scope = scopes (b_context b)
      in [(''identifier'', DIdentifier (sc_identifier scope)), (''controller'', DController (b_context b)),
          (''element'', DElement (sc_element scope)), (''index'', DIndex (binding_index b)),
          (''event'', DEvent event)])"

section \<open>Dispatch of one event\<close>

text \<open>
  The controllers: their scopes, what contains what, and for each method that exists what it
  throws, whether it stops the immediate propagation, and the state it leaves.
\<close>

record 'u controllers =
  ct_scope :: "nat \<Rightarrow> scope"
  ct_contains :: "nat \<Rightarrow> nat \<Rightarrow> bool"
  ct_containsElement :: "nat \<Rightarrow> nat \<Rightarrow> bool"
  ct_method :: "nat \<Rightarrow> jsstr \<Rightarrow> (event_target \<Rightarrow> 'u \<Rightarrow> js_error option \<times> bool \<times> 'u) option"

record 'u dispatch =
  ds_event :: dom_event
  ds_console :: "console_entry list"
  ds_user :: 'u

definition run_method ::
  "(event_target \<Rightarrow> 'u \<Rightarrow> js_error option \<times> bool \<times> 'u) \<Rightarrow> event_target \<Rightarrow> 'u dispatch \<Rightarrow>
     js_error option \<times> 'u dispatch" where
  "run_method f event s =
     (case f event (ds_user s) of
        (error, stops, u) \<Rightarrow>
          (error, s\<lparr>ds_event := (if stops then stopImmediatePropagation (ds_event s) else ds_event s),
                    ds_user := u\<rparr>))"

definition event_environment :: "'u controllers \<Rightarrow> event_target \<Rightarrow> 'u dispatch environment" where
  "event_environment cs event =
     \<lparr>scope_element = (\<lambda>c. sc_element (ct_scope cs c)),
      contains = ct_contains cs,
      containsElement = ct_containsElement cs,
      has_method = (\<lambda>c name. ct_method cs c name \<noteq> None),
      call_method = (\<lambda>c name ev s. case ct_method cs c name of
         None \<Rightarrow> (None, s) | Some f \<Rightarrow> run_method f ev s),
      handle_error = (\<lambda>b error s. s\<lparr>ds_console :=
         context_handleError (ct_scope cs) (b_context b) error
           (''invoking action \"'' @ action_toString (b_action b) @ ''\"'')
           (Some (invocation_detail (ct_scope cs) b event)) (ds_console s)\<rparr>),
      propagation_stopped = (\<lambda>s. de_stopped (ds_event s) = Some True)\<rparr>"

definition listener_handleEvent ::
  "'u controllers \<Rightarrow> event_listener \<Rightarrow> 'u dispatch \<Rightarrow> 'u dispatch" where
  "listener_handleEvent cs l s =
     (let s' = s\<lparr>ds_event := extendEvent (ds_event s)\<rparr>; event = de_target (ds_event s')
      in ls_handleEvent (event_environment cs event) event l s')"

text \<open>The browser calls the listeners of the target until its own flag is set.\<close>

fun deliver_event :: "'u controllers \<Rightarrow> event_listener list \<Rightarrow> 'u dispatch \<Rightarrow> 'u dispatch" where
  "deliver_event cs [] s = s"
| "deliver_event cs (l # ls) s =
     (if de_native (ds_event s) then s else deliver_event cs ls (listener_handleEvent cs l s))"

section \<open>The run of the bindings\<close>

text \<open>What one binding does: the method it finds, or the error that there is none.\<close>

definition outcome :: "'u controllers \<Rightarrow> event_target \<Rightarrow> binding \<Rightarrow> 'u \<Rightarrow> js_error option \<times> bool \<times> 'u" where
  "outcome cs event b u =
     (case ct_method cs (b_context b) (binding_methodName b) of
        None \<Rightarrow> (Some (undefined_method b), False, u)
      | Some f \<Rightarrow> f event u)"

definition concerns :: "'u controllers \<Rightarrow> event_target \<Rightarrow> binding \<Rightarrow> bool" where
  "concerns cs event b = willBeInvokedByEvent (event_environment cs event) b event"

text \<open>One binding after the other, until one stops: the failures, whether it was stopped, the state.\<close>

fun run_all :: "'u controllers \<Rightarrow> event_target \<Rightarrow> binding list \<Rightarrow> 'u \<Rightarrow> (binding \<times> js_error) list \<times> bool \<times> 'u" where
  "run_all cs event [] u = ([], False, u)"
| "run_all cs event (b # bs) u =
     (if concerns cs event b then
        (case outcome cs event b u of
           (error, stops, u') \<Rightarrow>
             let failed = (case error of None \<Rightarrow> [] | Some e \<Rightarrow> [(b, e)])
             in if stops then (failed, True, u')
                else (case run_all cs event bs u' of (later, stopped, u'') \<Rightarrow> (failed @ later, stopped, u'')))
      else run_all cs event bs u)"

definition report :: "'u controllers \<Rightarrow> event_target \<Rightarrow> binding \<times> js_error \<Rightarrow> console_entry" where
  "report cs event = (\<lambda>(b, e).
     \<lparr>en_message = ''Error invoking action \"'' @ action_toString (b_action b) @ ''\"'', en_error = e,
      en_detail =
        [(''identifier'', DIdentifier (sc_identifier (ct_scope cs (b_context b)))),
         (''controller'', DController (b_context b)), (''element'', DElement (sc_element (ct_scope cs (b_context b)))),
         (''index'', DIndex (a_index (b_action b))), (''event'', DEvent event)]\<rparr>)"

lemma merged_detail:
  "assign_detail [(''identifier'', i), (''controller'', c), (''element'', e)]
     [(''identifier'', i'), (''controller'', c'), (''element'', e'), (''index'', k), (''event'', v)] =
   [(''identifier'', i'), (''controller'', c'), (''element'', e'), (''index'', k), (''event'', v)]"
  by (simp add: assign_detail_def)

lemma handle_error_report:
  "handle_error (event_environment cs event) b e s =
     s\<lparr>ds_console := ds_console s @ [report cs event (b, e)]\<rparr>"
  by (simp add: event_environment_def context_handleError_def application_handleError_def invocation_detail_def
      merged_detail report_def binding_index_def Let_def)

text \<open>The state of a dispatch whose event is extended.\<close>

definition dispatch_state :: "event_target \<Rightarrow> console_entry list \<Rightarrow> bool \<times> 'u \<Rightarrow> 'u dispatch" where
  "dispatch_state event console = (\<lambda>(stopped, u).
     \<lparr>ds_event = \<lparr>de_target = event, de_stopped = Some stopped, de_native = stopped\<rparr>,
      ds_console = console, ds_user = u\<rparr>)"

lemma handled_binding:
  "binding_handleEvent (event_environment cs event) event b (dispatch_state event console (False, u)) =
     (if concerns cs event b then
        (case outcome cs event b u of
           (error, stops, u') \<Rightarrow>
             dispatch_state event
               (console @ (case error of None \<Rightarrow> [] | Some e \<Rightarrow> [report cs event (b, e)])) (stops, u'))
      else dispatch_state event console (False, u))"
  unfolding binding_handleEvent_def invokeWithEvent_def handle_error_report
  by (auto simp: concerns_def outcome_def event_environment_def run_method_def dispatch_state_def
      stopImmediatePropagation_def split: option.splits prod.splits)

lemma handled_bindings:
  "run_bindings (event_environment cs event) event bs (dispatch_state event console (False, u)) =
     (case run_all cs event bs u of
        (failed, rest) \<Rightarrow> dispatch_state event (console @ map (report cs event) failed) rest)"
proof (induction bs arbitrary: console u)
  case Nil
  then show ?case by simp
next
  case (Cons b bs)
  have going: "\<not> propagation_stopped (event_environment cs event) (dispatch_state event console (False, u))"
    for console u
    by (simp add: event_environment_def dispatch_state_def)
  have stopped: "run_bindings (event_environment cs event) event bs (dispatch_state event console (True, u)) =
      dispatch_state event console (True, u)" for console u
    by (cases bs) (simp_all add: event_environment_def dispatch_state_def)
  obtain error stops u' where out: "outcome cs event b u = (error, stops, u')" by (cases "outcome cs event b u")
  obtain later rest where tail: "run_all cs event bs u' = (later, rest)" by (metis surj_pair)
  show ?case
    using out tail going Cons.IH stopped
    by (cases stops; cases error; cases rest) (simp_all add: handled_binding Let_def)
qed

lemma handled_listener:
  "listener_handleEvent cs l (dispatch_state event console (False, u)) =
     (case run_all cs event (ls_bindings l) u of
        (failed, rest) \<Rightarrow> dispatch_state event (console @ map (report cs event) failed) rest)"
  "listener_handleEvent cs l \<lparr>ds_event = new_event event, ds_console = console, ds_user = u\<rparr> =
     (case run_all cs event (ls_bindings l) u of
        (failed, rest) \<Rightarrow> dispatch_state event (console @ map (report cs event) failed) rest)"
  using handled_bindings [of cs event "ls_bindings l" console u]
  by (simp_all add: listener_handleEvent_def ls_handleEvent_def dispatch_state_def extendEvent_def new_event_def Let_def)

lemma run_all_append:
  "run_all cs event (bs @ bs') u =
     (case run_all cs event bs u of
        (failed, stopped, u') \<Rightarrow>
          if stopped then (failed, True, u')
          else (case run_all cs event bs' u' of (later, rest) \<Rightarrow> (failed @ later, rest)))"
  by (induction bs arbitrary: u) (auto simp: Let_def split: prod.splits option.splits)

lemma delivered:
  "deliver_event cs ls (dispatch_state event console (False, u)) =
     (case run_all cs event (concat (map ls_bindings ls)) u of
        (failed, rest) \<Rightarrow> dispatch_state event (console @ map (report cs event) failed) rest)"
proof (induction ls arbitrary: console u)
  case Nil
  then show ?case by simp
next
  case (Cons l ls)
  have stopped: "deliver_event cs ls (dispatch_state event console (True, u)) = dispatch_state event console (True, u)"
    for console u
    by (cases ls) (simp_all add: dispatch_state_def)
  have going: "\<not> de_native (ds_event (dispatch_state event console (False, u)))" by (simp add: dispatch_state_def)
  obtain failed st u' where first: "run_all cs event (ls_bindings l) u = (failed, st, u')"
    by (cases "run_all cs event (ls_bindings l) u")
  obtain later rest where tail: "run_all cs event (concat (map ls_bindings ls)) u' = (later, rest)" by (metis surj_pair)
  show ?case
    using first tail going Cons.IH stopped
    by (cases st) (simp_all add: handled_listener run_all_append)
qed

lemma deliver_new_event:
  "deliver_event cs ls \<lparr>ds_event = new_event event, ds_console = console, ds_user = u\<rparr> =
     (case run_all cs event (concat (map ls_bindings ls)) u of
        (failed, stopped, u') \<Rightarrow>
          \<lparr>ds_event = \<lparr>de_target = event, de_stopped = (if ls = [] then None else Some stopped), de_native = stopped\<rparr>,
           ds_console = console @ map (report cs event) failed, ds_user = u'\<rparr>)"
proof (cases ls)
  case Nil
  then show ?thesis by (simp add: new_event_def)
next
  case (Cons l rest)
  obtain failed st u' where first: "run_all cs event (ls_bindings l) u = (failed, st, u')"
    by (cases "run_all cs event (ls_bindings l) u")
  have stopped: "deliver_event cs rest (dispatch_state event c (True, v)) = dispatch_state event c (True, v)" for c v
    by (cases rest) (simp_all add: dispatch_state_def)
  have "\<not> de_native (new_event event)" by (simp add: new_event_def)
  then have "deliver_event cs ls \<lparr>ds_event = new_event event, ds_console = console, ds_user = u\<rparr> =
      deliver_event cs rest (dispatch_state event (console @ map (report cs event) failed) (st, u'))"
    by (simp add: Cons handled_listener first)
  also have "\<dots> = (case run_all cs event (concat (map ls_bindings ls)) u of
      (failed, rest) \<Rightarrow> dispatch_state event (console @ map (report cs event) failed) rest)"
    by (cases st) (simp_all add: Cons run_all_append first delivered stopped split: prod.splits)
  finally show ?thesis by (simp add: Cons dispatch_state_def split: prod.splits)
qed

section \<open>The bindings of an event on a live page\<close>

text \<open>No event name with a colon: those share listeners that are not theirs (\<open>cacheKey_ambiguous\<close>).\<close>

definition plain_name :: "jsstr \<Rightarrow> (jsstr, bool) jsmap \<Rightarrow> bool" where
  "plain_name name options \<longleftrightarrow> CHR '':'' \<notin> set name \<and> options_ok options"

definition plain_listener :: "event_listener \<Rightarrow> bool" where
  "plain_listener l \<longleftrightarrow>
     plain_name (ls_name l) (ls_options l) \<and>
     list_all (\<lambda>b. plain_name (binding_eventName b) (binding_eventOptions b)) (ls_unordered l)"

lemma plain_listener_name:
  assumes "dp_wf d" and "find_listener d t key = Some l" and "plain_listener l" and "b \<in> set (ls_unordered l)"
  shows "binding_eventName b = ls_name l"
proof -
  have "cacheKey (ls_name l) (ls_options l) = key" "binding_key b = key"
    using assms(1,2,4) unfolding dp_wf_def by blast+
  then have key: "cacheKey (ls_name l) (ls_options l) = cacheKey (binding_eventName b) (binding_eventOptions b)"
    by (simp add: binding_key_def)
  have "plain_name (ls_name l) (ls_options l)" "plain_name (binding_eventName b) (binding_eventOptions b)"
    using assms(3,4) by (simp_all add: plain_listener_def list_all_iff)
  from cacheKey_determines [OF _ _ _ _ key] this show ?thesis by (simp add: plain_name_def)
qed

lemma bindings_of_event:
  assumes wf: "dp_wf d" and "dp_started d" and plain: "list_all plain_listener (dp_eventListeners d)"
  shows "b \<in> set (concat (map ls_bindings (dp_listening d t name))) \<longleftrightarrow>
    b \<in> dp_bindings d \<and> binding_eventTarget b = t \<and> binding_eventName b = name"
proof -
  have plain: "plain_listener l" if "find_listener d t key = Some l" for t key l
    using plain that listener_entries_iff [of d t key l] wf
    by (force simp: list_all_iff eventListeners_entries dp_wf_def)
  show ?thesis
  proof
    assume "b \<in> set (concat (map ls_bindings (dp_listening d t name)))"
    then obtain l where l: "find_listener d t (binding_key b) = Some l" "ls_name l = name" "b \<in> set (ls_unordered l)"
      unfolding listening_bindings(2) [OF wf] by blast
    then have "b \<in> set (filed d t (binding_key b))" by (simp add: filed_def)
    then show "b \<in> dp_bindings d \<and> binding_eventTarget b = t \<and> binding_eventName b = name"
      using filed_only [OF wf] plain_listener_name [OF wf l(1) plain [OF l(1)] l(3)] l(2)
      by (auto simp: dp_bindings_def)
  next
    assume b: "b \<in> dp_bindings d \<and> binding_eventTarget b = t \<and> binding_eventName b = name"
    then have "case find_listener d t (binding_key b) of None \<Rightarrow> False
        | Some l \<Rightarrow> ls_connected l \<and> ls_target l = t \<and> b \<in> set (ls_unordered l)"
      using filed_listener [OF assms(1,2), of b] by (simp add: binding_eventTarget_def split: option.splits)
    then obtain l where l: "find_listener d t (binding_key b) = Some l" "ls_connected l" "b \<in> set (ls_unordered l)"
      by (cases "find_listener d t (binding_key b)") simp_all
    with b plain_listener_name [OF wf l(1) plain [OF l(1)] l(3)]
    show "b \<in> set (concat (map ls_bindings (dp_listening d t name)))"
      unfolding listening_bindings(2) [OF wf] by auto
  qed
qed

section \<open>What an event on a live page calls\<close>

text \<open>
  The number of the context of a module and scope, and the scope of a context. The methods of the
  controllers write down that they were called and may throw; \<open>answers\<close> has no entry for a
  method that does not exist. \<open>within\<close> and \<open>inside\<close> are \<open>contains\<close> of an element and
  \<open>containsElement\<close> of a scope.
\<close>

definition context_of :: "live \<Rightarrow> nat \<Rightarrow> scope \<Rightarrow> nat" where
  "context_of lv n s = (case map_get (lv_contexts lv) (n, s) of Some (i, ob) \<Rightarrow> i | None \<Rightarrow> 0)"

definition context_key :: "live \<Rightarrow> nat \<Rightarrow> nat \<times> scope" where
  "context_key lv i =
     (case find (\<lambda>(key, j, ob). j = i) (lv_contexts lv) of
        Some (key, j, ob) \<Rightarrow> key
      | None \<Rightarrow> (0, \<lparr>sc_element = 0, sc_identifier = []\<rparr>))"

definition live_scope :: "live \<Rightarrow> nat \<Rightarrow> scope" where
  "live_scope lv i = snd (context_key lv i)"

definition recorder ::
  "live \<Rightarrow> (nat \<Rightarrow> nat \<Rightarrow> bool) \<Rightarrow> (scope \<Rightarrow> nat \<Rightarrow> bool) \<Rightarrow> (nat \<Rightarrow> jsstr \<Rightarrow> js_error option option) \<Rightarrow>
     (nat \<times> jsstr) list controllers" where
  "recorder lv within inside answers =
     \<lparr>ct_scope = live_scope lv, ct_contains = within, ct_containsElement = (\<lambda>i. inside (live_scope lv i)),
      ct_method = (\<lambda>i name. map_option (\<lambda>r event log. (r, False, log @ [(i, name)])) (answers i name))\<rparr>"

text \<open>
  Which events concern an action: those of the element of its controller; those from below it, if
  the innermost controller of that name around the event is this one; and all others, such as
  those of the window, if that holds of the element of the action.
\<close>

definition reaches :: "(nat \<Rightarrow> nat \<Rightarrow> bool) \<Rightarrow> (scope \<Rightarrow> nat \<Rightarrow> bool) \<Rightarrow> event_target \<Rightarrow> scope \<Rightarrow> action \<Rightarrow> bool" where
  "reaches within inside event s a \<longleftrightarrow>
     event = Element (sc_element s) \<or>
     (\<exists>e. event = Element e \<and> within (sc_element s) e \<and> inside s e) \<or>
     ((\<nexists>e. event = Element e \<and> within (sc_element s) e) \<and> inside s (a_element a))"

lemma concerns_reaches:
  "concerns (recorder lv within inside answers) event b \<longleftrightarrow>
     reaches within inside event (live_scope lv (b_context b)) (b_action b)"
  by (cases event) (auto simp: concerns_def willBeInvokedByEvent_def event_environment_def recorder_def reaches_def Let_def)

lemma context_key_entry:
  assumes "live_inv elem st docs log lv" and "map_get (lv_contexts lv) (n, s) = Some (i, ob)"
  shows "context_key lv i = (n, s)" and "context_of lv n s = i"
proof -
  have "find (\<lambda>(key, j, ob). j = i) (lv_contexts lv) \<noteq> None"
    using map_of_SomeD [OF assms(2)] by (auto simp: find_None_iff)
  then obtain n' s' j ob' where f: "find (\<lambda>(key, j, ob). j = i) (lv_contexts lv) = Some ((n', s'), j, ob')" by fastforce
  then have "((n', s'), j, ob') \<in> set (lv_contexts lv)" "j = i"
    by (auto simp: find_Some_iff) (metis nth_mem)
  with live_invD(2) [OF assms(1)] have "map_get (lv_contexts lv) (n', s') = Some (i, ob')" by simp
  with live_invD(4) [OF assms(1) assms(2)] have "(n, s) = (n', s')" by blast
  with f show "context_key lv i = (n, s)" by (simp add: context_key_def)
  show "context_of lv n s = i" using assms(2) by (simp add: context_of_def)
qed

lemma run_all_recorder:
  fixes answers defines "ans \<equiv> \<lambda>b. answers (b_context b) (binding_methodName b)"
  shows "case run_all (recorder lv within inside answers) event bs log of (failed, stopped, log') \<Rightarrow>
     \<not> stopped \<and>
     log' = log @ map (\<lambda>b. (b_context b, binding_methodName b))
       (filter (\<lambda>b. ans b \<noteq> None) (filter (concerns (recorder lv within inside answers) event) bs)) \<and>
     map fst failed = filter (\<lambda>b. ans b \<noteq> Some None) (filter (concerns (recorder lv within inside answers) event) bs)"
proof (induction bs arbitrary: log)
  case (Cons b bs)
  show ?case
    using Cons [of log] Cons [of "log @ [(b_context b, binding_methodName b)]"]
    by (auto simp: outcome_def recorder_def [of lv within inside answers] ans_def Let_def split: prod.splits option.splits)
qed simp

lemma bound_actions:
  assumes "synced elem root now lv" and "list_all plain_listener (dp_eventListeners (lv_dispatcher lv))"
  shows "{(n, s, b_action b) | n s ob b. b \<in> set (concat (map ls_bindings (dp_listening (lv_dispatcher lv) t name))) \<and>
      map_get (lv_contexts lv) (n, s) = Some (b_context b, ob)} =
    {(n, s, a) | n s a. map_option m_id (map_get (rt_modules (app_router (lv_app lv))) (sc_identifier s)) = Some n \<and>
      sc_element s \<in> set (subtree now root) \<and>
      sc_identifier s \<in> set (attribute_words controller_attribute now (sc_element s)) \<and>
      declares elem now s a \<and> a_eventTarget a = t \<and> a_eventName a = name}" (is "?bound = _")
proof -
  have wf: "dp_wf (lv_dispatcher lv)" and started: "dp_started (lv_dispatcher lv)"
    using assms(1) by (simp_all add: synced_def live_inv_def)
  have "?bound =
      {x \<in> {(n, s, b_action b) | n s ob b. b \<in> dp_bindings (lv_dispatcher lv) \<and>
         map_get (lv_contexts lv) (n, s) = Some (b_context b, ob)}.
       a_eventTarget (snd (snd x)) = t \<and> a_eventName (snd (snd x)) = name}"
    unfolding bindings_of_event [OF wf started assms(2)]
    by (auto simp: binding_eventTarget_def binding_eventName_def simp del: map_of_eq_Some_iff)
  then show ?thesis unfolding live_bindings [OF assms(1)] by auto
qed

text \<open>
  Where a binding belongs: the module and scope of its context, and its action. Each binding of
  the listeners of an event has a place of its own, so its context and method can be read off the
  place.
\<close>

definition place :: "live \<Rightarrow> binding \<Rightarrow> nat \<times> scope \<times> action" where
  "place lv b = (fst (context_key lv (b_context b)), snd (context_key lv (b_context b)), b_action b)"

definition bound :: "live \<Rightarrow> event_target \<Rightarrow> jsstr \<Rightarrow> binding list" where
  "bound lv t name = concat (map ls_bindings (dp_listening (lv_dispatcher lv) t name))"

lemma place_of_binding:
  assumes "synced elem root now lv" and "list_all plain_listener (dp_eventListeners (lv_dispatcher lv))"
    and "b \<in> set (bound lv t name)"
  shows "\<exists>n s ob. map_get (lv_contexts lv) (n, s) = Some (b_context b, ob) \<and> place lv b = (n, s, b_action b) \<and>
    context_of lv n s = b_context b \<and> live_scope lv (b_context b) = s"
    and "b \<in> dp_bindings (lv_dispatcher lv)"
proof -
  from assms(1) have inv: "live_inv elem True (\<lambda>_. now) (log_of lv) lv" by (simp add: synced_def)
  then have "dp_started (lv_dispatcher lv)" by (simp add: live_inv_def)
  from bindings_of_event [OF live_invD(1) [OF inv] this assms(2)] assms(3)
  show held: "b \<in> dp_bindings (lv_dispatcher lv)" unfolding bound_def by blast
  from live_invD(5) [OF inv this] obtain n s ob where "map_get (lv_contexts lv) (n, s) = Some (b_context b, ob)" by auto
  then show "\<exists>n s ob. map_get (lv_contexts lv) (n, s) = Some (b_context b, ob) \<and>
      place lv b = (n, s, b_action b) \<and> context_of lv n s = b_context b \<and> live_scope lv (b_context b) = s"
    using context_key_entry [OF inv \<open>map_get (lv_contexts lv) (n, s) = Some (b_context b, ob)\<close>]
    by (intro exI [of _ n] exI [of _ s] exI [of _ ob]) (simp add: place_def live_scope_def del: map_of_eq_Some_iff)
qed

lemma places_distinct:
  assumes "synced elem root now lv" and "list_all plain_listener (dp_eventListeners (lv_dispatcher lv))"
    and "\<And>e. el_id (elem e) = e"
  shows "distinct (map (place lv) (filter P (bound lv t name)))"
proof -
  note held = place_of_binding [OF assms(1,2)]
  have "inj_on (place lv) (set (bound lv t name))"
  proof (rule inj_onI)
    fix b b' assume b: "b \<in> set (bound lv t name)" "b' \<in> set (bound lv t name)" and same: "place lv b = place lv b'"
    then have "b_context b = b_context b'" "b_action b = b_action b'"
      using held(1) [OF b(1)] held(1) [OF b(2)] by (metis Pair_inject)+
    then show "b = b'" using live_binding_unique [OF assms(1,3) held(2) [OF b(1)] held(2) [OF b(2)]] by simp
  qed
  moreover have "distinct (bound lv t name)"
    using listening_bindings(1) assms(1) by (simp add: bound_def synced_def live_inv_def)
  ultimately show ?thesis by (simp add: distinct_map inj_on_def)
qed

lemma concerned_places:
  assumes "synced elem root now lv" and "list_all plain_listener (dp_eventListeners (lv_dispatcher lv))"
  shows "place lv ` {b \<in> set (bound lv t name). concerns (recorder lv within inside answers) event b} =
    {(n, s, a) | n s a. map_option m_id (map_get (rt_modules (app_router (lv_app lv))) (sc_identifier s)) = Some n \<and>
      sc_element s \<in> set (subtree now root) \<and>
      sc_identifier s \<in> set (attribute_words controller_attribute now (sc_element s)) \<and>
      declares elem now s a \<and> a_eventTarget a = t \<and> a_eventName a = name \<and> reaches within inside event s a}"
    (is "?places = ?declared")
proof -
  from assms(1) have inv: "live_inv elem True (\<lambda>_. now) (log_of lv) lv" by (simp add: synced_def)
  note found = place_of_binding(1) [OF assms, of _ t name]
  have "(n, s, a) \<in> ?places \<longleftrightarrow>
      (n, s, a) \<in> {(n, s, b_action b) | n s ob b. b \<in> set (bound lv t name) \<and>
        map_get (lv_contexts lv) (n, s) = Some (b_context b, ob)} \<and> reaches within inside event s a" for n s a
  proof
    assume "(n, s, a) \<in> ?places"
    then obtain b where "b \<in> set (bound lv t name)" "(n, s, a) = place lv b" "reaches within inside event (live_scope lv (b_context b)) (b_action b)"
      unfolding concerns_reaches by blast
    moreover from found [OF this(1)] obtain ob n' s' where "map_get (lv_contexts lv) (n', s') = Some (b_context b, ob)"
      "place lv b = (n', s', b_action b)" "live_scope lv (b_context b) = s'" by blast
    ultimately show "(n, s, a) \<in> {(n, s, b_action b) | n s ob b. b \<in> set (bound lv t name) \<and>
        map_get (lv_contexts lv) (n, s) = Some (b_context b, ob)} \<and> reaches within inside event s a" by simp blast
  next
    assume "(n, s, a) \<in> {(n, s, b_action b) | n s ob b. b \<in> set (bound lv t name) \<and>
        map_get (lv_contexts lv) (n, s) = Some (b_context b, ob)} \<and> reaches within inside event s a"
    then obtain b ob where b: "a = b_action b" "b \<in> set (bound lv t name)"
        "map_get (lv_contexts lv) (n, s) = Some (b_context b, ob)" "reaches within inside event s a" by blast
    from context_key_entry(1) [OF inv b(3)] b(1) have "place lv b = (n, s, a)" "live_scope lv (b_context b) = s"
      by (simp_all add: place_def live_scope_def)
    with b show "(n, s, a) \<in> ?places" unfolding concerns_reaches by (metis (mono_tags, lifting) image_eqI mem_Collect_eq)
  qed
  note iff = this [unfolded bound_actions [OF assms, of t name, folded bound_def]]
  show ?thesis
  proof (rule set_eqI)
    fix x :: "nat \<times> scope \<times> action"
    obtain n s a where "x = (n, s, a)" by (cases x)
    then show "x \<in> ?places \<longleftrightarrow> x \<in> ?declared" by (simp only: iff mem_Collect_eq) blast
  qed
qed

lemma recorded_calls:
  fixes lv within inside answers event t name
  defines "ans \<equiv> \<lambda>b. answers (b_context b) (binding_methodName b)"
    and "heard \<equiv> filter (concerns (recorder lv within inside answers) event) (bound lv t name)"
    and "final \<equiv> deliver_event (recorder lv within inside answers) (dp_listening (lv_dispatcher lv) t name)
         \<lparr>ds_event = new_event event, ds_console = [], ds_user = []\<rparr>"
  shows "ds_user final = map (\<lambda>b. (b_context b, binding_methodName b)) (filter (\<lambda>b. ans b \<noteq> None) heard)"
    and "length (ds_console final) = length (filter (\<lambda>b. ans b \<noteq> Some None) heard)"
proof -
  obtain failed stopped log where run: "run_all (recorder lv within inside answers) event (bound lv t name) [] = (failed, stopped, log)"
    by (cases "run_all (recorder lv within inside answers) event (bound lv t name) []")
  with run_all_recorder [where lv = lv and within = within and inside = inside and answers = answers and event = event
      and bs = "bound lv t name" and log = "[]"]
  have "log = map (\<lambda>b. (b_context b, binding_methodName b)) (filter (\<lambda>b. ans b \<noteq> None) heard)"
    and "map fst failed = filter (\<lambda>b. ans b \<noteq> Some None) heard"
    by (simp_all add: ans_def heard_def)
  moreover from this(2) have "length failed = length (filter (\<lambda>b. ans b \<noteq> Some None) heard)" by (metis length_map)
  ultimately show "ds_user final = map (\<lambda>b. (b_context b, binding_methodName b)) (filter (\<lambda>b. ans b \<noteq> None) heard)"
    and "length (ds_console final) = length (filter (\<lambda>b. ans b \<noteq> Some None) heard)"
    unfolding final_def deliver_new_event run [unfolded bound_def] by simp_all
qed

lemma filter_places:
  assumes "synced elem root now lv" and "list_all plain_listener (dp_eventListeners (lv_dispatcher lv))"
  shows "filter (\<lambda>(n, s, a). P (context_of lv n s) (a_methodName a)) (map (place lv) (filter Q (bound lv t name))) =
      map (place lv) (filter (\<lambda>b. P (b_context b) (binding_methodName b)) (filter Q (bound lv t name)))" (is ?filtered)
    and "map (\<lambda>(n, s, a). (context_of lv n s, a_methodName a)) (map (place lv) (filter R (filter Q (bound lv t name)))) =
      map (\<lambda>b. (b_context b, binding_methodName b)) (filter R (filter Q (bound lv t name)))" (is ?mapped)
proof -
  show ?filtered
    unfolding filter_map comp_def
    by (rule arg_cong [of _ _ "map (place lv)"], rule filter_cong [OF refl])
      (use place_of_binding(1) [OF assms, of _ t name] in \<open>fastforce simp: binding_methodName_def\<close>)
  show ?mapped
    using place_of_binding(1) [OF assms, of _ t name] by (fastforce simp: binding_methodName_def)
qed

section \<open>Properties\<close>

text \<open>
  C22. An event runs the bindings of its listeners as one list. The listeners that share the
  event hand it to their bindings in order, until a method stops the immediate propagation:
  then no binding of this or of a later listener is called. A method that throws, or that
  does not exist, stops nothing; the console gets exactly one entry for it, in order, which
  names the action and carries the identifier, controller and element of its context, its
  index and the event.
\<close>

theorem event_runs_bindings_once:
  "deliver_event cs ls \<lparr>ds_event = new_event event, ds_console = console, ds_user = u\<rparr> =
     (case run_all cs event (concat (map ls_bindings ls)) u of
        (failed, stopped, u') \<Rightarrow>
          \<lparr>ds_event = \<lparr>de_target = event, de_stopped = (if ls = [] then None else Some stopped), de_native = stopped\<rparr>,
           ds_console = console @ map (report cs event) failed, ds_user = u'\<rparr>)"
  by (rule deliver_new_event)

text \<open>
  C1. An event calls exactly the declared actions. On a page with any history as in
  \<open>actions_follow_document\<close>, let an event with a name and a target arrive at a node \<open>t\<close> on its
  way, and let methods record their calls and throw or not, but stop nothing. If every
  listener has a plain name and options (no colon in an event name, see \<open>cacheKey_ambiguous\<close>),
  then delivering the event to the listeners of \<open>t\<close> calls, each once, the methods of the
  actions with this target and name that the current document declares below its connected
  controllers and that the event concerns (\<open>reaches\<close>), in the contexts of these
  controllers, where the method exists; and the console gets one entry for each of them
  whose method throws or is missing.
\<close>

theorem events_reach_declared_actions:
  assumes "list_all registering before" and "dom_ok root dm" and "live_follows root dm after"
    and "live_run elem root blank (before @ Begin dm # after) = (now, lv)"
    and "list_all plain_listener (dp_eventListeners (lv_dispatcher lv))"
    and "\<And>e. el_id (elem e) = e"
  shows "\<exists>xs. distinct xs \<and>
    set xs = {(n, s, a) | n s a. map_option m_id (map_get (rt_modules (app_router (lv_app lv))) (sc_identifier s)) = Some n \<and>
      sc_element s \<in> set (subtree now root) \<and>
      sc_identifier s \<in> set (attribute_words controller_attribute now (sc_element s)) \<and>
      declares elem now s a \<and> a_eventTarget a = t \<and> a_eventName a = name \<and> reaches within inside event s a} \<and>
    (let final = deliver_event (recorder lv within inside answers) (dp_listening (lv_dispatcher lv) t name)
         \<lparr>ds_event = new_event event, ds_console = [], ds_user = []\<rparr>
     in ds_user final = map (\<lambda>(n, s, a). (context_of lv n s, a_methodName a))
          (filter (\<lambda>(n, s, a). answers (context_of lv n s) (a_methodName a) \<noteq> None) xs) \<and>
        length (ds_console final) =
          length (filter (\<lambda>(n, s, a). answers (context_of lv n s) (a_methodName a) \<noteq> Some None) xs))"
proof -
  have synced: "synced elem root now lv" using live_run_synced [OF assms(1-3), of elem blank] assms(4) by simp
  note placed = filter_places [OF synced assms(5)]
  let ?xs = "map (place lv) (filter (concerns (recorder lv within inside answers) event) (bound lv t name))"
  show ?thesis
  proof (intro exI [of _ ?xs] conjI places_distinct [OF synced assms(5,6)])
    show "set ?xs = {(n, s, a) | n s a.
        map_option m_id (map_get (rt_modules (app_router (lv_app lv))) (sc_identifier s)) = Some n \<and>
        sc_element s \<in> set (subtree now root) \<and>
        sc_identifier s \<in> set (attribute_words controller_attribute now (sc_element s)) \<and>
        declares elem now s a \<and> a_eventTarget a = t \<and> a_eventName a = name \<and> reaches within inside event s a}"
      unfolding concerned_places [OF synced assms(5), symmetric, where answers = answers] by simp
  qed (simp only: Let_def recorded_calls placed(1) [where P = "\<lambda>i m. answers i m \<noteq> None"]
      placed(1) [where P = "\<lambda>i m. answers i m \<noteq> Some None"] placed(2) length_map simp_thms)
qed

lemma events_reach_declared_actions_witness:
  "\<exists>n. (context_of live_lv n \<lparr>sc_element = 7, sc_identifier = ''tab''\<rparr>, ''on'') \<in>
     set (ds_user (deliver_event (recorder live_lv (\<lambda>_ _. True) (\<lambda>_ _. True) (\<lambda>_ _. Some None))
       (dp_listening (lv_dispatcher live_lv) (Element 8) ''click'')
       \<lparr>ds_event = new_event (Element 8), ds_console = [], ds_user = []\<rparr>))"
proof -
  have plain: "list_all plain_listener (dp_eventListeners (lv_dispatcher live_lv))" by code_simp
  have ids: "el_id (sample_elem e) = e" for e by (simp add: sample_elem_def)
  obtain n where n: "map_option m_id (map_get (rt_modules (app_router (lv_app live_lv))) ''tab'') = Some n"
    using live_sample(4) by auto
  have reaches: "reaches (\<lambda>_ _. True) (\<lambda>_ _. True) (Element 8) s a" for s a by (simp add: reaches_def)
  let ?final = "deliver_event (recorder live_lv (\<lambda>_ _. True) (\<lambda>_ _. True) (\<lambda>_ _. Some None))
       (dp_listening (lv_dispatcher live_lv) (Element 8) ''click'')
       \<lparr>ds_event = new_event (Element 8), ds_console = [], ds_user = []\<rparr>"
  have "a_eventTarget live_open = Element 8" "a_eventName live_open = ''click''" by (simp_all add: live_open_def)
  then have "\<exists>xs. (n, \<lparr>sc_element = 7, sc_identifier = ''tab''\<rparr>, live_open) \<in> set xs \<and>
      ds_user ?final = map (\<lambda>(n, s, a). (context_of live_lv n s, a_methodName a)) xs"
    using events_reach_declared_actions [OF live_sample(1,2) live_after_follows live_sample(3) plain ids,
        where t = "Element 8" and name = "''click''" and within = "\<lambda>_ _. True" and inside = "\<lambda>_ _. True"
          and event = "Element 8" and answers = "\<lambda>_ _. Some None"] n live_sample(5,6) reaches
    by (elim exE conjE, intro exI conjI) (simp_all add: Let_def del: One_nat_def)
  then obtain xs where xs: "(n, \<lparr>sc_element = 7, sc_identifier = ''tab''\<rparr>, live_open) \<in> set xs"
    and calls: "ds_user ?final = map (\<lambda>(n, s, a). (context_of live_lv n s, a_methodName a)) xs" by blast
  have "(context_of live_lv n \<lparr>sc_element = 7, sc_identifier = ''tab''\<rparr>, ''on'') \<in> set (ds_user ?final)"
    unfolding calls using xs by (force simp: live_open_def)
  then show ?thesis by blast
qed

end
