(* ===== verification/Stimulus_Restart.thy ===== *)
theory Stimulus_Restart
  imports Stimulus_Live
begin

text \<open>
  Stopping the observers and starting them again. Records are dropped on the way, and the
  refresh at the start compares which elements match, but does not read the attribute of an
  element that matched before and still does. So the observers come back as if those
  elements had kept their attribute (\<open>restart_view\<close>), and stay behind the document.
\<close>

section \<open>The document as a restarted observer sees it\<close>

definition restart_view :: "jsstr \<Rightarrow> nat \<Rightarrow> dom \<Rightarrow> dom \<Rightarrow> dom" where
  "restart_view name root old new =
     new\<lparr>getAttr := (\<lambda>e n. if listed name root old e \<and> listed name root new e then getAttr old e n
                            else getAttr new e n)\<rparr>"

lemma restart_view_simps [simp]:
  "contained (restart_view name root old new) = contained new" "subtree (restart_view name root old new) = subtree new"
  "listed name root (restart_view name root old new) e = listed name root new e"
  by (auto simp: restart_view_def listed_def)

lemma fold_skip: "fold (\<lambda>x s. if x \<in> A then s else f x s) xs = fold f (filter (\<lambda>x. x \<notin> A) xs)"
  by (induction xs) (auto simp: fun_eq_iff)

lemma set_fold_add: "set (fold set_add xs ys) = set xs \<union> set ys"
  by (induction xs arbitrary: ys) auto

lemma addElement_same_attribute:
  assumes "x \<in> set (eo_elements ob) \<or> getAttr dm x name = getAttr dm' x name" and "contained dm = contained dm'"
  shows "addElement (attribute_observer T name) dm x ob = addElement (attribute_observer T name) dm' x ob"
  using assms by (auto simp: addElement_def attribute_observer_def elementMatchedAttribute_def readTokensForElement_def)

lemma fold_addElement_same_attribute:
  assumes "\<And>x. x \<in> set xs \<Longrightarrow> x \<in> set (eo_elements ob) \<or> getAttr dm x name = getAttr dm' x name"
    and "contained dm = contained dm'"
  shows "fold (addElement (attribute_observer T name) dm) xs ob = fold (addElement (attribute_observer T name) dm') xs ob"
  using assms(1)
proof (induction xs arbitrary: ob)
  case (Cons x xs)
  let ?ob = "addElement (attribute_observer T name) dm x ob"
  have "addElement (attribute_observer T name) dm' x ob = ?ob"
    using addElement_same_attribute [OF _ assms(2), of x ob] Cons.prems by simp
  moreover have "set (eo_elements ob) \<subseteq> set (eo_elements ?ob)" by (auto simp: addElement_def)
  then have "fold (addElement (attribute_observer T name) dm) xs ?ob =
      fold (addElement (attribute_observer T name) dm') xs ?ob"
    using Cons.prems by (intro Cons.IH) auto
  ultimately show ?case by simp
qed simp

context token_delegate_laws
begin

lemma restart_mirrors:
  assumes ok: "attribute.eo_ok ob" and started: "eo_started ob" and root: "eo_root ob = root"
    and mirror: "mirrors name root dm ob" and dom: "dom_ok root dm'"
  shows "mirrors name root (restart_view name root dm dm') (eo_start (tracking name) dm' (eo_stop ob))"
proof -
  let ?view = "restart_view name root dm dm'"
  let ?matches = "fold set_add (matchElementsInTree (tracking name) dm' root) []"
  let ?gone = "filter (\<lambda>e. e \<notin> set ?matches) (eo_elements ob)"
  let ?kept = "fold (removeElement (tracking name)) ?gone ob"
  have same: "ob\<lparr>eo_started := True\<rparr> = ob" using started by simp
  have start: "eo_start (tracking name) dm' (eo_stop ob) = fold (addElement (tracking name) dm') ?matches ?kept"
    using started root by (simp add: eo_start_def eo_stop_def eo_refresh_def fold_skip same Let_def)
  have matches: "e \<in> set ?matches \<longleftrightarrow> listed name root dm' e" for e
    unfolding set_fold_add by (auto simp: listed_def attribute_observer_def)
  have was: "e \<in> set (eo_elements ob) \<longleftrightarrow> listed name root dm e" and f: "fresh name dm e ob" for e
    using mirror by (simp_all add: mirrors_def)
  note removed = fold_remove_view [OF ok, where name = name and xs = ?gone]
  have kept: "e \<in> set (eo_elements ?kept) \<longleftrightarrow> listed name root dm e \<and> listed name root dm' e" for e
    using removed(2) [of e] was matches by auto
  have "fresh name ?view e ?kept" for e
  proof (cases "listed name root dm e \<and> listed name root dm' e")
    case True
    then have "attribute_words name ?view e = attribute_words name dm e"
      by (simp add: attribute_words_def restart_view_def)
    then have "fresh name ?view e ob = fresh name dm e ob" by (simp add: fresh_def)
    then show ?thesis using removed(3) [of ?view e] f by simp
  next
    case False
    then show ?thesis using kept [of e] by (auto simp: fresh_def)
  qed
  moreover have "x \<in> set (eo_elements ?kept) \<or> getAttr dm' x name = getAttr ?view x name" for x
    using kept by (simp add: restart_view_def)
  then have add: "fold (addElement (tracking name) dm') ?matches ?kept = fold (addElement (tracking name) ?view) ?matches ?kept"
    by (intro fold_addElement_same_attribute) simp_all
  note added = fold_add_view [OF removed(1), where name = name and dm = ?view and xs = ?matches]
  have "e \<in> set (eo_elements (fold (addElement (tracking name) ?view) ?matches ?kept)) \<longleftrightarrow> listed name root dm' e" for e
    using added(2) [of e] kept matches dom by (auto simp: dom_ok_def listed_def)
  ultimately show ?thesis
    unfolding start add using added(3) by (simp add: mirrors_def)
qed

end

section \<open>Restarting the router\<close>

lemma eo_root_refresh: "eo_root (eo_refresh D dm ob) = eo_root ob"
proof (cases "eo_started ob")
  case True
  then have "ob\<lparr>eo_started := True\<rparr> = ob" by simp
  then have "eo_refresh D dm ob = eo_start D dm (ob\<lparr>eo_started := False\<rparr>)" by (simp add: eo_start_def)
  then show ?thesis by (simp add: eo_call_view)
qed (simp add: eo_refresh_def)

lemma app_call_root: "eo_root (app_call c app) = eo_root app"
proof (cases c)
  case (Observe ob)
  show ?thesis
    by (cases ob) (simp_all add: Observe eo_call_view eo_stop_def eo_root_refresh)
qed (simp_all add: update_router_view)

lemma app_run_root: "eo_root (app_run root calls) = root"
  by (induction calls rule: rev_induct)
    (simp_all add: app_run_def app_call_root new_application_def new_element_observer_def)

lemma follows_started: "eo_started app \<Longrightarrow> follows root dm cs \<Longrightarrow> eo_started (fold app_call cs app)"
  by (induction root dm cs arbitrary: app rule: follows.induct)
    (simp_all add: update_router_view processMutations_started)

lemma restart_router:
  assumes "list_all registers before" and "dom_ok root dm" and "follows root dm after" and "dom_ok root dm'"
  shows "mirrors controller_attribute root (restart_view controller_attribute root (last_document dm after) dm')
    (app_run root (before @ Observe (Start dm) # after @ [Observe Stop, Observe (Start dm')]))"
proof -
  let ?calls = "before @ Observe (Start dm) # after"
  let ?app = "app_run root ?calls"
  have "eo_started (app_call (Observe (Start dm)) app)" for app by (simp add: eo_call_view)
  then have "eo_started ?app" using assms(3) by (simp add: app_run_def follows_started del: app_call.simps)
  from so.tokens.restart_mirrors [OF app_run_ok this app_run_root start_follows_mirrors [OF assms(1-3)] assms(4)]
  show ?thesis by (simp add: app_run_def controller_delegate_def)
qed

section \<open>Properties\<close>

text \<open>
  C34. A restart misses what changed meanwhile. The application is started, follows its
  document, is stopped and started again on a changed document. Then the connected contexts
  are those of the elements that have a controller attribute now; but where the element had
  one before, too, they are those that the old value of the attribute names.
\<close>

theorem restart_keeps_old_names:
  assumes "list_all registers before" and "dom_ok root dm" and "follows root dm after" and "dom_ok root dm'"
  shows "let calls = before @ Observe (Start dm) # after @ [Observe Stop, Observe (Start dm')];
      old = last_document dm after; r = app_router (app_run root calls)
    in case map_get (rt_modules r) ident of
         None \<Rightarrow> ident \<notin> loaded_after calls
       | Some m \<Rightarrow> ident \<in> loaded_after calls \<and>
           set (m_connected m) = {\<lparr>sc_element = e, sc_identifier = ident\<rparr> | e.
             e \<in> set (subtree dm' root) \<and> getAttr dm' e controller_attribute \<noteq> None \<and>
             ident \<in> set (attribute_words controller_attribute
               (if listed controller_attribute root old e then old else dm') e)}"
proof -
  let ?old = "last_document dm after"
  let ?view = "restart_view controller_attribute root ?old dm'"
  have none: "getAttr dm' e controller_attribute = None \<Longrightarrow> attribute_words controller_attribute dm' e = []" for e
    by (simp add: attribute_words_def words_def trim_def split_ws_free)
  have view: "attribute_words controller_attribute ?view e =
      (if listed controller_attribute root ?old e \<and> listed controller_attribute root dm' e
       then attribute_words controller_attribute ?old e else attribute_words controller_attribute dm' e)" for e
    by (simp add: attribute_words_def restart_view_def)
  have "e \<in> set (subtree ?view root) \<and> ident \<in> set (attribute_words controller_attribute ?view e) \<longleftrightarrow>
      e \<in> set (subtree dm' root) \<and> getAttr dm' e controller_attribute \<noteq> None \<and>
      ident \<in> set (attribute_words controller_attribute
        (if listed controller_attribute root ?old e then ?old else dm') e)" for e
    using none [of e] by (cases "getAttr dm' e controller_attribute = None") (auto simp: view listed_def)
  with connected_in_document [OF restart_router [OF assms], of ident] show ?thesis by (simp only: Let_def)
qed

definition renamed_page :: "jsstr \<Rightarrow> dom" where
  "renamed_page w =
     \<lparr>getAttr = (\<lambda>e n. if e = 7 \<and> n = ''data-controller'' then Some w else None),
      contained = (\<lambda>e. e = 1 \<or> e = 7), subtree = (\<lambda>e. if e = 1 then [1, 7] else [e])\<rparr>"

lemma restart_keeps_old_names_witness:
  "case map_get (rt_modules (app_router (app_run 1 ([Load ''a''] @ Observe (Start (renamed_page ''a'')) # [] @
       [Observe Stop, Observe (Start (renamed_page ''b''))])))) ''a'' of
     None \<Rightarrow> False
   | Some m \<Rightarrow> set (m_connected m) = {\<lparr>sc_element = 7, sc_identifier = ''a''\<rparr>}"
proof -
  let ?calls = "[Load ''a''] @ Observe (Start (renamed_page ''a'')) # [] @ [Observe Stop, Observe (Start (renamed_page ''b''))]"
  have before: "list_all registers [Load ''a'']" by simp
  have ok: "dom_ok 1 (renamed_page w)" for w by (auto simp: dom_ok_def renamed_page_def)
  have follows: "follows 1 (renamed_page ''a'') []" by simp
  have there: "''a'' \<in> loaded_after ?calls" by (simp add: loaded_after_def)
  have "attribute_words controller_attribute (renamed_page ''a'') e = (if e = 7 then [''a''] else [])" for e
    by (cases "e = 7") (simp_all add: attribute_words_def renamed_page_def, code_simp, code_simp)
  then have "{\<lparr>sc_element = e, sc_identifier = ''a''\<rparr> | e. e \<in> set (subtree (renamed_page ''b'') 1) \<and>
      getAttr (renamed_page ''b'') e controller_attribute \<noteq> None \<and> ''a'' \<in> set (attribute_words controller_attribute
        (if listed controller_attribute 1 (renamed_page ''a'') e then renamed_page ''a'' else renamed_page ''b'') e)} =
      {\<lparr>sc_element = 7, sc_identifier = ''a''\<rparr>}"
    by (auto simp: listed_def renamed_page_def)
  with restart_keeps_old_names [OF before ok follows ok [of "''b''"], where ident = "''a''"] there show ?thesis
    by (simp del: append_Cons append_Nil add: Let_def split: option.splits)
qed

end
