(* ===== verification/Gui_Getters.thy ===== *)
theory Gui_Getters
  imports Stimulus_Live
begin

text \<open>
  The lists of contexts and controllers that \<open>Module\<close>, \<open>Router\<close> and \<open>Application\<close> of
  stimulus.js offer, and the getters by which the controllers of main.js find each other: an
  element by its id, then the controller of that name on it. The lists have every connected
  context once, and a getter finds its controller exactly when the context of the element
  with this id is connected.
\<close>

section \<open>Contexts and controllers\<close>

text \<open>A context is its module and scope, and its controller is known by the same pair.\<close>

definition module_contexts :: "module \<Rightarrow> (nat \<times> scope) list" where
  "module_contexts m = map (Pair (m_id m)) (m_connected m)"

definition router_modules :: "router \<Rightarrow> module list" where
  "router_modules r = map_values (rt_modules r)"

definition router_contexts :: "router \<Rightarrow> (nat \<times> scope) list" where
  "router_contexts r = foldl (\<lambda>contexts m. contexts @ module_contexts m) [] (router_modules r)"

definition application_controllers :: "application \<Rightarrow> (nat \<times> scope) list" where
  "application_controllers app = map (\<lambda>context. context) (router_contexts (app_router app))"

text \<open>\<open>element\<close> may be null; no context is on it then.\<close>

definition getControllerForElementAndIdentifier ::
  "application \<Rightarrow> nat option \<Rightarrow> jsstr \<Rightarrow> (nat \<times> scope) option" where
  "getControllerForElementAndIdentifier app element ident =
     (let context = (case element of
          None \<Rightarrow> None
        | Some e \<Rightarrow> getContextForElementAndIdentifier (app_router app) e ident)
      in case context of Some c \<Rightarrow> Some c | None \<Rightarrow> None)"

section \<open>The getters of main.js\<close>

text \<open>\<open>by_id\<close> is \<open>document.getElementById\<close>.\<close>

definition flash_getter :: "(jsstr \<Rightarrow> nat option) \<Rightarrow> application \<Rightarrow> (nat \<times> scope) option" where
  "flash_getter by_id app =
     (let element = by_id ''flash'' in getControllerForElementAndIdentifier app element ''flash'')"

definition peerInfo_getter :: "(jsstr \<Rightarrow> nat option) \<Rightarrow> application \<Rightarrow> (nat \<times> scope) option" where
  "peerInfo_getter by_id app =
     (let element = by_id ''peerInfo'' in getControllerForElementAndIdentifier app element ''peerInfo'')"

definition peerInfo_flash_getter :: "(jsstr \<Rightarrow> nat option) \<Rightarrow> application \<Rightarrow> (nat \<times> scope) option" where
  "peerInfo_flash_getter by_id app =
     (let element = by_id ''flash'' in getControllerForElementAndIdentifier app element ''flash'')"

definition unicast_messaging_getter :: "(jsstr \<Rightarrow> nat option) \<Rightarrow> application \<Rightarrow> (nat \<times> scope) option" where
  "unicast_messaging_getter by_id app =
     (let element = by_id ''messaging'' in getControllerForElementAndIdentifier app element ''messaging'')"

definition packets_messaging_getter :: "(jsstr \<Rightarrow> nat option) \<Rightarrow> application \<Rightarrow> (nat \<times> scope) option" where
  "packets_messaging_getter by_id app =
     getControllerForElementAndIdentifier app (by_id ''messaging'') ''messaging''"

text \<open>The getters with the name each looks for.\<close>

definition getters :: "(jsstr \<times> ((jsstr \<Rightarrow> nat option) \<Rightarrow> application \<Rightarrow> (nat \<times> scope) option)) list" where
  "getters =
     [(''flash'', flash_getter), (''peerInfo'', peerInfo_getter), (''flash'', peerInfo_flash_getter),
      (''messaging'', unicast_messaging_getter), (''messaging'', packets_messaging_getter)]"

lemma getters_lookup:
  "(name, get) \<in> set getters \<Longrightarrow> get by_id app = getControllerForElementAndIdentifier app (by_id name) name"
  by (auto simp: getters_def flash_getter_def peerInfo_getter_def peerInfo_flash_getter_def
      unicast_messaging_getter_def packets_messaging_getter_def)

section \<open>Every context is listed once\<close>

definition listed_modules :: "(jsstr, module) jsmap \<Rightarrow> bool" where
  "listed_modules ms \<longleftrightarrow> distinct (map_keys ms) \<and> (\<forall>p \<in> set ms. distinct (m_connected (snd p)))"

abbreviation listed_once :: "router \<Rightarrow> bool" where
  "listed_once r \<equiv> listed_modules (rt_modules r)"

lemma listed_get: "listed_modules ms \<Longrightarrow> map_get ms k = Some m \<Longrightarrow> distinct (m_connected m)"
  unfolding listed_modules_def by (drule map_of_SomeD) (metis snd_conv)

lemma listed_set: "listed_modules ms \<Longrightarrow> distinct (m_connected m) \<Longrightarrow> listed_modules (map_set k m ms)"
  by (simp add: listed_modules_def distinct_map_set set_map_set)

lemma listed_delete: "listed_modules ms \<Longrightarrow> listed_modules (map_delete k ms)"
  by (auto simp: listed_modules_def distinct_map_delete set_map_delete)

lemma connect_distinct:
  "distinct (m_connected m) \<Longrightarrow> connectContextForScope s (m, log) = (m', log') \<Longrightarrow> distinct (m_connected m')"
  by (auto simp: connectContextForScope_def fetchContextForScope_def Let_def split: if_splits)

lemma disconnect_distinct:
  "distinct (m_connected m) \<Longrightarrow> disconnectContextForScope s (m, log) = (m', log') \<Longrightarrow> distinct (m_connected m')"
  by (auto simp: disconnectContextForScope_def split: if_splits)

lemma fold_connect_distinct:
  "distinct (m_connected m) \<Longrightarrow> fold connectContextForScope ss (m, log) = (m', log') \<Longrightarrow> distinct (m_connected m')"
proof (induction ss arbitrary: m log)
  case (Cons s ss)
  obtain m1 log1 where c: "connectContextForScope s (m, log) = (m1, log1)" by fastforce
  from Cons.IH [OF connect_distinct [OF Cons.prems(1) c]] Cons.prems(2) c show ?case by simp
qed simp

lemma listed_scope:
  assumes "listed_once r"
  shows "listed_once (scopeConnected s r)" and "listed_once (scopeDisconnected s r)"
proof -
  have "listed_once (scopeConnected s r) \<and> listed_once (scopeDisconnected s r)"
  proof (cases "map_get (rt_modules r) (sc_identifier s)")
    case None
    then show ?thesis using assms by (simp add: scopeConnected_def scopeDisconnected_def Let_def)
  next
    case (Some m)
    obtain m1 log1 m2 log2 where c: "connectContextForScope s (m, rt_log r) = (m1, log1)"
      "disconnectContextForScope s (m, rt_log r) = (m2, log2)" by fastforce
    have d: "distinct (m_connected m)" by (rule listed_get [OF assms Some])
    show ?thesis
      using c listed_set [OF assms connect_distinct [OF d c(1)]] listed_set [OF assms disconnect_distinct [OF d c(2)]]
      unfolding scopeConnected_def scopeDisconnected_def Let_def
      by (simp del: map_of_eq_Some_iff add: Some)
  qed
  then show "listed_once (scopeConnected s r)" and "listed_once (scopeDisconnected s r)" by simp_all
qed

lemma listed_unload: "listed_once r \<Longrightarrow> listed_once (unloadIdentifier i r)"
  by (auto simp: unloadIdentifier_def disconnectModule_def Let_def split: option.splits prod.splits
      intro: listed_delete)

lemma listed_load:
  assumes "listed_once r"
  shows "listed_once (loadDefinition i r)"
proof -
  have "listed_once (connectModule (new_module n i) r')" if "listed_once r'" for n r'
    using that fold_connect_distinct [of "new_module n i"]
    by (auto simp: connectModule_def new_module_def Let_def split: prod.splits intro!: listed_set)
  then show ?thesis using listed_unload [OF assms, of i] by (simp add: loadDefinition_def Let_def)
qed

interpretation gl: value_delegate_laws scope_delegate "\<lambda>t. Some (token_scope t)" reference_count True
    "\<lambda>c. so_inv K c \<and> listed_once (so_router c)" for K
proof (rule value_delegate_laws_and [OF so.value_delegate_laws_axioms])
  fix e v and c :: scope_core
  assume "listed_once (so_router c)"
  then show "listed_once (so_router (elementMatchedValue scope_delegate e v c))"
      "listed_once (so_router (elementUnmatchedValue scope_delegate e v c))"
    by (auto simp: scope_delegate_def so_elementMatchedValue_def so_elementUnmatchedValue_def Let_def
        listed_scope split: option.splits)
next
  fix t and c :: scope_core
  assume "listed_once (so_router c)"
  then show "listed_once (so_router (snd (parseValueForToken scope_delegate t c)))"
    by (auto simp: scope_delegate_def so_parseValueForToken_def fetchScopesByIdentifierForElement_def Let_def
        split: option.splits prod.splits)
qed

lemma gl_iff: "gl.tokens.attribute.eo_ok K app \<longleftrightarrow> app_ok K app \<and> listed_once (app_router app)"
  by (auto simp: gl.tokens.attribute.eo_ok_def so.tokens.attribute.eo_ok_def gl.tokens.tower_ok_def
      so.tokens.tower_ok_def gl.tokens.tlo_ok_def so.tokens.tlo_ok_def gl.counted_def so.counted_def
      gl.parsed_ok_def so.parsed_ok_def app_router_def tower_delegate_def)

lemma listed_run: "listed_once (app_router (app_run root calls))"
proof -
  have one: "listed_once (app_router (app_call c app))" if "app_ok K app" "listed_once (app_router app)" for c app K
  proof (cases c)
    case (Observe ob)
    have "gl.tokens.attribute.eo_ok K app" using that by (simp add: gl_iff)
    then have "gl.tokens.attribute.eo_ok K (app_call c app)"
      by (simp add: Observe controller_delegate_def gl.tokens.attribute.eo_call_ok)
    then show ?thesis by (simp add: gl_iff)
  qed (use that in \<open>simp_all add: listed_load listed_unload update_router_def app_router_def
      tower_delegate_def update_delegate_def Let_def\<close>)
  show ?thesis
  proof (induction calls rule: rev_induct)
    case Nil
    show ?case
      by (simp add: app_run_def new_application_def app_router_def tower_delegate_def new_element_observer_def
          new_token_list_observer_def new_value_list_observer_def new_scope_core_def new_router_def listed_modules_def)
  next
    case (snoc c calls)
    from one [OF app_run_ok snoc.IH] show ?case by (simp add: app_run_def)
  qed
qed

text \<open>What the lists and the getters give for an application that mirrors a document.\<close>

lemma router_contexts_concat: "router_contexts r = concat (map module_contexts (router_modules r))"
proof -
  have "foldl (\<lambda>contexts m. contexts @ module_contexts m) xs ms = xs @ concat (map module_contexts ms)" for xs ms
    by (induction ms arbitrary: xs) simp_all
  then show ?thesis by (simp add: router_contexts_def)
qed

lemma controllers_listed:
  assumes ok: "app_ok K app" and listed: "listed_once (app_router app)"
  shows "distinct (application_controllers app)"
    and "(n, s) \<in> set (application_controllers app) \<longleftrightarrow> s \<in> page_scopes app \<and>
      map_option m_id (map_get (rt_modules (app_router app)) (sc_identifier s)) = Some n"
proof -
  let ?ms = "rt_modules (app_router app)"
  have keys: "distinct (map_keys ?ms)" using listed by (simp add: listed_modules_def)
  have same: "k = k'" if "map_get ?ms k = Some m" "map_get ?ms k' = Some m'" "m_id m = m_id m'" for k k' m m'
    using app_router_ok [OF ok] that unfolding router_ok_def modules_ok_def by blast
  have contexts: "(n, s) \<in> set (module_contexts m) \<longleftrightarrow> s \<in> page_scopes app \<and> sc_identifier s = k \<and> m_id m = n"
    if "map_get ?ms k = Some m" for k m n s
    using loaded_module(1) [OF ok that] by (auto simp: module_contexts_def)
  have "distinct (concat (map module_contexts (map snd xs)))"
    if "distinct (map fst xs)" "set xs \<subseteq> set ?ms" for xs
    using that
  proof (induction xs)
    case (Cons p xs)
    obtain k m where p: "p = (k, m)" by fastforce
    then have m: "map_get ?ms k = Some m" using Cons.prems(2) keys by simp
    have "distinct (module_contexts m)"
      using listed_get [OF listed m] by (simp add: module_contexts_def distinct_map inj_on_def)
    moreover have "c \<notin> set (module_contexts m')" if "c \<in> set (module_contexts m)" "(k', m') \<in> set xs" for c k' m'
    proof
      assume c: "c \<in> set (module_contexts m')"
      have m': "map_get ?ms k' = Some m'" using that(2) Cons.prems(2) keys by auto
      obtain n s where "c = (n, s)" by fastforce
      then have "k = k'" using c that(1) contexts [OF m] contexts [OF m'] by auto
      then show False using Cons.prems(1) that(2) by (force simp: p)
    qed
    ultimately show ?case using Cons by (auto simp: p)
  qed simp
  from this [of ?ms] keys show "distinct (application_controllers app)"
    by (simp add: application_controllers_def router_contexts_concat router_modules_def)
  have "(n, s) \<in> set (application_controllers app) \<longleftrightarrow>
      (\<exists>k m. map_get ?ms k = Some m \<and> (n, s) \<in> set (module_contexts m))"
    using keys by (force simp: application_controllers_def router_contexts_concat router_modules_def)
  also have "\<dots> \<longleftrightarrow> s \<in> page_scopes app \<and> map_option m_id (map_get ?ms (sc_identifier s)) = Some n"
    using contexts by (auto simp del: map_of_eq_Some_iff) blast
  finally show "(n, s) \<in> set (application_controllers app) \<longleftrightarrow> s \<in> page_scopes app \<and>
      map_option m_id (map_get ?ms (sc_identifier s)) = Some n" .
qed

lemma getController_run:
  "getControllerForElementAndIdentifier (app_run root calls) element ident = Some (n, s) \<longleftrightarrow>
     element = Some (sc_element s) \<and> sc_identifier s = ident \<and>
     (n, s) \<in> set (application_controllers (app_run root calls))"
proof -
  let ?app = "app_run root calls"
  have "getContextForElementAndIdentifier (app_router ?app) e ident = Some (n, s) \<longleftrightarrow>
      e = sc_element s \<and> sc_identifier s = ident \<and> (n, s) \<in> set (application_controllers ?app)" for e
  proof -
    have "getContextForElementAndIdentifier (app_router ?app) e ident = Some (n, s) \<longleftrightarrow>
        (\<exists>m. map_get (rt_modules (app_router ?app)) ident = Some m \<and> n = m_id m \<and>
           s = \<lparr>sc_element = e, sc_identifier = ident\<rparr> \<and> s \<in> page_scopes ?app)"
      using getContext_outcome [of root calls e ident] by (auto simp: Let_def split: option.splits)
    also have "\<dots> \<longleftrightarrow> e = sc_element s \<and> sc_identifier s = ident \<and> (n, s) \<in> set (application_controllers ?app)"
      unfolding controllers_listed(2) [OF app_run_ok listed_run] by (cases s) auto
    finally show ?thesis .
  qed
  moreover have "(case c of None \<Rightarrow> None | Some x \<Rightarrow> Some x) = c" for c :: "(nat \<times> scope) option"
    by (cases c) simp_all
  ultimately show ?thesis by (cases element) (auto simp: getControllerForElementAndIdentifier_def Let_def)
qed

end
