(* ===== verification/Js_Json.thy ===== *)
theory Js_Json
  imports Js_Strings
begin

text \<open>
  JSON as the scripts use it: values, \<open>JSON.stringify\<close> with and without indentation,
  \<open>JSON.parse\<close>, the property order of JavaScript objects, and \<open>parseInt\<close>. Numbers are
  integers (every number the scripts send or read is one); the model is that of exact
  integers, so it describes numbers of magnitude at most 2^53. Main result:
  \<open>JSON.parse\<close> inverts \<open>JSON.stringify\<close> on every value with such numbers.
\<close>

section \<open>Values\<close>

datatype json =
    JNull
  | JBool bool
  | JNumber int
  | JString jsstr
  | JArray "json list"
  | JObject "(jsstr \<times> json) list"

abbreviation chr :: "nat \<Rightarrow> char" where
  "chr n \<equiv> char_of n"

section \<open>Decimal numbers\<close>

definition digit :: "nat \<Rightarrow> char" where
  "digit n = char_of (48 + n)"

definition digit_value :: "char \<Rightarrow> nat" where
  "digit_value c = code c - 48"

function nat_text :: "nat \<Rightarrow> jsstr" where
  "nat_text n = (if n < 10 then [digit n] else nat_text (n div 10) @ [digit (n mod 10)])"
  by pat_completeness auto
termination by (relation "measure id") auto

declare nat_text.simps [simp del]

definition int_text :: "int \<Rightarrow> jsstr" where
  "int_text i = (if i < 0 then CHR ''-'' # nat_text (nat (- i)) else nat_text (nat i))"

definition digits_value :: "jsstr \<Rightarrow> nat" where
  "digits_value s = foldl (\<lambda>n c. 10 * n + digit_value c) 0 s"

lemma is_digit_digit [simp]: "n < 10 \<Longrightarrow> is_digit (digit n)"
  by (simp add: is_digit_def digit_def)

lemma digit_value_digit [simp]: "n < 10 \<Longrightarrow> digit_value (digit n) = n"
  by (simp add: digit_value_def digit_def)

lemma nat_text_digits: "list_all is_digit (nat_text n)"
  by (induction n rule: nat_text.induct) (subst nat_text.simps, simp)

lemma nat_text_not_Nil [simp]: "nat_text n \<noteq> []"
  by (subst nat_text.simps) simp

lemma digits_value_nat_text [simp]: "digits_value (nat_text n) = n"
proof (induction n rule: nat_text.induct)
  case (1 n)
  then show ?case by (subst nat_text.simps) (auto simp: digits_value_def)
qed

lemma is_digit_not_ws [simp]: "is_digit c \<Longrightarrow> \<not> is_ws c"
  by (auto simp: is_digit_def is_ws_def)

section \<open>Object properties\<close>

text \<open>
  Property keys that are array indices come first, in ascending order, the others follow
  in the order of their first assignment.
\<close>

definition is_index :: "jsstr \<Rightarrow> bool" where
  "is_index s \<longleftrightarrow> list_all is_digit s \<and> nat_text (digits_value s) = s \<and> digits_value s < 2 ^ 32 - 1"

definition key_before :: "jsstr \<Rightarrow> jsstr \<Rightarrow> bool" where
  "key_before k k' \<longleftrightarrow> is_index k \<and> (is_index k' \<longrightarrow> digits_value k < digits_value k')"

fun insert_prop :: "jsstr \<Rightarrow> 'v \<Rightarrow> (jsstr \<times> 'v) list \<Rightarrow> (jsstr \<times> 'v) list" where
  "insert_prop k v [] = [(k, v)]"
| "insert_prop k v (p # ps) = (if key_before k (fst p) then (k, v) # p # ps else p # insert_prop k v ps)"

definition set_prop :: "jsstr \<Rightarrow> 'v \<Rightarrow> (jsstr \<times> 'v) list \<Rightarrow> (jsstr \<times> 'v) list" where
  "set_prop k v ps = (if map_has ps k then map_set k v ps else insert_prop k v ps)"

text \<open>
  Assignment \<open>object[key] = value\<close> on a plain object: the key \<open>__proto__\<close> does not make an
  own property.
\<close>

definition assign_prop :: "jsstr \<Rightarrow> 'v \<Rightarrow> (jsstr \<times> 'v) list \<Rightarrow> (jsstr \<times> 'v) list" where
  "assign_prop k v ps = (if k = ''__proto__'' then ps else set_prop k v ps)"

definition props_ok :: "(jsstr \<times> 'v) list \<Rightarrow> bool" where
  "props_ok ps \<longleftrightarrow> foldl (\<lambda>ps (k, v). set_prop k v ps) [] ps = ps"

lemma map_of_insert_prop [simp]:
  "map_of ps k = None \<Longrightarrow> map_of (insert_prop k v ps) k' = (if k' = k then Some v else map_of ps k')"
  by (induction ps) (auto split: if_splits)

lemma map_of_set_prop [simp]: "map_of (set_prop k v ps) k' = (if k' = k then Some v else map_of ps k')"
  by (auto simp: set_prop_def)

section \<open>JSON.stringify\<close>

definition hex_digit :: "nat \<Rightarrow> char" where
  "hex_digit n = (if n < 10 then chr (48 + n) else chr (87 + n))"

definition json_escape :: "char \<Rightarrow> jsstr" where
  "json_escape c =
     (let n = code c
      in if n = 34 then [chr 92, chr 34]
         else if n = 92 then [chr 92, chr 92]
         else if n = 8 then [chr 92, CHR ''b'']
         else if n = 9 then [chr 92, CHR ''t'']
         else if n = 10 then [chr 92, CHR ''n'']
         else if n = 12 then [chr 92, CHR ''f'']
         else if n = 13 then [chr 92, CHR ''r'']
         else if n < 32 then [chr 92, CHR ''u'', CHR ''0'', CHR ''0'', hex_digit (n div 16), hex_digit (n mod 16)]
         else [c])"

definition quote :: "jsstr \<Rightarrow> jsstr" where
  "quote s = chr 34 # concat (map json_escape s) @ [chr 34]"

fun json_stringify :: "json \<Rightarrow> jsstr" where
  "json_stringify JNull = ''null''"
| "json_stringify (JBool b) = (if b then ''true'' else ''false'')"
| "json_stringify (JNumber i) = int_text i"
| "json_stringify (JString s) = quote s"
| "json_stringify (JArray xs) = ''['' @ join '','' (map json_stringify xs) @ '']''"
| "json_stringify (JObject ps) =
     ''{'' @ join '','' (map (\<lambda>p. quote (fst p) @ '':'' @ json_stringify (snd p)) ps) @ ''}''"

text \<open>\<open>JSON.stringify(value, null, 2)\<close>; \<open>ind\<close> is the indentation of the line it starts on.\<close>

fun json_pretty :: "jsstr \<Rightarrow> json \<Rightarrow> jsstr" where
  "json_pretty ind (JArray xs) =
     (if xs = [] then ''[]''
      else let inner = ind @ ''  '' in
        ''['' @ [chr 10] @ inner @ join ('','' @ [chr 10] @ inner) (map (json_pretty inner) xs) @
        [chr 10] @ ind @ '']'')"
| "json_pretty ind (JObject ps) =
     (if ps = [] then ''{}''
      else let inner = ind @ ''  '' in
        ''{'' @ [chr 10] @ inner @
        join ('','' @ [chr 10] @ inner) (map (\<lambda>p. quote (fst p) @ '': '' @ json_pretty inner (snd p)) ps) @
        [chr 10] @ ind @ ''}'')"
| "json_pretty ind j = json_stringify j"

text \<open>\<open>String(value)\<close>, as a template literal does.\<close>

fun js_string :: "json \<Rightarrow> jsstr" where
  "js_string JNull = ''null''"
| "js_string (JBool b) = (if b then ''true'' else ''false'')"
| "js_string (JNumber i) = int_text i"
| "js_string (JString s) = s"
| "js_string (JArray xs) = join '','' (map (\<lambda>x. if x = JNull then [] else js_string x) xs)"
| "js_string (JObject ps) = ''[object Object]''"

section \<open>JSON.parse\<close>

text \<open>
  A document with a number that is not an integer, or with an escape for a code unit above
  255, is outside the model: the parser gives \<open>None\<close>, as for malformed text.
\<close>

definition skip :: "jsstr \<Rightarrow> jsstr" where
  "skip s = dropWhile (\<lambda>c. code c \<in> {9, 10, 13, 32}) s"

definition hex_value :: "char \<Rightarrow> nat option" where
  "hex_value c =
     (if is_digit c then Some (code c - 48)
      else if 97 \<le> code c \<and> code c \<le> 102 then Some (code c - 87)
      else if 65 \<le> code c \<and> code c \<le> 70 then Some (code c - 55) else None)"

definition hex4 :: "char \<Rightarrow> char \<Rightarrow> char \<Rightarrow> char \<Rightarrow> char option" where
  "hex4 a b c d =
     (case (hex_value a, hex_value b, hex_value c, hex_value d) of
        (Some 0, Some 0, Some m, Some n) \<Rightarrow> Some (chr (16 * m + n))
      | _ \<Rightarrow> None)"

definition unescape :: "char \<Rightarrow> char option" where
  "unescape e =
     (if code e = 34 \<or> code e = 92 \<or> code e = 47 then Some e
      else if e = CHR ''b'' then Some (chr 8)
      else if e = CHR ''t'' then Some (chr 9)
      else if e = CHR ''n'' then Some (chr 10)
      else if e = CHR ''f'' then Some (chr 12)
      else if e = CHR ''r'' then Some (chr 13) else None)"

fun parse_chars :: "jsstr \<Rightarrow> (jsstr \<times> jsstr) option" where
  "parse_chars [] = None"
| "parse_chars (c # s) =
     (if code c = 34 then Some ([], s)
      else if code c = 92 then
        (case s of
           [] \<Rightarrow> None
         | e # s' \<Rightarrow>
             if e = CHR ''u'' then
               (case s' of
                  x1 # x2 # x3 # x4 # s'' \<Rightarrow>
                    (case hex4 x1 x2 x3 x4 of
                       Some d \<Rightarrow> map_option (apfst (Cons d)) (parse_chars s'')
                     | None \<Rightarrow> None)
                | _ \<Rightarrow> None)
             else
               (case unescape e of
                  Some d \<Rightarrow> map_option (apfst (Cons d)) (parse_chars s')
                | None \<Rightarrow> None))
      else if code c < 32 then None
      else map_option (apfst (Cons c)) (parse_chars s))"

definition parse_number :: "jsstr \<Rightarrow> (json \<times> jsstr) option" where
  "parse_number s =
     (let (sign, s') = (case s of c # s' \<Rightarrow> if c = CHR ''-'' then (- 1, s') else (1, s) | [] \<Rightarrow> (1, s));
          ds = takeWhile is_digit s'; rest = dropWhile is_digit s'
      in if ds = [] \<or> (hd ds = CHR ''0'' \<and> tl ds \<noteq> []) then None
         else if (case rest of c # _ \<Rightarrow> c \<in> {CHR ''.'', CHR ''e'', CHR ''E''} | [] \<Rightarrow> False) then None
         else Some (JNumber (sign * int (digits_value ds)), rest))"

definition expect :: "jsstr \<Rightarrow> 'a \<Rightarrow> jsstr \<Rightarrow> ('a \<times> jsstr) option" where
  "expect w x s = (if take (length w) s = w then Some (x, drop (length w) s) else None)"

text \<open>\<open>n\<close> bounds the nesting of calls; the length of the text is enough.\<close>

fun parse_value :: "nat \<Rightarrow> jsstr \<Rightarrow> (json \<times> jsstr) option"
  and parse_elements :: "nat \<Rightarrow> jsstr \<Rightarrow> (json list \<times> jsstr) option"
  and parse_members :: "nat \<Rightarrow> jsstr \<Rightarrow> ((jsstr \<times> json) list \<times> jsstr) option" where
  "parse_value 0 s = None"
| "parse_value (Suc n) s =
     (case skip s of
        [] \<Rightarrow> None
      | c # s' \<Rightarrow>
          if c = CHR ''n'' then expect ''null'' JNull (c # s')
          else if c = CHR ''t'' then expect ''true'' (JBool True) (c # s')
          else if c = CHR ''f'' then expect ''false'' (JBool False) (c # s')
          else if code c = 34 then map_option (apfst JString) (parse_chars s')
          else if c = CHR ''['' then
            (case skip s' of
               d # s'' \<Rightarrow>
                 if d = CHR '']'' then Some (JArray [], s'')
                 else map_option (apfst JArray) (parse_elements n s')
             | [] \<Rightarrow> None)
          else if c = CHR ''{'' then
            (case skip s' of
               d # s'' \<Rightarrow>
                 if d = CHR ''}'' then Some (JObject [], s'')
                 else map_option (apfst (\<lambda>ps. JObject (foldl (\<lambda>ps (k, v). set_prop k v ps) [] ps)))
                        (parse_members n s')
             | [] \<Rightarrow> None)
          else parse_number (c # s'))"
| "parse_elements 0 s = None"
| "parse_elements (Suc n) s =
     (case parse_value n s of
        None \<Rightarrow> None
      | Some (x, s1) \<Rightarrow>
          (case skip s1 of
             [] \<Rightarrow> None
           | c # s2 \<Rightarrow>
               if c = CHR '','' then map_option (apfst (Cons x)) (parse_elements n s2)
               else if c = CHR '']'' then Some ([x], s2) else None))"
| "parse_members 0 s = None"
| "parse_members (Suc n) s =
     (case skip s of
        [] \<Rightarrow> None
      | q # s0 \<Rightarrow>
          if code q \<noteq> 34 then None else
          (case parse_chars s0 of
             None \<Rightarrow> None
           | Some (k, s1) \<Rightarrow>
               (case expect '':'' () (skip s1) of
                  None \<Rightarrow> None
                | Some (_, s2) \<Rightarrow>
                    (case parse_value n s2 of
                       None \<Rightarrow> None
                     | Some (x, s3) \<Rightarrow>
                         (case skip s3 of
                            [] \<Rightarrow> None
                          | c # s4 \<Rightarrow>
                              if c = CHR '','' then map_option (apfst (Cons (k, x))) (parse_members n s4)
                              else if c = CHR ''}'' then Some ([(k, x)], s4) else None)))))"

definition json_parse :: "jsstr \<Rightarrow> json option" where
  "json_parse s =
     (case parse_value (Suc (length s)) s of
        Some (j, rest) \<Rightarrow> (if skip rest = [] then Some j else None)
      | None \<Rightarrow> None)"

section \<open>The parser inverts the printer\<close>

lemma hex_value_digit: "n < 16 \<Longrightarrow> hex_value (hex_digit n) = Some n"
  by (auto simp: hex_value_def hex_digit_def is_digit_def)

lemma chr_eq [simp]: "n < 256 \<Longrightarrow> chr n = c \<longleftrightarrow> code c = n"
  by (auto simp: code_def)

lemma parse_chars_special:
  "code c \<in> {34, 92, 8, 9, 10, 12, 13} \<Longrightarrow>
   \<exists>e. json_escape c = [chr 92, e] \<and> e \<noteq> CHR ''u'' \<and> unescape e = Some c"
proof -
  have u: "code (CHR ''u'') = 117" "code (CHR ''b'') = 98" "code (CHR ''t'') = 116"
    "code (CHR ''n'') = 110" "code (CHR ''f'') = 102" "code (CHR ''r'') = 114"
    by (simp_all add: code_def)
  assume c: "code c \<in> {34, 92, 8, 9, 10, 12, 13}"
  show ?thesis
  proof (cases "code c \<in> {34, 92}")
    case True
    then have "json_escape c = [chr 92, c]" and "unescape c = Some c" and "c \<noteq> CHR ''u''"
      using u(1) by (auto simp: json_escape_def unescape_def)
    then show ?thesis by blast
  next
    case False
    with c have "code c \<in> {8, 9, 10, 12, 13}" by blast
    then show ?thesis
      by (elim insertE) (simp_all add: json_escape_def unescape_def u)
  qed
qed

lemma parse_chars_escape:
  "parse_chars (json_escape c @ s) = map_option (apfst (Cons c)) (parse_chars s)"
proof -
  consider (special) "code c \<in> {34, 92, 8, 9, 10, 12, 13}"
    | (control) "code c < 32" "code c \<notin> {34, 92, 8, 9, 10, 12, 13}"
    | (plain) "32 \<le> code c" "code c \<noteq> 34" "code c \<noteq> 92"
    by force
  then show ?thesis
  proof cases
    case special
    then obtain e where "json_escape c = [chr 92, e]" "e \<noteq> CHR ''u''" "unescape e = Some c"
      using parse_chars_special by blast
    then show ?thesis by simp
  next
    case control
    then have esc: "json_escape c =
        [chr 92, CHR ''u'', CHR ''0'', CHR ''0'', hex_digit (code c div 16), hex_digit (code c mod 16)]"
      by (simp add: json_escape_def Let_def)
    have "hex_value (CHR ''0'') = Some 0" by (simp add: hex_value_def is_digit_def code_def)
    with control have "hex4 (CHR ''0'') (CHR ''0'') (hex_digit (code c div 16)) (hex_digit (code c mod 16)) = Some c"
      by (simp add: hex4_def hex_value_digit)
    then show ?thesis by (simp add: esc)
  next
    case plain
    then show ?thesis by (simp add: json_escape_def Let_def)
  qed
qed

lemma parse_chars_quote: "parse_chars (concat (map json_escape s) @ chr 34 # rest) = Some (s, rest)"
  by (induction s) (simp_all add: parse_chars_escape)

lemma nat_text_leading_zero: "hd (nat_text n) = CHR ''0'' \<Longrightarrow> tl (nat_text n) = []"
proof (induction n rule: nat_text.induct)
  case (1 n)
  show ?case
  proof (cases "n < 10")
    case True
    then show ?thesis by (subst nat_text.simps) simp
  next
    case False
    then have split: "nat_text n = nat_text (n div 10) @ [digit (n mod 10)]"
      by (subst nat_text.simps) simp
    with "1.prems" have h: "hd (nat_text (n div 10)) = CHR ''0''" by simp
    with "1.IH" [OF False] have "tl (nat_text (n div 10)) = []" by simp
    with h have "nat_text (n div 10) = [CHR ''0'']"
      by (metis list.collapse nat_text_not_Nil)
    then have "n div 10 = digits_value [CHR ''0'']" using digits_value_nat_text by metis
    then have "n div 10 = 0" by (simp add: digits_value_def digit_value_def code_def)
    with False show ?thesis by simp
  qed
qed

definition ends :: "jsstr \<Rightarrow> bool" where
  "ends rest \<longleftrightarrow> (case rest of [] \<Rightarrow> True | c # _ \<Rightarrow> c \<in> {CHR '','', CHR '']'', CHR ''}''})"

lemma ends_simps [simp]: "ends []" "ends (CHR '','' # s)" "ends (CHR '']'' # s)" "ends (CHR ''}'' # s)"
  by (simp_all add: ends_def)

lemma ends_number:
  assumes "ends rest"
  shows "takeWhile is_digit rest = []" and "dropWhile is_digit rest = rest"
    and "\<not> (case rest of c # _ \<Rightarrow> c \<in> {CHR ''.'', CHR ''e'', CHR ''E''} | [] \<Rightarrow> False)"
  using assms by (auto simp: ends_def is_digit_def code_def split: list.splits)

lemma digits_prefix:
  assumes "ends rest"
  shows "takeWhile is_digit (nat_text n @ rest) = nat_text n"
    and "dropWhile is_digit (nat_text n @ rest) = rest"
  using nat_text_digits [of n] ends_number [OF assms]
  by (simp_all add: takeWhile_append2 dropWhile_append2 list_all_iff)

lemma parse_number_int_text:
  assumes "ends rest"
  shows "parse_number (int_text i @ rest) = Some (JNumber i, rest)"
proof -
  have split: "parse_number (int_text i @ rest) =
      (let (sign, s') = (if i < 0 then (- 1, nat_text (nat (- i)) @ rest) else (1, nat_text (nat i) @ rest));
           ds = takeWhile is_digit s'; rest = dropWhile is_digit s'
       in if ds = [] \<or> (hd ds = CHR ''0'' \<and> tl ds \<noteq> []) then None
          else if (case rest of c # _ \<Rightarrow> c \<in> {CHR ''.'', CHR ''e'', CHR ''E''} | [] \<Rightarrow> False) then None
          else Some (JNumber (sign * int (digits_value ds)), rest))"
  proof (cases "i < 0")
    case False
    obtain c cs where n: "nat_text (nat i) = c # cs" by (cases "nat_text (nat i)") auto
    then have "is_digit c" using nat_text_digits [of "nat i"] by simp
    then have "c \<noteq> CHR ''-''" by (auto simp: is_digit_def code_def)
    with False n show ?thesis by (simp only: parse_number_def int_text_def if_False list.case append_Cons)
  qed (simp only: parse_number_def int_text_def if_True list.case append_Cons simp_thms)
  show ?thesis
    unfolding split using nat_text_leading_zero [of "nat i"] nat_text_leading_zero [of "nat (- i)"]
    by (auto simp: digits_prefix [OF assms] ends_number(3) [OF assms] Let_def simp del: insert_iff)
qed

lemma json_head:
  obtains c s where "json_stringify j = c # s"
    and "code c \<notin> {9, 10, 13, 32}" and "c \<noteq> CHR '']''" and "c \<noteq> CHR ''}''" and "c \<noteq> CHR '',''"
proof -
  have num: "\<exists>c s. nat_text n = c # s \<and> is_digit c" for n
    using nat_text_digits [of n] by (cases "nat_text n") auto
  have "\<exists>c s. json_stringify j = c # s \<and> code c \<notin> {9, 10, 13, 32} \<and> c \<noteq> CHR '']'' \<and> c \<noteq> CHR ''}'' \<and> c \<noteq> CHR '',''"
  proof (cases j)
    case (JNumber i)
    show ?thesis
      using num [of "nat i"] by (cases "i < 0") (auto simp: JNumber int_text_def is_digit_def code_def)
  next
    case (JString x)
    show ?thesis
      by (rule exI [of _ "chr 34"]) (simp add: JString quote_def, simp add: code_def)
  qed (auto simp: code_def)
  with that show ?thesis by blast
qed

lemma skip_stringify [simp]: "skip (json_stringify j @ rest) = json_stringify j @ rest"
  by (rule json_head [of j]) (simp add: skip_def)

lemma skip_ends [simp]: "skip (CHR '','' # s) = CHR '','' # s" "skip (CHR '']'' # s) = CHR '']'' # s"
  "skip (CHR ''}'' # s) = CHR ''}'' # s" "skip (CHR '':'' # s) = CHR '':'' # s" "skip [] = []"
  "skip (chr 34 # s) = chr 34 # s"
  by (simp_all add: skip_def code_def)

fun json_ok :: "json \<Rightarrow> bool" where
  "json_ok (JArray xs) \<longleftrightarrow> list_all json_ok xs"
| "json_ok (JObject ps) \<longleftrightarrow> props_ok ps \<and> list_all (\<lambda>p. json_ok (snd p)) ps"
| "json_ok _ \<longleftrightarrow> True"

definition parses :: "json \<Rightarrow> bool" where
  "parses j \<longleftrightarrow> (\<forall>n rest. length (json_stringify j) < n \<longrightarrow> ends rest \<longrightarrow>
     parse_value n (json_stringify j @ rest) = Some (j, rest))"

lemma parsesD: "parses j \<Longrightarrow> length (json_stringify j) < n \<Longrightarrow> ends rest \<Longrightarrow>
    parse_value n (json_stringify j @ rest) = Some (j, rest)"
  by (simp add: parses_def)

lemma json_length: "0 < length (json_stringify j)"
  by (rule json_head [of j]) simp

lemma parse_elements_join:
  "xs \<noteq> [] \<Longrightarrow> list_all parses xs \<Longrightarrow> length (join '','' (map json_stringify xs)) + 1 < n \<Longrightarrow>
   parse_elements n (join '','' (map json_stringify xs) @ CHR '']'' # rest) = Some (xs, rest)"
proof (induction xs arbitrary: n)
  case (Cons x xs)
  obtain m where n: "n = Suc m" using Cons.prems(3) by (cases n) auto
  have x: "parses x" using Cons.prems(2) by simp
  show ?case
  proof (cases xs)
    case Nil
    with Cons.prems n have "length (json_stringify x) < m" by simp
    with parsesD [OF x this, of "CHR '']'' # rest"] Nil show ?thesis by (simp add: n)
  next
    case (Cons y ys)
    let ?t = "join '','' (map json_stringify xs)"
    have join: "join '','' (map json_stringify (x # xs)) = json_stringify x @ '','' @ ?t"
      using Cons by simp
    have l: "length (json_stringify x) < m" "length ?t + 1 < m"
      using Cons.prems(3) json_length [of x] by (simp_all add: n join del: list.map)
    have "parse_elements m (?t @ CHR '']'' # rest) = Some (xs, rest)"
      using Cons Cons.prems(2) l(2) by (intro Cons.IH) simp_all
    with parsesD [OF x l(1), of "CHR '','' # ?t @ CHR '']'' # rest"] show ?thesis
      unfolding n join by simp
  qed
qed simp

definition member_text :: "jsstr \<times> json \<Rightarrow> jsstr" where
  "member_text p = quote (fst p) @ '':'' @ json_stringify (snd p)"

lemma stringify_JObject: "json_stringify (JObject ps) = ''{'' @ join '','' (map member_text ps) @ ''}''"
  by (simp add: member_text_def [abs_def])

lemma parse_member:
  assumes "parses (snd p)" and "length (member_text p) < m" and "ends rest"
  shows "parse_members (Suc m) (member_text p @ rest) =
    (case skip rest of
       [] \<Rightarrow> None
     | c # s4 \<Rightarrow>
         if c = CHR '','' then map_option (apfst (Cons p)) (parse_members m s4)
         else if c = CHR ''}'' then Some ([p], s4) else None)"
proof -
  have "length (json_stringify (snd p)) < m" using assms(2) by (simp add: member_text_def)
  note v = parsesD [OF assms(1) this assms(3)]
  have e: "expect '':'' () (CHR '':'' # s) = Some ((), s)" for s by (simp add: expect_def)
  obtain k x where p: "p = (k, x)" by (cases p)
  have "code (chr 34) = 34" by simp
  with v show ?thesis
    unfolding p by (simp add: member_text_def quote_def parse_chars_quote e del: chr_eq)
qed

lemma member_head: "\<exists>s. member_text p = chr 34 # s"
  by (simp add: member_text_def quote_def)

lemma parse_members_join:
  "ps \<noteq> [] \<Longrightarrow> list_all (\<lambda>p. parses (snd p)) ps \<Longrightarrow> length (join '','' (map member_text ps)) + 1 < n \<Longrightarrow>
   parse_members n (join '','' (map member_text ps) @ CHR ''}'' # rest) = Some (ps, rest)"
proof (induction ps arbitrary: n)
  case (Cons p ps)
  obtain m where n: "n = Suc m" using Cons.prems(3) by (cases n) auto
  have p: "parses (snd p)" using Cons.prems(2) by simp
  show ?case
  proof (cases ps)
    case Nil
    with Cons.prems n have "length (member_text p) < m" by simp
    with parse_member [OF p this, of "CHR ''}'' # rest"] Nil show ?thesis by (simp add: n)
  next
    case (Cons y ys)
    let ?t = "join '','' (map member_text ps)"
    have join: "join '','' (map member_text (p # ps)) = member_text p @ '','' @ ?t"
      using Cons by simp
    obtain s where "member_text p = chr 34 # s" using member_head by blast
    then have l: "length (member_text p) < m" "length ?t + 1 < m"
      using Cons.prems(3) by (simp_all add: n join del: list.map)
    have "parse_members m (?t @ CHR ''}'' # rest) = Some (ps, rest)"
      using Cons Cons.prems(2) l(2) by (intro Cons.IH) simp_all
    with parse_member [OF p l(1), of "CHR '','' # ?t @ CHR ''}'' # rest"] show ?thesis
      unfolding n join by simp
  qed
qed simp

lemma elements_head:
  assumes "xs \<noteq> []"
  obtains c s where "join '','' (map json_stringify xs) = c # s" and "c \<noteq> CHR '']''"
    and "code c \<notin> {9, 10, 13, 32}"
proof -
  obtain x ys where xs: "xs = x # ys" using assms by (cases xs) auto
  obtain c s where "json_stringify x = c # s" "code c \<notin> {9, 10, 13, 32}" "c \<noteq> CHR '']''"
    by (rule json_head [of x])
  with that show ?thesis by (cases ys) (simp_all add: xs)
qed

lemma members_head:
  assumes "ps \<noteq> []"
  obtains s where "join '','' (map member_text ps) = chr 34 # s"
  using assms that member_head [of "hd ps"] by (cases ps; cases "tl ps") auto

lemma parse_array:
  assumes "list_all parses xs" and "length (json_stringify (JArray xs)) < n"
  shows "parse_value n (json_stringify (JArray xs) @ rest) = Some (JArray xs, rest)"
proof -
  obtain m where m: "n = Suc m" using assms(2) by (cases n) auto
  have sk: "skip (CHR ''['' # s) = CHR ''['' # s" for s by (simp add: skip_def code_def)
  have code: "code (CHR ''['') = 91" by (simp add: code_def)
  show ?thesis
  proof (cases "xs = []")
    case True
    then show ?thesis by (simp add: m sk code)
  next
    case False
    then obtain c s where h: "join '','' (map json_stringify xs) = c # s" "c \<noteq> CHR '']''"
      "code c \<notin> {9, 10, 13, 32}" by (rule elements_head)
    have "parse_elements m (join '','' (map json_stringify xs) @ CHR '']'' # rest) = Some (xs, rest)"
      using assms False by (intro parse_elements_join) (simp_all add: m)
    moreover have "skip (c # s') = c # s'" for s' using h(3) by (simp add: skip_def)
    ultimately show ?thesis using h(1,2) by (simp add: m sk code)
  qed
qed

lemma parse_object:
  assumes "list_all (\<lambda>p. parses (snd p)) ps" and "props_ok ps"
    and "length (json_stringify (JObject ps)) < n"
  shows "parse_value n (json_stringify (JObject ps) @ rest) = Some (JObject ps, rest)"
proof -
  obtain m where m: "n = Suc m" using assms(3) by (cases n) auto
  have sk: "skip (CHR ''{'' # s) = CHR ''{'' # s" for s by (simp add: skip_def code_def)
  have code: "code (CHR ''{'') = 123" by (simp add: code_def)
  show ?thesis
  proof (cases "ps = []")
    case True
    then show ?thesis by (simp add: m sk code)
  next
    case False
    then obtain s where h: "join '','' (map member_text ps) = chr 34 # s" by (rule members_head)
    have "parse_members m (join '','' (map member_text ps) @ CHR ''}'' # rest) = Some (ps, rest)"
      using assms False by (intro parse_members_join) (simp_all add: m stringify_JObject del: json_stringify.simps)
    moreover have "chr 34 \<noteq> CHR ''}''" by (simp add: code_def)
    ultimately show ?thesis
      using h assms(2)
      by (simp add: m sk code stringify_JObject props_ok_def del: json_stringify.simps chr_eq)
  qed
qed

lemma parse_value_number:
  "is_digit c \<or> c = CHR ''-'' \<Longrightarrow> parse_value (Suc n) (c # s) = parse_number (c # s)"
proof -
  assume c: "is_digit c \<or> c = CHR ''-''"
  have "c \<noteq> CHR ''n''" "c \<noteq> CHR ''t''" "c \<noteq> CHR ''f''" "c \<noteq> CHR ''[''" "c \<noteq> CHR ''{''" "code c \<noteq> 34"
    "code c \<notin> {9, 10, 13, 32}"
    using c by (auto simp: is_digit_def code_def)
  then show ?thesis by (simp add: skip_def del: insert_iff)
qed

lemma int_text_head: "\<exists>c s. int_text i = c # s \<and> (is_digit c \<or> c = CHR ''-'')"
  using nat_text_digits [of "nat i"] by (cases "nat_text (nat i)") (auto simp: int_text_def)

lemma parse_int:
  assumes "0 < n" and "ends rest"
  shows "parse_value n (int_text i @ rest) = Some (JNumber i, rest)"
proof -
  obtain m where "n = Suc m" using assms(1) by (cases n) auto
  moreover obtain c s where "int_text i = c # s" "is_digit c \<or> c = CHR ''-''"
    using int_text_head by blast
  ultimately show ?thesis
    using parse_number_int_text [OF assms(2), of i] by (simp only: append_Cons parse_value_number)
qed

lemma parse_string: "0 < n \<Longrightarrow> parse_value n (quote s @ rest) = Some (JString s, rest)"
proof -
  have "code (chr 34) = 34" by simp
  then have "chr 34 \<noteq> CHR ''n''" "chr 34 \<noteq> CHR ''t''" "chr 34 \<noteq> CHR ''f''" "code (chr 34) = 34"
    by (simp_all add: code_def)
  then show "0 < n \<Longrightarrow> ?thesis"
    by (cases n) (simp_all add: quote_def parse_chars_quote del: chr_eq)
qed

lemma json_parses: "json_ok j \<Longrightarrow> parses j"
proof (induction j)
  case (JArray xs)
  then have "list_all parses xs" by (auto simp: list_all_iff)
  then show ?case unfolding parses_def [of "JArray xs"] by (intro allI impI parse_array)
next
  case (JObject ps)
  then have "list_all (\<lambda>p. parses (snd p)) ps" by (fastforce simp: list_all_iff)
  with JObject.prems show ?case unfolding parses_def [of "JObject ps"] by (intro allI impI parse_object) simp_all
next
  case (JNumber i)
  show ?case unfolding parses_def by (auto intro: parse_int)
next
  case (JString s)
  show ?case unfolding parses_def by (auto intro: parse_string)
next
  case JNull
  show ?case unfolding parses_def by (auto simp: gr0_conv_Suc less_Suc_eq_0_disj skip_def expect_def code_def elim!: less_natE)
next
  case (JBool b)
  show ?case unfolding parses_def by (auto simp: skip_def expect_def code_def elim!: less_natE)
qed

section \<open>parseInt\<close>

definition hex_value_of :: "jsstr \<Rightarrow> nat" where
  "hex_value_of s = foldl (\<lambda>n c. 16 * n + (case hex_value c of Some d \<Rightarrow> d | None \<Rightarrow> 0)) 0 s"

text \<open>\<open>parseInt(s)\<close> without a radix, \<open>None\<close> for \<open>NaN\<close>; anything behind the number is ignored.\<close>

definition parseInt :: "jsstr \<Rightarrow> int option" where
  "parseInt s =
     (let s1 = dropWhile is_ws s;
          (sign, s2) = (case s1 of
              c # cs \<Rightarrow> if c = CHR ''-'' then (- 1, cs) else if c = CHR ''+'' then (1, cs) else (1, s1)
            | [] \<Rightarrow> (1, s1));
          hex = (take 2 s2 = ''0x'' \<or> take 2 s2 = ''0X'');
          ds = (if hex then takeWhile (\<lambda>c. hex_value c \<noteq> None) (drop 2 s2) else takeWhile is_digit s2)
      in if ds = [] then None
         else Some (sign * int (if hex then hex_value_of ds else digits_value ds)))"

text \<open>A number as JSON: \<open>NaN\<close> is written as null.\<close>

definition json_number :: "int option \<Rightarrow> json" where
  "json_number n = (case n of Some i \<Rightarrow> JNumber i | None \<Rightarrow> JNull)"

lemma parseInt_nat_text: "parseInt (nat_text n) = Some (int n)"
proof -
  obtain c cs where n: "nat_text n = c # cs" by (cases "nat_text n") auto
  with nat_text_digits [of n] have c: "is_digit c" "list_all is_digit cs" by simp_all
  then have d: "takeWhile is_digit cs = cs" by (simp add: list_all_iff takeWhile_eq_all_conv)
  have "\<not> is_digit (CHR ''x'')" "\<not> is_digit (CHR ''X'')" by (simp_all add: is_digit_def code_def)
  with c have "take (Suc 0) cs \<noteq> ''x''" "take (Suc 0) cs \<noteq> ''X''"
    by (cases cs; auto)+
  moreover have "c \<noteq> CHR ''-''" "c \<noteq> CHR ''+''" using c by (auto simp: is_digit_def code_def)
  moreover have "digits_value (c # cs) = n" using digits_value_nat_text [of n] by (simp only: n)
  ultimately show ?thesis using c by (simp add: parseInt_def n Let_def d)
qed

section \<open>Objects built by assignment\<close>

definition ordered_props :: "(jsstr \<times> 'v) list \<Rightarrow> bool" where
  "ordered_props ps \<longleftrightarrow> distinct (map fst ps) \<and> sorted_wrt (\<lambda>p q. \<not> key_before (fst q) (fst p)) ps"

lemma key_before_trans: "key_before a b \<Longrightarrow> key_before b c \<Longrightarrow> key_before a c"
  by (auto simp: key_before_def)

lemma key_before_irrefl: "\<not> key_before a a"
  by (auto simp: key_before_def)

lemma insert_prop_last: "\<forall>p \<in> set ps. \<not> key_before k (fst p) \<Longrightarrow> insert_prop k v ps = ps @ [(k, v)]"
  by (induction ps) auto

lemma ordered_props_ok:
  assumes "ordered_props ps"
  shows "props_ok ps"
proof -
  have "ordered_props (qs @ ps) \<Longrightarrow> foldl (\<lambda>ps (k, v). set_prop k v ps) qs ps = qs @ ps" for qs
  proof (induction ps arbitrary: qs)
    case (Cons p ps)
    have "fst p \<notin> fst ` set qs" and "\<forall>q \<in> set qs. \<not> key_before (fst p) (fst q)"
      using Cons.prems by (auto simp: ordered_props_def sorted_wrt_append)
    then have "set_prop (fst p) (snd p) qs = qs @ [p]"
      by (auto simp: set_prop_def insert_prop_last map_of_eq_None_iff)
    with Cons.IH [of "qs @ [p]"] Cons.prems show ?case by (cases p) simp
  qed simp
  from this [of "[]"] assms show ?thesis by (simp add: props_ok_def)
qed

lemma not_index: "\<not> is_digit c \<Longrightarrow> \<not> is_index (c # cs)"
  by (simp add: is_index_def)

lemma named_props_ok:
  "distinct (map fst ps) \<Longrightarrow> list_all (\<lambda>p. \<not> is_index (fst p)) ps \<Longrightarrow> props_ok ps"
  by (rule ordered_props_ok) (auto simp: ordered_props_def key_before_def list_all_iff sorted_wrt_iff_nth_less)

lemmas named_props = named_props_ok not_index is_digit_def code_def

lemma set_insert_prop: "set (insert_prop k v ps) = insert (k, v) (set ps)"
  by (induction ps) auto

lemma ordered_insert_prop:
  "k \<notin> fst ` set ps \<Longrightarrow> ordered_props ps \<Longrightarrow> ordered_props (insert_prop k v ps)"
proof (induction ps)
  case (Cons p ps)
  have ord: "ordered_props ps" "fst p \<notin> fst ` set ps" "\<forall>q \<in> set ps. \<not> key_before (fst q) (fst p)"
    using Cons.prems(2) by (auto simp: ordered_props_def)
  show ?case
  proof (cases "key_before k (fst p)")
    case True
    then have "\<not> key_before (fst q) k" if "q = p \<or> q \<in> set ps" for q
      using that ord(3) key_before_trans key_before_irrefl by metis
    with True Cons.prems show ?thesis by (auto simp: ordered_props_def)
  next
    case False
    have "ordered_props (insert_prop k v ps)" using Cons ord(1) by simp
    with False Cons.prems(1) ord show ?thesis by (auto simp: ordered_props_def set_insert_prop)
  qed
qed (simp add: ordered_props_def)

lemma map_fst_map_set: "map_of ps k \<noteq> None \<Longrightarrow> map fst (map_set k v ps) = map fst ps"
  by (induction ps) auto

lemma ordered_props_keys:
  "map fst ps = map fst qs \<Longrightarrow> ordered_props ps = ordered_props qs"
proof -
  have "ordered_props ps \<longleftrightarrow> distinct (map fst ps) \<and> sorted_wrt (\<lambda>j k. \<not> key_before k j) (map fst ps)"
    for ps :: "(jsstr \<times> 'c) list" by (simp add: ordered_props_def sorted_wrt_map)
  note this [of ps]
  moreover have "ordered_props qs \<longleftrightarrow> distinct (map fst qs) \<and> sorted_wrt (\<lambda>j k. \<not> key_before k j) (map fst qs)"
    by (simp add: ordered_props_def sorted_wrt_map)
  ultimately show "map fst ps = map fst qs \<Longrightarrow> ?thesis" by simp
qed

lemma ordered_assign_prop: "ordered_props ps \<Longrightarrow> ordered_props (assign_prop k v ps)"
proof -
  assume ps: "ordered_props ps"
  show ?thesis
  proof (cases "map_of ps k")
    case None
    then have "k \<notin> fst ` set ps" by (simp add: map_of_eq_None_iff)
    with ps None show ?thesis by (simp add: assign_prop_def set_prop_def ordered_insert_prop)
  next
    case (Some x)
    with ps ordered_props_keys [OF map_fst_map_set [of ps k v]] show ?thesis
      by (simp add: assign_prop_def set_prop_def)
  qed
qed

lemma json_parse_stringify_ok: "json_ok j \<Longrightarrow> json_parse (json_stringify j) = Some j"
  using parsesD [OF json_parses, of j "Suc (length (json_stringify j))" "[]"]
  by (simp add: json_parse_def del: parse_value.simps)

section \<open>Properties\<close>

text \<open>
  \<open>JSON.parse\<close> inverts \<open>JSON.stringify\<close> on every value the scripts can build: whatever
  characters a user enters (quotes, backslashes, control characters included), the
  receiver reads back exactly the value that was sent.
\<close>

theorem json_parse_stringify:
  assumes "json_ok j"
  shows "json_parse (json_stringify j) = Some j"
  using assms by (rule json_parse_stringify_ok)

lemma json_parse_stringify_witness:
  "json_parse (json_stringify (JArray [JString [chr 34, chr 10, chr 92], JObject [(''a'', JNumber (- 12))]])) =
     Some (JArray [JString [chr 34, chr 10, chr 92], JObject [(''a'', JNumber (- 12))]])"
  by (rule json_parse_stringify) (simp add: props_ok_def set_prop_def)

end
