(* ===== verification/Gui_Page.thy ===== *)
theory Gui_Page
  imports Js_Json
begin

text \<open>
  The page that main.js works on: the elements its controllers name as targets, the flash
  messages, the clock, and what leaves the page (requests, event sources, downloads). The
  Flash controller of main.js is here, since every other controller reports through it, and
  the collapsible sections, which are independent of the controllers.
\<close>

section \<open>Elements\<close>

text \<open>
  Nodes that the script makes: \<open>Markup s\<close> stands for what the browser makes of the text \<open>s\<close>
  assigned to \<open>innerHTML\<close>, \<open>TextNode\<close> for an \<open>innerText\<close>.
\<close>

datatype dom_node =
    Markup jsstr
  | TextNode jsstr
  | Tag jsstr "jsstr list" "dom_node list"

text \<open>A target element; \<open>e_value\<close> is \<open>None\<close> when it has no \<open>value\<close> property.\<close>

record target_element =
  e_name :: jsstr
  e_value :: "jsstr option"
  e_checked :: bool
  e_files :: "nat list"
  e_children :: "dom_node list"
  e_scrollLeft :: int
  e_scrollTop :: int
  e_scrollWidth :: int
  e_scrollHeight :: int
  e_width :: jsstr

type_synonym target = "jsstr \<times> jsstr"   \<comment> \<open>controller and target name\<close>

section \<open>Requests and responses\<close>

datatype body = TextBody jsstr | BufferBody nat

record request =
  rq_url :: jsstr
  rq_method :: jsstr
  rq_contentType :: "jsstr option"
  rq_body :: "body option"

record response =
  rs_id :: nat
  rs_status :: nat
  rs_statusText :: jsstr

section \<open>The page\<close>

record flash_message =
  f_id :: nat
  f_class :: jsstr
  f_text :: jsstr

record page =
  pg_targets :: "(target, target_element) jsmap"
  pg_controllers :: "jsstr jsset"     \<comment> \<open>connected on the element with their name as id\<close>
  pg_search :: jsstr                   \<comment> \<open>location.search\<close>
  pg_endpoint :: "jsstr option"        \<comment> \<open>fields of the peerInfo controller\<close>
  pg_socketAddr :: "jsstr option"
  pg_now :: nat                        \<comment> \<open>milliseconds\<close>
  pg_flashes :: "flash_message list"   \<comment> \<open>children of the flash wrapper\<close>
  pg_timers :: "(nat \<times> nat) list"      \<comment> \<open>due time and flash of the pending removals\<close>
  pg_next :: nat
  pg_shown :: "(jsstr \<times> jsstr) list"   \<comment> \<open>every flash ever appended, in order\<close>
  pg_requests :: "request list"        \<comment> \<open>every request issued, in order\<close>
  pg_sources :: "jsstr list"
  pg_downloads :: "(jsstr \<times> nat) list"
  pg_unhandled :: "js_error list"      \<comment> \<open>errors that no handler of the script catches\<close>

definition get_target :: "page \<Rightarrow> target \<Rightarrow> target_element option" where
  "get_target p t = map_get (pg_targets p) t"

definition update_target :: "target \<Rightarrow> (target_element \<Rightarrow> target_element) \<Rightarrow> page \<Rightarrow> page" where
  "update_target t f p =
     (case get_target p t of
        Some el \<Rightarrow> p\<lparr>pg_targets := map_set t (f el) (pg_targets p)\<rparr>
      | None \<Rightarrow> p)"

definition missing_target :: "target \<Rightarrow> js_error" where
  "missing_target t =
     ErrorObject ''Error'' (''Missing target element '' @ [chr 34] @ fst t @ ''.'' @ snd t @ [chr 34])"

section \<open>Flash messages\<close>

text \<open>\<open>createFlash\<close>: the new element and the page with its removal scheduled.\<close>

definition createFlash :: "jsstr \<Rightarrow> jsstr \<Rightarrow> page \<Rightarrow> flash_message \<times> page" where
  "createFlash className content p =
     (let newDiv = \<lparr>f_id = pg_next p, f_class = className, f_text = trim (collapse_ws content)\<rparr>
      in (newDiv, p\<lparr>pg_next := Suc (pg_next p), pg_timers := pg_timers p @ [(pg_now p + 4000, pg_next p)]\<rparr>))"

text \<open>\<open>printError\<close> and \<open>printSuccess\<close> append it to the wrapper target, if there is one.\<close>

definition print_flash :: "jsstr \<Rightarrow> jsstr \<Rightarrow> page \<Rightarrow> (js_error + unit) \<times> page" where
  "print_flash className e p =
     (let (newDiv, p') = createFlash className e p
      in case get_target p' (''flash'', ''wrapper'') of
           None \<Rightarrow> (Inl (missing_target (''flash'', ''wrapper'')), p')
         | Some _ \<Rightarrow> (Inr (), p'\<lparr>pg_flashes := pg_flashes p' @ [newDiv],
                              pg_shown := pg_shown p' @ [(f_class newDiv, f_text newDiv)]\<rparr>))"

definition printError :: "jsstr \<Rightarrow> page \<Rightarrow> (js_error + unit) \<times> page" where
  "printError e = print_flash ''error'' e"

definition printSuccess :: "jsstr \<Rightarrow> page \<Rightarrow> (js_error + unit) \<times> page" where
  "printSuccess e = print_flash ''success'' e"

text \<open>The close button's listener and the timer's callback remove the element.\<close>

definition removeFlash :: "nat \<Rightarrow> page \<Rightarrow> page" where
  "removeFlash i p = p\<lparr>pg_flashes := filter (\<lambda>f. f_id f \<noteq> i) (pg_flashes p)\<rparr>"

definition elapse :: "nat \<Rightarrow> page \<Rightarrow> page" where
  "elapse ms p =
     (let p' = p\<lparr>pg_now := pg_now p + ms\<rparr>;
          due = filter (\<lambda>t. fst t \<le> pg_now p') (pg_timers p')
      in (fold (\<lambda>t. removeFlash (snd t)) due p')\<lparr>pg_timers := filter (\<lambda>t. \<not> fst t \<le> pg_now p') (pg_timers p')\<rparr>)"

section \<open>The text of a flash message\<close>

definition trim_end :: "jsstr \<Rightarrow> jsstr" where
  "trim_end s = rev (dropWhile is_ws (rev s))"

lemma trim_end_free: "ws_free w \<Longrightarrow> trim_end w = w"
proof -
  assume "ws_free w"
  then have "dropWhile is_ws (rev w) = rev w"
    by (cases "rev w") (auto simp: ws_free_def dest: arg_cong [where f = set])
  then show ?thesis by (simp add: trim_end_def)
qed

lemma dropWhile_append_if:
  "dropWhile P (x @ y) = (if dropWhile P x = [] then dropWhile P y else dropWhile P x @ y)"
  by (induction x) auto

lemma trim_end_append: "trim_end (w @ x) = (if trim_end x = [] then trim_end w else w @ trim_end x)"
  by (simp add: trim_end_def dropWhile_append_if)

definition pieces :: "jsstr \<Rightarrow> jsstr list" where
  "pieces s = filter (\<lambda>w. w \<noteq> []) (split_ws s)"

lemma split_first:
  obtains (free) "ws_free s"
  | (run) w c cs where "s = w @ c # cs" "ws_free w" "is_ws c"
      "dropWhile (\<lambda>c. \<not> is_ws c) s = c # cs" "takeWhile (\<lambda>c. \<not> is_ws c) s = w"
proof (cases "dropWhile (\<lambda>c. \<not> is_ws c) s")
  case Nil
  then have "ws_free s" by (auto simp: ws_free_def dropWhile_eq_Nil_conv)
  then show ?thesis by (rule that)
next
  case (Cons c cs)
  have "s = takeWhile (\<lambda>c. \<not> is_ws c) s @ c # cs"
    using takeWhile_dropWhile_id [of "\<lambda>c. \<not> is_ws c" s] by (simp only: Cons)
  moreover have "is_ws c" using Cons by (metis hd_dropWhile list.distinct(1) list.sel(1))
  moreover have "ws_free (takeWhile (\<lambda>c. \<not> is_ws c) s)"
    by (auto simp: ws_free_def dest: set_takeWhileD)
  ultimately show ?thesis using Cons that by blast
qed

lemma collapse_ws_free: "ws_free w \<Longrightarrow> collapse_ws (w @ s) = w @ collapse_ws s"
  by (induction w) simp_all

lemma join_filter_Cons:
  "join sep (w # ws) = (if ws = [] then w else w @ sep @ join sep ws)"
  by (cases ws) simp_all

lemma trim_end_collapse:
  "s = [] \<or> \<not> is_ws (hd s) \<Longrightarrow> trim_end (collapse_ws s) = join '' '' (pieces s)"
proof (induction s rule: split_ws.induct)
  case (1 s)
  show ?case
  proof (cases rule: split_first [of s])
    case free
    have "collapse_ws s = s" using collapse_ws_free [OF free, of "[]"] by simp
    with free show ?thesis
      by (cases s) (auto simp: pieces_def split_ws_free trim_end_free)
  next
    case (run w c cs)
    let ?r = "dropWhile is_ws cs"
    have w: "w \<noteq> []" using "1.prems" run by (cases w) auto
    have r: "?r = [] \<or> \<not> is_ws (hd ?r)" using hd_dropWhile by blast
    have IH: "trim_end (collapse_ws ?r) = join '' '' (pieces ?r)"
      using "1.IH" [OF run(4) r] .
    have split: "pieces s = w # pieces ?r"
      using w run by (simp add: pieces_def split_ws_append)
    have "join '' '' (pieces ?r) = [] \<longleftrightarrow> pieces ?r = []"
      by (cases "pieces ?r") (auto simp: pieces_def join_filter_Cons dest!: arg_cong [where f = set] split: if_splits)
    moreover have "collapse_ws s = w @ '' '' @ collapse_ws ?r"
      using run by (simp add: collapse_ws_free)
    moreover have "trim_end '' '' = []" by (simp add: trim_end_def is_ws_def code_def)
    ultimately show ?thesis
      using IH run(2) trim_end_append [of "'' ''" "collapse_ws ?r"]
      by (simp add: split trim_end_append trim_end_free join_filter_Cons)
  qed
qed

lemma pieces_append:
  "ws_free w \<Longrightarrow> is_ws c \<Longrightarrow>
   pieces (w @ c # s) = (if w = [] then pieces (dropWhile is_ws s) else w # pieces (dropWhile is_ws s))"
  by (simp add: pieces_def split_ws_append)

lemma pieces_dropWhile: "pieces (dropWhile is_ws s) = pieces s"
  using pieces_append [of "[]" "hd s" "tl s"] by (cases s) auto

lemma dropWhile_trim_end: "dropWhile is_ws (trim_end s) = trim_end (dropWhile is_ws s)"
proof (induction s)
  case (Cons c s)
  have split: "trim_end (c # s) = (if trim_end s = [] then trim_end [c] else c # trim_end s)"
    using trim_end_append [of "[c]" s] by simp
  have "trim_end [c] = (if is_ws c then [] else [c])" by (simp add: trim_end_def)
  with split Cons show ?case by (auto split: if_splits)
qed (simp add: trim_end_def)

lemma pieces_trim_end: "pieces (trim_end s) = pieces s"
proof (induction s rule: split_ws.induct)
  case (1 s)
  show ?case
  proof (cases rule: split_first [of s])
    case free
    then show ?thesis by (simp add: trim_end_free)
  next
    case (run w c cs)
    have IH: "pieces (trim_end (dropWhile is_ws cs)) = pieces (dropWhile is_ws cs)"
      using "1.IH" [OF run(4)] .
    have split: "trim_end (c # cs) = (if trim_end cs = [] then [] else c # trim_end cs)"
      using trim_end_append [of "[c]" cs] run(3) by (simp add: trim_end_def)
    have nil: "pieces [] = []" by (simp add: pieces_def split_ws_free)
    show ?thesis
    proof (cases "trim_end cs = []")
      case True
      then have "pieces (dropWhile is_ws cs) = []"
        using IH nil dropWhile_trim_end [of cs] by simp
      moreover have "pieces w = (if w = [] then [] else [w])"
        using run(2) by (simp add: pieces_def split_ws_free)
      ultimately show ?thesis
        using run True split by (simp add: trim_end_append trim_end_free pieces_append)
    next
      case False
      then have "trim_end s = w @ c # trim_end cs"
        using run(1) split by (simp add: trim_end_append)
      with run(1-3) IH show ?thesis
        by (simp add: pieces_append dropWhile_trim_end)
    qed
  qed
qed

lemma words_pieces: "words s = pieces s"
proof -
  have "trim s = trim_end (dropWhile is_ws s)" by (simp add: trim_def trim_end_def)
  then show ?thesis
    by (simp add: words_def pieces_def [symmetric] pieces_trim_end pieces_dropWhile)
qed

lemma flash_text: "trim (collapse_ws s) = join '' '' (words s)"
proof -
  let ?r = "dropWhile is_ws s"
  have r: "?r = [] \<or> \<not> is_ws (hd ?r)" using hd_dropWhile by blast
  have sp: "is_ws (CHR '' '')" by (simp add: is_ws_def code_def)
  have keep: "dropWhile is_ws (collapse_ws t) = collapse_ws t" if "t = [] \<or> \<not> is_ws (hd t)" for t
    using that by (cases t) auto
  have "dropWhile is_ws (collapse_ws s) = collapse_ws ?r"
  proof (cases s)
    case (Cons c cs)
    have "dropWhile is_ws cs = [] \<or> \<not> is_ws (hd (dropWhile is_ws cs))" using hd_dropWhile by blast
    with Cons sp keep show ?thesis by (cases "is_ws c") simp_all
  qed simp
  then have "trim (collapse_ws s) = trim_end (collapse_ws ?r)" by (simp add: trim_def trim_end_def)
  with trim_end_collapse [OF r] show ?thesis by (simp add: words_pieces pieces_dropWhile)
qed

section \<open>What the flash wrapper shows\<close>

text \<open>
  Abstractly, the wrapper is a list of messages with the time each was printed; a message
  is there until it is closed or four seconds have passed.
\<close>

datatype flash_event = Print jsstr jsstr | CloseFlash nat | Elapse nat

fun flash_step :: "flash_event \<Rightarrow> page \<Rightarrow> page" where
  "flash_step (Print className e) p = snd (print_flash className e p)"
| "flash_step (CloseFlash i) p = removeFlash i p"
| "flash_step (Elapse ms) p = elapse ms p"

record flash_spec =
  fs_now :: nat
  fs_next :: nat
  fs_alive :: "(nat \<times> flash_message) list"

fun spec_step :: "flash_event \<Rightarrow> flash_spec \<Rightarrow> flash_spec" where
  "spec_step (Print className e) s =
     s\<lparr>fs_next := Suc (fs_next s),
       fs_alive := fs_alive s @ [(fs_now s, \<lparr>f_id = fs_next s, f_class = className, f_text = join '' '' (words e)\<rparr>)]\<rparr>"
| "spec_step (CloseFlash i) s = s\<lparr>fs_alive := filter (\<lambda>a. f_id (snd a) \<noteq> i) (fs_alive s)\<rparr>"
| "spec_step (Elapse ms) s =
     s\<lparr>fs_now := fs_now s + ms, fs_alive := filter (\<lambda>a. fs_now s + ms < fst a + 4000) (fs_alive s)\<rparr>"

definition flash_rel :: "page \<Rightarrow> flash_spec \<Rightarrow> bool" where
  "flash_rel p s \<longleftrightarrow>
     get_target p (''flash'', ''wrapper'') \<noteq> None \<and> pg_now p = fs_now s \<and> pg_next p = fs_next s \<and>
     pg_flashes p = map snd (fs_alive s) \<and>
     (\<forall>a \<in> set (fs_alive s). f_id (snd a) < fs_next s \<and>
        (\<forall>due. (due, f_id (snd a)) \<in> set (pg_timers p) \<longleftrightarrow> due = fst a + 4000)) \<and>
     (\<forall>t \<in> set (pg_timers p). snd t < fs_next s)"

lemma flash_rel_print:
  assumes "flash_rel p s"
  shows "flash_rel (snd (print_flash c e p)) (spec_step (Print c e) s)"
  using assms
  by (fastforce simp: flash_rel_def print_flash_def createFlash_def get_target_def flash_text Let_def)

lemma flash_rel_close:
  assumes "flash_rel p s"
  shows "flash_rel (removeFlash i p) (spec_step (CloseFlash i) s)"
  using assms by (auto simp: flash_rel_def removeFlash_def get_target_def filter_map o_def)

lemma fold_removeFlash:
  "pg_flashes (fold (\<lambda>t. removeFlash (snd t)) ts p) = filter (\<lambda>f. f_id f \<notin> snd ` set ts) (pg_flashes p)"
  "pg_next (fold (\<lambda>t. removeFlash (snd t)) ts p) = pg_next p"
  "pg_now (fold (\<lambda>t. removeFlash (snd t)) ts p) = pg_now p"
  "pg_targets (fold (\<lambda>t. removeFlash (snd t)) ts p) = pg_targets p"
  by (induction ts arbitrary: p) (auto simp: removeFlash_def conj_commute)

lemma flash_rel_elapse:
  assumes "flash_rel p s"
  shows "flash_rel (elapse ms p) (spec_step (Elapse ms) s)"
proof -
  let ?due = "filter (\<lambda>t. fst t \<le> pg_now p + ms) (pg_timers p)"
  have now: "pg_now p = fs_now s" using assms by (simp add: flash_rel_def)
  have "f_id (snd a) \<notin> snd ` set ?due \<longleftrightarrow> fs_now s + ms < fst a + 4000" if "a \<in> set (fs_alive s)" for a
  proof -
    have "f_id (snd a) \<in> snd ` set ?due \<longleftrightarrow> (\<exists>due. (due, f_id (snd a)) \<in> set (pg_timers p) \<and> due \<le> pg_now p + ms)"
      by (force simp: image_iff)
    also have "\<dots> \<longleftrightarrow> fst a + 4000 \<le> fs_now s + ms"
      using assms that by (auto simp: flash_rel_def)
    finally show ?thesis by linarith
  qed
  then have "pg_flashes (elapse ms p) = map snd (fs_alive (spec_step (Elapse ms) s))"
    using assms by (simp add: elapse_def Let_def fold_removeFlash flash_rel_def filter_map o_def now cong: filter_cong)
  with assms show ?thesis
    by (auto simp: flash_rel_def elapse_def Let_def fold_removeFlash get_target_def)
qed

lemma flash_rel_step: "flash_rel p s \<Longrightarrow> flash_rel (flash_step ev p) (spec_step ev s)"
  by (cases ev) (simp_all only: flash_step.simps flash_rel_print flash_rel_close flash_rel_elapse)

lemma flash_rel_run: "flash_rel p s \<Longrightarrow> flash_rel (fold flash_step evs p) (fold spec_step evs s)"
  by (induction evs arbitrary: p s) (simp_all add: flash_rel_step)

section \<open>Collapsible sections\<close>

text \<open>
  An element of class collapsible: its class list, the element after it, and how many click
  listeners it has; \<open>display\<close> is the style of the following elements.
\<close>

record collapsible =
  cl_classes :: "jsstr jsset"
  cl_next :: "nat option"
  cl_listeners :: nat

record sections =
  sc_coll :: "collapsible list"
  sc_display :: "nat \<Rightarrow> jsstr"

definition null_deref :: js_error where
  "null_deref = ErrorObject ''TypeError'' ''null has no properties''"

text \<open>The click listener; with no element after it the style cannot be read.\<close>

definition coll_click :: "nat \<Rightarrow> sections \<Rightarrow> (js_error + unit) \<times> sections" where
  "coll_click i s =
     (let c = sc_coll s ! i
      in case cl_next c of
           None \<Rightarrow> (Inl null_deref, s)
         | Some content \<Rightarrow>
             if ''active'' \<in> set (cl_classes c)
             then (Inr (), s\<lparr>sc_display := (sc_display s)(content := ''none''),
                             sc_coll := (sc_coll s)[i := c\<lparr>cl_classes := set_delete ''active'' (cl_classes c)\<rparr>]\<rparr>)
             else (Inr (), s\<lparr>sc_display := (sc_display s)(content := ''block''),
                             sc_coll := (sc_coll s)[i := c\<lparr>cl_classes := set_add ''active'' (cl_classes c)\<rparr>]\<rparr>))"

text \<open>The browser runs the listener once for each time it was added.\<close>

definition click :: "nat \<Rightarrow> sections \<Rightarrow> sections" where
  "click i s =
     (if i < length (sc_coll s)
      then ((\<lambda>s. snd (coll_click i s)) ^^ cl_listeners (sc_coll s ! i)) s else s)"

definition init_one :: "nat \<Rightarrow> sections \<Rightarrow> (js_error + unit) \<times> sections" where
  "init_one i s =
     (let c = sc_coll s ! i;
          s' = s\<lparr>sc_coll := (sc_coll s)[i := c\<lparr>cl_listeners := Suc (cl_listeners c)\<rparr>]\<rparr>
      in case cl_next c of
           None \<Rightarrow> (Inl null_deref, s')
         | Some content \<Rightarrow>
             (Inr (), s'\<lparr>sc_display := (sc_display s')
                (content := if ''active'' \<in> set (cl_classes c) then ''block'' else ''none'')\<rparr>))"

fun init_loop :: "nat list \<Rightarrow> sections \<Rightarrow> (js_error + unit) \<times> sections" where
  "init_loop [] s = (Inr (), s)"
| "init_loop (i # is) s =
     (case init_one i s of (Inl e, s') \<Rightarrow> (Inl e, s') | (Inr _, s') \<Rightarrow> init_loop is s')"

definition initCollapsible :: "sections \<Rightarrow> (js_error + unit) \<times> sections" where
  "initCollapsible s = init_loop [0..<length (sc_coll s)] s"

text \<open>
  A page for which the function is meant: no listeners yet, every section has a following
  element of its own.
\<close>

definition sections_ok :: "sections \<Rightarrow> bool" where
  "sections_ok s \<longleftrightarrow> (\<forall>c \<in> set (sc_coll s). cl_next c \<noteq> None \<and> cl_listeners c = 0 \<and> distinct (cl_classes c)) \<and>
     distinct (map cl_next (sc_coll s))"

definition is_open :: "sections \<Rightarrow> nat \<Rightarrow> bool" where
  "is_open s i \<longleftrightarrow> ''active'' \<in> set (cl_classes (sc_coll s ! i))"

definition shown_right :: "sections \<Rightarrow> nat \<Rightarrow> bool" where
  "shown_right s i \<longleftrightarrow>
     (case cl_next (sc_coll s ! i) of
        Some content \<Rightarrow> sc_display s content = (if is_open s i then ''block'' else ''none'')
      | None \<Rightarrow> False)"

text \<open>The state after the first \<open>k\<close> sections of \<open>s0\<close> are initialised and the clicks \<open>cs\<close>.\<close>

definition sections_inv :: "sections \<Rightarrow> nat \<Rightarrow> nat list \<Rightarrow> sections \<Rightarrow> bool" where
  "sections_inv s0 k cs s \<longleftrightarrow> length (sc_coll s) = length (sc_coll s0) \<and>
     (\<forall>i < length (sc_coll s0).
        cl_next (sc_coll s ! i) = cl_next (sc_coll s0 ! i) \<and> distinct (cl_classes (sc_coll s ! i)) \<and>
        cl_listeners (sc_coll s ! i) = (if i < k then 1 else 0) \<and>
        is_open s i = (is_open s0 i \<noteq> odd (count_list cs i)) \<and>
        (i < k \<longrightarrow> shown_right s i))"

lemma next_inj:
  assumes "sections_ok s0" and "i < length (sc_coll s0)" and "j < length (sc_coll s0)" and "i \<noteq> j"
    and "cl_next (sc_coll s0 ! i) = Some x" and "cl_next (sc_coll s0 ! j) = Some y"
  shows "x \<noteq> y"
  using assms nth_eq_iff_index_eq [of "map cl_next (sc_coll s0)" i j] by (auto simp: sections_ok_def)

lemma next_Some: "sections_ok s0 \<Longrightarrow> i < length (sc_coll s0) \<Longrightarrow> \<exists>x. cl_next (sc_coll s0 ! i) = Some x"
  by (auto simp: sections_ok_def)

lemma init_one_inv:
  assumes ok: "sections_ok s0" and inv: "sections_inv s0 k [] s" and k: "k < length (sc_coll s0)"
  shows "\<exists>s'. init_one k s = (Inr (), s') \<and> sections_inv s0 (Suc k) [] s'"
proof -
  obtain x where x: "cl_next (sc_coll s0 ! k) = Some x" using next_Some [OF ok k] by blast
  have sk: "cl_next (sc_coll s ! k) = Some x" "cl_listeners (sc_coll s ! k) = 0" "k < length (sc_coll s)"
    using inv k x by (auto simp: sections_inv_def)
  define s' where "s' = s\<lparr>sc_coll := (sc_coll s)[k := (sc_coll s ! k)\<lparr>cl_listeners := 1\<rparr>],
    sc_display := (sc_display s)(x := if is_open s k then ''block'' else ''none'')\<rparr>"
  have "init_one k s = (Inr (), s')"
    using sk by (simp add: init_one_def s'_def is_open_def)
  moreover have "sections_inv s0 (Suc k) [] s'"
    unfolding sections_inv_def
  proof (intro conjI allI impI)
    fix i assume i: "i < length (sc_coll s0)"
    have si: "sc_coll s' ! i = (if i = k then (sc_coll s ! k)\<lparr>cl_listeners := 1\<rparr> else sc_coll s ! i)"
      using sk i inv by (simp add: s'_def sections_inv_def)
    show "cl_next (sc_coll s' ! i) = cl_next (sc_coll s0 ! i)" "distinct (cl_classes (sc_coll s' ! i))"
      "cl_listeners (sc_coll s' ! i) = (if i < Suc k then 1 else 0)"
      using inv i k by (auto simp: si sections_inv_def)
    have op: "is_open s' i = is_open s i" by (simp add: is_open_def si)
    then show "is_open s' i = (is_open s0 i \<noteq> odd (count_list [] i))"
      using inv i by (simp add: sections_inv_def)
    assume "i < Suc k"
    show "shown_right s' i"
    proof (cases "i = k")
      case True
      with op sk show ?thesis by (simp add: shown_right_def si) (simp add: s'_def)
    next
      case False
      obtain y where "cl_next (sc_coll s0 ! i) = Some y" using next_Some [OF ok i] by blast
      moreover from this have "y \<noteq> x" using next_inj [OF ok i k False] x by blast
      moreover have "shown_right s i" "cl_next (sc_coll s ! i) = cl_next (sc_coll s0 ! i)"
        using inv False \<open>i < Suc k\<close> i by (auto simp: sections_inv_def)
      ultimately show ?thesis using op False by (simp add: shown_right_def si) (simp add: s'_def)
    qed
  qed (use inv in \<open>simp add: s'_def sections_inv_def\<close>)
  ultimately show ?thesis by blast
qed

lemma init_loop_inv:
  assumes "sections_ok s0" and "sections_inv s0 k [] s" and "k \<le> length (sc_coll s0)"
  shows "\<exists>s'. init_loop [k..<length (sc_coll s0)] s = (Inr (), s') \<and> sections_inv s0 (length (sc_coll s0)) [] s'"
  using assms(2,3)
proof (induction "length (sc_coll s0) - k" arbitrary: k s)
  case (Suc d)
  then have k: "k < length (sc_coll s0)" by simp
  obtain s1 where s1: "init_one k s = (Inr (), s1)" "sections_inv s0 (Suc k) [] s1"
    using init_one_inv [OF assms(1) Suc.prems(1) k] by blast
  have "\<exists>s'. init_loop [Suc k..<length (sc_coll s0)] s1 = (Inr (), s') \<and>
      sections_inv s0 (length (sc_coll s0)) [] s'"
    using Suc.hyps(2) k by (intro Suc.hyps(1) s1(2)) simp_all
  then show ?case using s1(1) k by (simp add: upt_conv_Cons)
qed auto

lemma click_inv:
  assumes ok: "sections_ok s0" and inv: "sections_inv s0 (length (sc_coll s0)) cs s"
  shows "sections_inv s0 (length (sc_coll s0)) (cs @ [k]) (click k s)"
proof (cases "k < length (sc_coll s0)")
  case False
  with inv show ?thesis by (auto simp: sections_inv_def click_def)
next
  case k: True
  obtain x where x: "cl_next (sc_coll s0 ! k) = Some x" using next_Some [OF ok k] by blast
  have sk: "cl_next (sc_coll s ! k) = Some x" "cl_listeners (sc_coll s ! k) = 1" "k < length (sc_coll s)"
    "distinct (cl_classes (sc_coll s ! k))"
    using inv k x by (auto simp: sections_inv_def)
  define f where "f = (if is_open s k then set_delete ''active'' else set_add ''active'')"
  define s' where "s' = s\<lparr>sc_coll := (sc_coll s)[k := (sc_coll s ! k)\<lparr>cl_classes := f (cl_classes (sc_coll s ! k))\<rparr>],
    sc_display := (sc_display s)(x := if is_open s k then ''none'' else ''block'')\<rparr>"
  have click: "click k s = s'"
    using sk by (simp add: click_def coll_click_def s'_def is_open_def f_def Let_def)
  show ?thesis
    unfolding click sections_inv_def
  proof (intro conjI allI impI)
    fix i assume i: "i < length (sc_coll s0)"
    have si: "sc_coll s' ! i =
        (if i = k then (sc_coll s ! k)\<lparr>cl_classes := f (cl_classes (sc_coll s ! k))\<rparr> else sc_coll s ! i)"
      using sk i inv by (simp add: s'_def sections_inv_def)
    show "cl_next (sc_coll s' ! i) = cl_next (sc_coll s0 ! i)"
      "cl_listeners (sc_coll s' ! i) = (if i < length (sc_coll s0) then 1 else 0)"
      "distinct (cl_classes (sc_coll s' ! i))"
      using inv i k by (auto simp: si sections_inv_def f_def set_add_def set_delete_def)
    have op: "is_open s' i = (is_open s i \<noteq> (i = k))"
      by (auto simp: is_open_def si f_def set_add_def set_delete_def)
    then show "is_open s' i = (is_open s0 i \<noteq> odd (count_list (cs @ [k]) i))"
      using inv i by (auto simp: sections_inv_def)
    show "shown_right s' i"
    proof (cases "i = k")
      case True
      with op sk show ?thesis by (simp add: shown_right_def si) (simp add: s'_def)
    next
      case False
      obtain y where "cl_next (sc_coll s0 ! i) = Some y" using next_Some [OF ok i] by blast
      moreover from this have "y \<noteq> x" using next_inj [OF ok i k False] x by blast
      moreover have "shown_right s i" "cl_next (sc_coll s ! i) = cl_next (sc_coll s0 ! i)"
        using inv i by (auto simp: sections_inv_def)
      ultimately show ?thesis using op False by (simp add: shown_right_def si) (simp add: s'_def)
    qed
  qed (use inv in \<open>simp add: s'_def sections_inv_def\<close>)
qed

lemma clicks_inv:
  "sections_ok s0 \<Longrightarrow> sections_inv s0 (length (sc_coll s0)) cs0 s \<Longrightarrow>
   sections_inv s0 (length (sc_coll s0)) (cs0 @ cs) (fold click cs s)"
proof (induction cs arbitrary: cs0 s)
  case (Cons k cs)
  from Cons.IH [OF Cons.prems(1) click_inv [OF Cons.prems]] show ?case by simp
qed simp

section \<open>Properties\<close>

text \<open>
  C31. Flash messages. Whatever is printed, closed and however time passes, the wrapper shows
  exactly the messages printed less than four seconds ago and not closed since, in the
  order of printing, each with its text reduced to its words separated by single spaces.
\<close>

theorem flash_messages_refine_spec:
  assumes "get_target p (''flash'', ''wrapper'') \<noteq> None" and "pg_flashes p = []" and "pg_timers p = []"
  shows "let p' = fold flash_step evs p;
      s' = fold spec_step evs \<lparr>fs_now = pg_now p, fs_next = pg_next p, fs_alive = []\<rparr>
    in pg_flashes p' = map snd (fs_alive s') \<and> pg_now p' = fs_now s'"
proof -
  have "flash_rel p \<lparr>fs_now = pg_now p, fs_next = pg_next p, fs_alive = []\<rparr>"
    using assms by (simp add: flash_rel_def)
  from flash_rel_run [OF this, of evs] show ?thesis by (simp add: flash_rel_def Let_def)
qed

definition empty_element :: target_element where
  "empty_element = \<lparr>e_name = [], e_value = None, e_checked = False, e_files = [], e_children = [],
     e_scrollLeft = 0, e_scrollTop = 0, e_scrollWidth = 0, e_scrollHeight = 0, e_width = []\<rparr>"

definition flash_page :: page where
  "flash_page = \<lparr>pg_targets = [((''flash'', ''wrapper''), empty_element)], pg_controllers = [''flash''],
     pg_search = [], pg_endpoint = None, pg_socketAddr = None, pg_now = 0, pg_flashes = [], pg_timers = [],
     pg_next = 0, pg_shown = [], pg_requests = [], pg_sources = [], pg_downloads = [], pg_unhandled = []\<rparr>"

lemma flash_messages_refine_spec_witness:
  "map f_text (pg_flashes (fold flash_step
     [Print ''error'' '' a  b '', Elapse 3000, Print ''success'' ''c'', Elapse 1000] flash_page)) = [''c'']"
proof -
  have "map f_text (map snd (fs_alive (fold spec_step
      [Print ''error'' '' a  b '', Elapse 3000, Print ''success'' ''c'', Elapse 1000]
      \<lparr>fs_now = pg_now flash_page, fs_next = pg_next flash_page, fs_alive = []\<rparr>))) = [''c'']"
    by code_simp
  then show ?thesis
    using flash_messages_refine_spec [of flash_page "[Print ''error'' '' a  b '', Elapse 3000, Print ''success'' ''c'', Elapse 1000]"]
    by (simp only: Let_def) (simp add: flash_page_def get_target_def)
qed

text \<open>
  C32. Collapsible sections. On a page where every section has a following element of its own,
  \<open>initCollapsible\<close> succeeds, and from then on, under any sequence of clicks, the content
  after each section is displayed exactly when the section is marked active, and a section
  is active exactly when it was so at the start and was clicked an even number of times, or
  was not and was clicked an odd number of times.
\<close>

theorem collapsibles_follow_clicks:
  assumes "sections_ok s"
  shows "case initCollapsible s of
      (Inl _, _) \<Rightarrow> False
    | (Inr _, s') \<Rightarrow> (\<forall>i < length (sc_coll s).
        shown_right (fold click clicks s') i \<and>
        is_open (fold click clicks s') i = (is_open s i \<noteq> odd (count_list clicks i)))"
proof -
  have "sections_inv s 0 [] s"
    using assms by (auto simp: sections_inv_def sections_ok_def)
  from init_loop_inv [OF assms this] obtain s' where
    s': "initCollapsible s = (Inr (), s')" "sections_inv s (length (sc_coll s)) [] s'"
    by (auto simp: initCollapsible_def)
  from clicks_inv [OF assms s'(2), of clicks] show ?thesis
    by (simp add: s'(1) sections_inv_def)
qed

definition sample_sections :: sections where
  "sample_sections =
     \<lparr>sc_coll = [\<lparr>cl_classes = [''collapsible''], cl_next = Some 10, cl_listeners = 0\<rparr>,
                 \<lparr>cl_classes = [''collapsible'', ''active''], cl_next = Some 11, cl_listeners = 0\<rparr>],
      sc_display = (\<lambda>_. [])\<rparr>"

lemma collapsibles_follow_clicks_witness:
  "case initCollapsible sample_sections of
      (Inl _, _) \<Rightarrow> False
    | (Inr _, s') \<Rightarrow> shown_right (fold click [0, 1, 0] s') 1 \<and> \<not> is_open (fold click [0, 1, 0] s') 1"
proof -
  have ok: "sections_ok sample_sections" by (simp add: sections_ok_def sample_sections_def)
  have "is_open sample_sections 1" by (simp add: is_open_def sample_sections_def)
  moreover have "1 < length (sc_coll sample_sections)" by (simp add: sample_sections_def)
  ultimately show ?thesis
    using collapsibles_follow_clicks [OF ok, of "[0, 1, 0]"]
    by (auto split: prod.splits sum.splits)
qed

end
