(* ===== verification/Gui_Async.thy ===== *)
theory Gui_Async
  imports Gui_Page
begin

text \<open>
  The asynchronous code of main.js. An async function runs until its first \<open>await\<close>, and
  each continuation runs later, when the awaited promise settles, on the page as it then
  is. A run of code therefore takes the page to a new page and a list of pending awaits,
  each with its continuation; exceptions are values that \<open>try_catch\<close> intercepts, and what
  no one intercepts is recorded in \<open>pg_unhandled\<close>. Below are also the methods that the
  controllers inherit from BaseElement.
\<close>

section \<open>Pending awaits\<close>

datatype awaiting =
    AwFetch request
  | AwText response
  | AwJson response
  | AwBlob response
  | AwRender jsstr        \<comment> \<open>\<open>viz.renderSVGElement\<close>\<close>
  | AwFile nat            \<comment> \<open>the load event of a FileReader\<close>

datatype reply =
    RResponse response
  | RText jsstr
  | RJson json
  | RBlob nat
  | RSvg dom_node
  | RBuffer nat
  | RError js_error

fun fits :: "awaiting \<Rightarrow> reply \<Rightarrow> bool" where
  "fits (AwFetch _) (RResponse _) = True"
| "fits (AwText _) (RText _) = True"
| "fits (AwJson _) (RJson _) = True"
| "fits (AwBlob _) (RBlob _) = True"
| "fits (AwRender _) (RSvg _) = True"
| "fits (AwFile _) (RBuffer _) = True"
| "fits _ (RError _) = True"
| "fits _ _ = False"

datatype pending = Pending (awaited: awaiting) (resume: "reply \<Rightarrow> page \<Rightarrow> pending list \<times> page")

type_synonym code = "page \<Rightarrow> pending list \<times> page"
type_synonym 'a js = "(js_error + 'a \<Rightarrow> code) \<Rightarrow> code"

section \<open>Statements\<close>

definition ret :: "'a \<Rightarrow> 'a js" where
  "ret x k = k (Inr x)"

definition throw :: "js_error \<Rightarrow> 'a js" where
  "throw e k = k (Inl e)"

definition bnd :: "'a js \<Rightarrow> ('a \<Rightarrow> 'b js) \<Rightarrow> 'b js" where
  "bnd m f k = m (\<lambda>r. case r of Inl e \<Rightarrow> k (Inl e) | Inr x \<Rightarrow> f x k)"

definition seq :: "'a js \<Rightarrow> 'b js \<Rightarrow> 'b js" where
  "seq m n = bnd m (\<lambda>_. n)"

definition try_catch :: "'a js \<Rightarrow> (js_error \<Rightarrow> 'a js) \<Rightarrow> 'a js" where
  "try_catch m h k = m (\<lambda>r. case r of Inl e \<Rightarrow> h e k | Inr x \<Rightarrow> k (Inr x))"

text \<open>A synchronous call: it reads and changes the page and may throw.\<close>

definition sync :: "(page \<Rightarrow> (js_error + 'a) \<times> page) \<Rightarrow> 'a js" where
  "sync f k p = (case f p of (r, p') \<Rightarrow> k r p')"

definition gets :: "(page \<Rightarrow> 'a) \<Rightarrow> 'a js" where
  "gets f = sync (\<lambda>p. (Inr (f p), p))"

definition modify :: "(page \<Rightarrow> page) \<Rightarrow> unit js" where
  "modify f = sync (\<lambda>p. (Inr (), f p))"

text \<open>\<open>await\<close>: the continuation runs with the settled value.\<close>

definition await :: "awaiting \<Rightarrow> (reply \<Rightarrow> 'a option) \<Rightarrow> 'a js" where
  "await w sel k p =
     ([Pending w (\<lambda>reply. case reply of
         RError e \<Rightarrow> k (Inl e)
       | _ \<Rightarrow> (case sel reply of Some x \<Rightarrow> k (Inr x) | None \<Rightarrow> (\<lambda>p. ([], p))))], p)"

definition unhandled :: "js_error \<Rightarrow> page \<Rightarrow> page" where
  "unhandled e p = p\<lparr>pg_unhandled := pg_unhandled p @ [e]\<rparr>"

text \<open>A call whose result and exceptions nobody takes: the end of a run.\<close>

definition run_js :: "'a js \<Rightarrow> code" where
  "run_js m = m (\<lambda>r p. ([], case r of Inl e \<Rightarrow> unhandled e p | Inr _ \<Rightarrow> p))"

text \<open>Calling an async function without awaiting it.\<close>

definition spawn :: "unit js \<Rightarrow> unit js" where
  "spawn m k p =
     (case run_js m p of (ps, p') \<Rightarrow> (case k (Inr ()) p' of (qs, p'') \<Rightarrow> (ps @ qs, p'')))"

fun for_each :: "'a list \<Rightarrow> ('a \<Rightarrow> unit js) \<Rightarrow> unit js" where
  "for_each [] f = ret ()"
| "for_each (x # xs) f = seq (f x) (for_each xs f)"

section \<open>Promises of the browser\<close>

definition fetch_global :: "request \<Rightarrow> response js" where
  "fetch_global rq =
     seq (modify (\<lambda>p. p\<lparr>pg_requests := pg_requests p @ [rq]\<rparr>))
         (await (AwFetch rq) (\<lambda>r. case r of RResponse x \<Rightarrow> Some x | _ \<Rightarrow> None))"

definition resp_text :: "response \<Rightarrow> jsstr js" where
  "resp_text resp = await (AwText resp) (\<lambda>r. case r of RText x \<Rightarrow> Some x | _ \<Rightarrow> None)"

definition resp_json :: "response \<Rightarrow> json js" where
  "resp_json resp = await (AwJson resp) (\<lambda>r. case r of RJson x \<Rightarrow> Some x | _ \<Rightarrow> None)"

definition resp_blob :: "response \<Rightarrow> nat js" where
  "resp_blob resp = await (AwBlob resp) (\<lambda>r. case r of RBlob x \<Rightarrow> Some x | _ \<Rightarrow> None)"

definition renderSVGElement :: "jsstr \<Rightarrow> dom_node js" where
  "renderSVGElement src = await (AwRender src) (\<lambda>r. case r of RSvg x \<Rightarrow> Some x | _ \<Rightarrow> None)"

section \<open>Targets and controllers\<close>

text \<open>\<open>this.xTarget\<close>: the element, or an error when the page has none.\<close>

definition the_target :: "target \<Rightarrow> target js" where
  "the_target t = sync (\<lambda>p. (case get_target p t of Some _ \<Rightarrow> Inr t | None \<Rightarrow> Inl (missing_target t), p))"

definition target_prop :: "(target_element \<Rightarrow> 'a) \<Rightarrow> target \<Rightarrow> 'a js" where
  "target_prop f t =
     sync (\<lambda>p. (case get_target p t of Some el \<Rightarrow> Inr (f el) | None \<Rightarrow> Inl (missing_target t), p))"

definition on_target :: "target \<Rightarrow> (target_element \<Rightarrow> target_element) \<Rightarrow> unit js" where
  "on_target t f = seq (the_target t) (modify (update_target t f))"

text \<open>\<open>value\<close> as a string; \<open>undefined\<close> when it is put into one.\<close>

definition value_text :: "jsstr option \<Rightarrow> jsstr" where
  "value_text v = (case v of Some s \<Rightarrow> s | None \<Rightarrow> ''undefined'')"

definition set_innerHTML :: "target \<Rightarrow> jsstr \<Rightarrow> unit js" where
  "set_innerHTML t s = on_target t (\<lambda>el. el\<lparr>e_children := (if s = [] then [] else [Markup s])\<rparr>)"

definition set_innerText :: "target \<Rightarrow> jsstr \<Rightarrow> unit js" where
  "set_innerText t s = on_target t (\<lambda>el. el\<lparr>e_children := (if s = [] then [] else [TextNode s])\<rparr>)"

definition append_child :: "target \<Rightarrow> dom_node \<Rightarrow> unit js" where
  "append_child t node = on_target t (\<lambda>el. el\<lparr>e_children := e_children el @ [node]\<rparr>)"

text \<open>
  \<open>this.application.getControllerForElementAndIdentifier(document.getElementById(id), id)\<close>
  followed by a use of the controller.
\<close>

definition controller :: "jsstr \<Rightarrow> unit js" where
  "controller ident = sync (\<lambda>p. (if ident \<in> set (pg_controllers p) then Inr () else Inl null_deref, p))"

definition flash_printError :: "jsstr \<Rightarrow> unit js" where
  "flash_printError e = seq (controller ''flash'') (sync (printError e))"

definition flash_printSuccess :: "jsstr \<Rightarrow> unit js" where
  "flash_printSuccess e = seq (controller ''flash'') (sync (printSuccess e))"

definition getAPIURL :: "jsstr \<Rightarrow> jsstr js" where
  "getAPIURL suffix = seq (controller ''peerInfo'') (gets (\<lambda>p. value_text (pg_endpoint p) @ suffix))"

section \<open>BaseElement\<close>

definition quoted :: "jsstr \<Rightarrow> jsstr" where
  "quoted s = [chr 34] @ s @ [chr 34]"

fun check_loop :: "target list \<Rightarrow> bool js" where
  "check_loop [] = ret True"
| "check_loop (el # els) =
     bnd (target_prop e_value el) (\<lambda>val.
     if val = Some [] \<or> val = None then
       bnd (target_prop e_name el) (\<lambda>name.
       seq (flash_printError (''form validation failed: '' @ quoted name @ '' is empty or invalid''))
           (ret False))
     else check_loop els)"

text \<open>The targets are looked up when the arguments are evaluated, before the loop.\<close>

fun the_targets :: "target list \<Rightarrow> unit js" where
  "the_targets [] = ret ()"
| "the_targets (t # ts) = seq (the_target t) (the_targets ts)"

definition checkInputs :: "target list \<Rightarrow> bool js" where
  "checkInputs els = seq (the_targets els) (check_loop els)"

definition base_fetch :: "request \<Rightarrow> response js" where
  "base_fetch rq =
     bnd (fetch_global rq) (\<lambda>resp.
     if rs_status resp \<noteq> 200 then
       bnd (resp_text resp) (\<lambda>txt.
       throw (Thrown (''wrong status: '' @ nat_text (rs_status resp) @ '' '' @ rs_statusText resp @ '' - '' @ txt)))
     else ret resp)"

definition get_request :: "jsstr \<Rightarrow> request" where
  "get_request url = \<lparr>rq_url = url, rq_method = ''GET'', rq_contentType = None, rq_body = None\<rparr>"

definition post_request :: "jsstr \<Rightarrow> jsstr \<Rightarrow> body \<Rightarrow> request" where
  "post_request url contentType b =
     \<lparr>rq_url = url, rq_method = ''POST'', rq_contentType = Some contentType, rq_body = Some b\<rparr>"

definition post_json :: "jsstr \<Rightarrow> json \<Rightarrow> request" where
  "post_json url j = post_request url ''application/json'' (TextBody (json_stringify j))"

end
