(* ===== verification/Gui_Messaging.thy ===== *)
theory Gui_Messaging
  imports Gui_Async
begin

text \<open>
  The controllers of main.js for the peer and its messages: PeerInfo, Messaging, Unicast,
  Routing, Packets and Broadcast, one definition per method. What the browser alone knows
  is a parameter: local time of an instant and \<open>decodeURIComponent\<close>.
\<close>

record browser =
  br_hms :: "int \<Rightarrow> nat \<times> nat \<times> nat"   \<comment> \<open>local hours, minutes, seconds of an instant in ms\<close>
  br_decodeURIComponent :: "jsstr \<Rightarrow> js_error + jsstr"

definition hms_text :: "nat \<times> nat \<times> nat \<Rightarrow> jsstr" where
  "hms_text t = (case t of (h, m, s) \<Rightarrow> nat_text h @ '':'' @ nat_text m @ '':'' @ nat_text s)"

definition nl :: jsstr where
  "nl = [chr 10]"

section \<open>Values read from responses\<close>

definition undef_string :: "json option \<Rightarrow> jsstr" where
  "undef_string v = (case v of Some j \<Rightarrow> js_string j | None \<Rightarrow> ''undefined'')"

text \<open>\<open>Object.entries\<close>: of arrays the indices, of strings the characters.\<close>

fun object_entries :: "json \<Rightarrow> js_error + (jsstr \<times> json) list" where
  "object_entries (JObject ps) = Inr ps"
| "object_entries (JArray xs) = Inr (map (\<lambda>(i, x). (nat_text i, x)) (enumerate 0 xs))"
| "object_entries (JString s) = Inr (map (\<lambda>(i, c). (nat_text i, JString [c])) (enumerate 0 s))"
| "object_entries JNull = Inl (ErrorObject ''TypeError'' ''null is not an object'')"
| "object_entries _ = Inr []"

text \<open>A property of a value, \<open>None\<close> for undefined; null and undefined have none to read.\<close>

fun get_field :: "json option \<Rightarrow> jsstr \<Rightarrow> js_error + json option" where
  "get_field None name = Inl null_deref"
| "get_field (Some JNull) name = Inl null_deref"
| "get_field (Some (JObject ps)) name = Inr (map_get ps name)"
| "get_field (Some _) name = Inr None"

definition field :: "json option \<Rightarrow> jsstr \<Rightarrow> json option js" where
  "field v name = sync (\<lambda>p. (get_field v name, p))"

text \<open>The number a string converts to, for integers in decimal notation.\<close>

definition string_number :: "jsstr \<Rightarrow> int option" where
  "string_number s =
     (let t = trim s
      in if t = [] then Some 0
         else if list_all is_digit t then Some (int (digits_value t))
         else if hd t = CHR ''-'' \<and> tl t \<noteq> [] \<and> list_all is_digit (tl t)
              then Some (- int (digits_value (tl t)))
         else None)"

text \<open>\<open>==\<close> between a value and a string or undefined.\<close>

fun loose_eq :: "json option \<Rightarrow> jsstr option \<Rightarrow> bool" where
  "loose_eq None s = (s = None)"
| "loose_eq (Some JNull) s = (s = None)"
| "loose_eq (Some j) None = False"
| "loose_eq (Some (JString t)) (Some s) = (t = s)"
| "loose_eq (Some (JNumber i)) (Some s) = (string_number s = Some i)"
| "loose_eq (Some (JBool b)) (Some s) = (string_number s = Some (if b then 1 else 0))"
| "loose_eq (Some j) (Some s) = (js_string j = s)"

text \<open>A timestamp in nanoseconds to milliseconds, \<open>None\<close> for an invalid date.\<close>

fun timestamp_ms :: "json option \<Rightarrow> int option" where
  "timestamp_ms (Some (JNumber n)) = Some (if n < 0 then - ((- n) div 1000000) else n div 1000000)"
| "timestamp_ms (Some JNull) = Some 0"
| "timestamp_ms (Some (JBool b)) = Some 0"
| "timestamp_ms (Some (JString s)) = map_option (\<lambda>n. if n < 0 then - ((- n) div 1000000) else n div 1000000) (string_number s)"
| "timestamp_ms _ = None"

definition date_text :: "browser \<Rightarrow> int option \<Rightarrow> jsstr" where
  "date_text br ms = (case ms of Some t \<Rightarrow> hms_text (br_hms br t) | None \<Rightarrow> ''NaN:NaN:NaN'')"

section \<open>PeerInfo\<close>

definition getQueryArgs :: "jsstr \<Rightarrow> (jsstr \<times> jsstr option) list" where
  "getQueryArgs search =
     fold (\<lambda>item queryDict.
             let parts = split_on (CHR ''='') item
             in assign_prop (hd parts) (case tl parts of v # _ \<Rightarrow> Some v | [] \<Rightarrow> None) queryDict)
       (split_on (CHR ''&'') (drop 1 search)) []"

definition peerInfo_initialize :: "browser \<Rightarrow> unit js" where
  "peerInfo_initialize br =
     bnd (gets (\<lambda>p. getQueryArgs (pg_search p))) (\<lambda>queryDict.
     bnd (sync (\<lambda>p. (br_decodeURIComponent br
            (case map_get queryDict ''addr'' of Some (Some v) \<Rightarrow> v | _ \<Rightarrow> ''undefined''), p))) (\<lambda>decoded.
     let endpoint = ''http://'' @ decoded; addr = endpoint @ ''/socket/address'' in
     seq (modify (\<lambda>p. p\<lparr>pg_endpoint := Some endpoint\<rparr>))
    (seq (set_innerText (''peerInfo'', ''peerAddr'') endpoint)
    (try_catch
      (bnd (fetch_global (get_request addr)) (\<lambda>resp.
       bnd (resp_text resp) (\<lambda>txt.
       seq (set_innerText (''peerInfo'', ''socketAddr'') (''tcp://'' @ txt))
           (modify (\<lambda>p. p\<lparr>pg_socketAddr := Some txt\<rparr>)))))
      (\<lambda>e. flash_printError (''failed to fetch socket address: '' @ error_text e))))))"

section \<open>Messaging\<close>

definition addMsg :: "dom_node \<Rightarrow> unit js" where
  "addMsg el =
     seq (append_child (''messaging'', ''messages'') el)
    (seq (the_target (''messaging'', ''holder''))
         (on_target (''messaging'', ''holder'') (\<lambda>h. h\<lparr>e_scrollTop := e_scrollHeight h\<rparr>)))"

definition messaging_addMsg :: "dom_node \<Rightarrow> unit js" where
  "messaging_addMsg el = seq (controller ''messaging'') (addMsg el)"

section \<open>Unicast\<close>

definition chat_json :: "jsstr \<Rightarrow> json" where
  "chat_json message = JObject [(''Type'', JString ''chat''), (''payload'', JObject [(''Message'', JString message)])]"

definition sent_html :: "jsstr \<Rightarrow> jsstr \<Rightarrow> jsstr \<Rightarrow> jsstr" where
  "sent_html message destination time =
     nl @ ''                <div>'' @ nl @
     ''                    <p class='' @ quoted ''msg'' @ ''>'' @ message @ ''</p>'' @ nl @
     ''                    <p class='' @ quoted ''details'' @ ''>'' @ nl @
     ''                        to '' @ destination @ '' '' @ nl @
     ''                        at '' @ time @ nl @
     ''                    </p>'' @ nl @
     ''                </div>''"

definition unicast_send :: "browser \<Rightarrow> unit js" where
  "unicast_send br =
     bnd (getAPIURL ''/messaging/unicast'') (\<lambda>addr.
     bnd (checkInputs [(''unicast'', ''message''), (''unicast'', ''destination'')]) (\<lambda>ok.
     if \<not> ok then ret () else
     bnd (target_prop (value_text \<circ> e_value) (''unicast'', ''message'')) (\<lambda>message.
     bnd (target_prop (value_text \<circ> e_value) (''unicast'', ''destination'')) (\<lambda>destination.
     let pkt = JObject [(''Dest'', JString destination), (''Msg'', chat_json message)] in
     try_catch
      (bnd (base_fetch (post_json addr pkt)) (\<lambda>_.
       bnd (gets (\<lambda>p. hms_text (br_hms br (int (pg_now p))))) (\<lambda>time.
       messaging_addMsg (Tag ''div'' [''sent''] [Markup (sent_html message destination time)]))))
      (\<lambda>e. flash_printError (''failed to send message: '' @ error_text e))))))"

section \<open>Routing\<close>

definition route_row :: "jsstr \<times> json \<Rightarrow> dom_node" where
  "route_row entry =
     (case entry of (origin, relay) \<Rightarrow>
        Tag ''tr'' [] [Markup (''<td>'' @ origin @ ''</td><td>'' @ js_string relay @ ''</td>'')])"

definition routing_table :: "jsstr \<Rightarrow> unit js" where
  "routing_table addr =
     try_catch
      (bnd (base_fetch (get_request addr)) (\<lambda>resp.
       bnd (resp_json resp) (\<lambda>data.
       seq (set_innerHTML (''routing'', ''table'') [])
      (bnd (sync (\<lambda>p. (object_entries data, p))) (\<lambda>entries.
       seq (for_each entries (\<lambda>entry. append_child (''routing'', ''table'') (route_row entry)))
           (flash_printSuccess ''Routing table updated''))))))
      (\<lambda>e. flash_printError (''Failed to fetch routing: '' @ error_text e))"

definition routing_graph :: "jsstr \<Rightarrow> unit js" where
  "routing_graph graphAddr =
     try_catch
      (bnd (base_fetch (get_request graphAddr)) (\<lambda>resp.
       bnd (resp_text resp) (\<lambda>data.
       bnd (renderSVGElement data) (\<lambda>svg.
       seq (set_innerHTML (''routing'', ''graphviz'') [])
           (append_child (''routing'', ''graphviz'') svg)))))
      (\<lambda>e. flash_printError (''Failed to display routing: '' @ error_text e))"

definition routing_update :: "unit js" where
  "routing_update =
     bnd (getAPIURL ''/messaging/routing'') (\<lambda>addr.
     seq (routing_table addr) (routing_graph (addr @ ''?graphviz=on'')))"

text \<open>A value in a JSON array and as a property: undefined is null there and left out here.\<close>

definition array_value :: "jsstr option \<Rightarrow> json" where
  "array_value v = (case v of Some s \<Rightarrow> JString s | None \<Rightarrow> JNull)"

definition prop_value :: "jsstr \<Rightarrow> jsstr option \<Rightarrow> (jsstr \<times> json) list" where
  "prop_value k v = (case v of Some s \<Rightarrow> [(k, JString s)] | None \<Rightarrow> [])"

definition routing_addPeer :: "unit js" where
  "routing_addPeer =
     bnd (checkInputs [(''routing'', ''peer'')]) (\<lambda>ok.
     if \<not> ok then ret () else
     bnd (getAPIURL ''/messaging/peers'') (\<lambda>addr.
     bnd (target_prop e_value (''routing'', ''peer'')) (\<lambda>peer.
     try_catch
      (seq (base_fetch (post_json addr (JArray [array_value peer])))
      (seq (flash_printSuccess ''peer added'')
           (spawn routing_update)))
      (\<lambda>e. flash_printError (''failed to add peer: '' @ error_text e)))))"

definition routing_setEntry :: "unit js" where
  "routing_setEntry =
     bnd (getAPIURL ''/messaging/routing'') (\<lambda>addr.
     bnd (checkInputs [(''routing'', ''origin'')]) (\<lambda>ok.
     if \<not> ok then ret () else
     bnd (target_prop e_value (''routing'', ''origin'')) (\<lambda>origin.
     bnd (target_prop e_value (''routing'', ''relay'')) (\<lambda>relay.
     let message = JObject (prop_value ''Origin'' origin @ prop_value ''RelayAddr'' relay) in
     try_catch
      (seq (base_fetch (post_json addr message))
      (seq (if relay = Some [] then flash_printSuccess ''Entry deleted''
            else flash_printSuccess ''Entry set'')
           (spawn routing_update)))
      (\<lambda>e. flash_printError (''failed to set entry: '' @ error_text e))))))"

section \<open>Packets\<close>

definition packets_initialize :: "unit js" where
  "packets_initialize =
     bnd (getAPIURL ''/registry/pktnotify'') (\<lambda>addr.
     seq (modify (\<lambda>p. p\<lparr>pg_sources := pg_sources p @ [addr]\<rparr>))
    (seq (the_target (''packets'', ''holder'')) (ret ())))"

definition packet_html :: "jsstr \<Rightarrow> jsstr \<Rightarrow> jsstr \<Rightarrow> jsstr" where
  "packet_html message source time =
     ''<div><p class='' @ quoted ''msg'' @ ''>'' @ message @ ''</p><p class='' @ quoted ''details'' @
     ''>from '' @ source @ '' at '' @ time @ ''</p></div>''"

definition packet_chat :: "browser \<Rightarrow> json \<Rightarrow> json option \<Rightarrow> unit js" where
  "packet_chat br pkt msg =
     bnd (field (Some pkt) ''Header'') (\<lambda>header.
     bnd (field header ''Timestamp'') (\<lambda>timestamp.
     bnd (field header ''Source'') (\<lambda>source.
     seq (controller ''peerInfo'')
    (bnd (gets pg_socketAddr) (\<lambda>socketAddr.
     let cls = (if loose_eq source socketAddr then ''sent'' else ''received'') in
     bnd (field msg ''Payload'') (\<lambda>payload.
     bnd (field payload ''Message'') (\<lambda>message.
     messaging_addMsg (Tag ''div'' [cls]
       [Markup (packet_html (undef_string message) (undef_string source)
                  (date_text br (timestamp_ms timestamp)))]))))))))"

definition packetMessage :: "browser \<Rightarrow> jsstr \<Rightarrow> unit js" where
  "packetMessage br data =
     bnd (sync (\<lambda>p. (case json_parse data of Some j \<Rightarrow> Inr j
                        | None \<Rightarrow> Inl (ErrorObject ''SyntaxError'' ''JSON.parse''), p))) (\<lambda>pkt.
     bnd (field (Some pkt) ''Msg'') (\<lambda>msg.
     bnd (field msg ''Type'') (\<lambda>type.
     seq (if loose_eq type (Some ''chat'') then packet_chat br pkt msg else ret ())
    (seq (append_child (''packets'', ''packets'')
            (Tag ''div'' [] [Markup (''<pre>'' @ json_pretty [] pkt @ ''</pre>'')]))
    (seq (the_target (''packets'', ''scroll''))
    (bnd (target_prop e_scrollWidth (''packets'', ''packets'')) (\<lambda>width.
     seq (on_target (''packets'', ''scroll'') (\<lambda>el. el\<lparr>e_width := int_text width @ ''px''\<rparr>))
    (bnd (target_prop e_checked (''packets'', ''follow'')) (\<lambda>follow.
     if follow then
       seq (on_target (''packets'', ''packets'') (\<lambda>el. el\<lparr>e_scrollLeft := e_scrollWidth el\<rparr>))
           (on_target (''packets'', ''holder'') (\<lambda>el. el\<lparr>e_scrollLeft := e_scrollWidth el\<rparr>))
     else ret ())))))))))"

definition packetError :: "unit js" where
  "packetError = flash_printError ''failed to listen pkt: stopped listening''"

definition packetsScroll :: "unit js" where
  "packetsScroll =
     seq (the_target (''packets'', ''packets''))
    (bnd (target_prop e_scrollLeft (''packets'', ''holder'')) (\<lambda>left.
     on_target (''packets'', ''packets'') (\<lambda>el. el\<lparr>e_scrollLeft := left\<rparr>)))"

section \<open>Broadcast\<close>

definition broadcast_sendChat :: "unit js" where
  "broadcast_sendChat =
     bnd (getAPIURL ''/messaging/broadcast'') (\<lambda>addr.
     bnd (checkInputs [(''broadcast'', ''chatMessage'')]) (\<lambda>ok.
     if \<not> ok then ret () else
     bnd (target_prop (value_text \<circ> e_value) (''broadcast'', ''chatMessage'')) (\<lambda>message.
     try_catch
      (seq (base_fetch (post_json addr (chat_json message)))
           (flash_printSuccess ''chat message broadcasted''))
      (\<lambda>e. flash_printError (''failed to send message: '' @ error_text e)))))"

definition recipients :: "jsstr \<Rightarrow> (jsstr \<times> json) list" where
  "recipients destination =
     fold (\<lambda>e. assign_prop (trim e) (JObject [])) (split_on (CHR '','') destination) []"

definition private_json :: "jsstr \<Rightarrow> jsstr \<Rightarrow> json" where
  "private_json destination message =
     JObject [(''Type'', JString ''private''),
       (''payload'', JObject [(''Recipients'', JObject (recipients destination)), (''Msg'', chat_json message)])]"

definition broadcast_sendPrivate :: "unit js" where
  "broadcast_sendPrivate =
     bnd (getAPIURL ''/messaging/broadcast'') (\<lambda>addr.
     bnd (checkInputs [(''broadcast'', ''privateMessage''), (''broadcast'', ''privateRecipients'')]) (\<lambda>ok.
     if \<not> ok then ret () else
     bnd (target_prop (value_text \<circ> e_value) (''broadcast'', ''privateRecipients'')) (\<lambda>destination.
     bnd (target_prop (value_text \<circ> e_value) (''broadcast'', ''privateMessage'')) (\<lambda>message.
     try_catch
      (seq (base_fetch (post_json addr (private_json destination message)))
           (flash_printSuccess ''private message sent''))
      (\<lambda>e. flash_printError (''failed to send message: '' @ error_text e))))))"

section \<open>Recipients and query arguments\<close>

lemma map_of_assign_prop:
  "map_of (assign_prop k v ps) k' = (if k' = k \<and> k \<noteq> ''__proto__'' then Some v else map_of ps k')"
  by (simp add: assign_prop_def)

lemma recipients_fold:
  "map_of (fold (\<lambda>e. assign_prop (trim e) (JObject [])) es ps) k =
     (if k \<in> trim ` set es \<and> k \<noteq> ''__proto__'' then Some (JObject []) else map_of ps k)"
  by (induction es arbitrary: ps) (auto simp: map_of_assign_prop)

lemma recipients_ordered: "ordered_props (recipients d)"
proof -
  have "ordered_props ps \<Longrightarrow> ordered_props (fold (\<lambda>e. assign_prop (trim e) (JObject [])) es ps)" for es ps
    by (induction es arbitrary: ps) (simp_all add: ordered_assign_prop)
  then show ?thesis by (simp add: recipients_def ordered_props_def)
qed

lemma recipients_values: "map_of (recipients d) k = Some v \<Longrightarrow> v = JObject []"
  by (simp add: recipients_def recipients_fold split: if_splits)

lemma private_json_ok: "json_ok (private_json destination message)"
proof -
  have "distinct (map fst (recipients destination))"
    using recipients_ordered by (simp add: ordered_props_def)
  then have "v = JObject []" if "(k, v) \<in> set (recipients destination)" for k v
    using that recipients_values by (metis map_of_is_SomeI)
  then have "list_all (\<lambda>p. json_ok (snd p)) (recipients destination)"
    by (force simp: list_all_iff props_ok_def)
  then show ?thesis
    using ordered_props_ok [OF recipients_ordered [of destination]]
    by (simp add: private_json_def chat_json_def named_props)
qed

fun query_text :: "(jsstr \<times> jsstr) list \<Rightarrow> jsstr" where
  "query_text kvs = CHR ''?'' # join ''&'' (map (\<lambda>(k, v). k @ ''='' @ v) kvs)"

lemma getQueryArgs_fold:
  assumes "\<forall>(k, v) \<in> set kvs. CHR ''='' \<notin> set k \<and> CHR ''='' \<notin> set v \<and> k \<noteq> ''__proto__''"
    and "distinct (map fst kvs)"
  shows "map_of (fold (\<lambda>item queryDict.
             let parts = split_on (CHR ''='') item
             in assign_prop (hd parts) (case tl parts of v # _ \<Rightarrow> Some v | [] \<Rightarrow> None) queryDict)
       (map (\<lambda>(k, v). k @ ''='' @ v) kvs) ps) k =
     (case map_of kvs k of Some v \<Rightarrow> Some (Some v) | None \<Rightarrow> map_of ps k)"
  using assms
proof (induction kvs arbitrary: ps)
  case (Cons kv kvs)
  obtain k1 v1 where kv: "kv = (k1, v1)" by (cases kv)
  have parts: "split_on (CHR ''='') (k1 @ ''='' @ v1) = [k1, v1]"
    using Cons.prems(1) by (simp add: kv split_on_append split_on_free)
  have "k1 \<notin> fst ` set kvs" "k1 \<noteq> ''__proto__''" using Cons.prems by (auto simp: kv)
  then show ?case
    using Cons parts by (auto simp: kv map_of_assign_prop map_of_eq_None_iff [symmetric] split: option.splits)
qed simp

section \<open>Properties\<close>

text \<open>
  Reading back the query string of a page address: if it was built from key and value
  pairs without the separators in them, with distinct keys, \<open>getQueryArgs\<close> gives every key
  its value and no other key one.
\<close>

theorem getQueryArgs_reads_pairs:
  assumes "kvs \<noteq> []" and "distinct (map fst kvs)"
    and "\<forall>(k, v) \<in> set kvs. CHR ''='' \<notin> set (k @ v) \<and> CHR ''&'' \<notin> set (k @ v) \<and> k \<noteq> ''__proto__''"
  shows "map_get (getQueryArgs (query_text kvs)) k = map_option Some (map_of kvs k)"
proof -
  have "split_on (CHR ''&'') (join ''&'' (map (\<lambda>(k, v). k @ ''='' @ v) kvs)) = map (\<lambda>(k, v). k @ ''='' @ v) kvs"
    using assms(1,3) by (intro split_on_join) auto
  moreover have "\<forall>(k, v) \<in> set kvs. CHR ''='' \<notin> set k \<and> CHR ''='' \<notin> set v \<and> k \<noteq> ''__proto__''"
    using assms(3) by auto
  ultimately show ?thesis
    using getQueryArgs_fold [OF _ assms(2), of "[]" k]
    by (simp add: getQueryArgs_def split: option.splits)
qed

lemma getQueryArgs_reads_pairs_witness:
  "map_get (getQueryArgs (query_text [(''addr'', ''127.0.0.1:80''), (''x'', [])])) ''addr'' = Some (Some ''127.0.0.1:80'')"
  using getQueryArgs_reads_pairs [of "[(''addr'', ''127.0.0.1:80''), (''x'', [])]" "''addr''"] by simp

text \<open>
  A private message names as recipients exactly the trimmed pieces of the destination
  field between commas, each once, whatever their number and order (\<open>__proto__\<close>, which an
  assignment cannot make a property, excepted); an empty piece, such as the one behind a
  trailing comma, is a recipient too. The receiver reads this from the body that is sent.
\<close>

theorem private_message_recipients:
  "\<exists>rs. Option.bind (json_parse (json_stringify (private_json destination message)))
        (\<lambda>j. case j of JObject [_, (_, JObject [(_, JObject rs), _])] \<Rightarrow> Some rs | _ \<Rightarrow> None) = Some rs \<and>
     distinct (map fst rs) \<and> set rs =
       {(r, JObject []) | r. r \<in> trim ` set (split_on (CHR '','') destination) \<and> r \<noteq> ''__proto__''}"
proof (intro exI conjI)
  show "Option.bind (json_parse (json_stringify (private_json destination message)))
      (\<lambda>j. case j of JObject [_, (_, JObject [(_, JObject rs), _])] \<Rightarrow> Some rs | _ \<Rightarrow> None) =
      Some (recipients destination)"
    using parsesD [OF json_parses [OF private_json_ok], of destination message
        "Suc (length (json_stringify (private_json destination message)))" "[]"]
    by (simp add: json_parse_def private_json_def del: json_stringify.simps parse_value.simps)
  show d: "distinct (map fst (recipients destination))"
    using recipients_ordered by (simp add: ordered_props_def)
  show "set (recipients destination) =
      {(r, JObject []) | r. r \<in> trim ` set (split_on (CHR '','') destination) \<and> r \<noteq> ''__proto__''}"
  proof (rule set_eqI)
    fix x :: "jsstr \<times> json"
    obtain r v where x: "x = (r, v)" by (cases x)
    have "x \<in> set (recipients destination) \<longleftrightarrow> map_of (recipients destination) r = Some v"
      using d by (simp add: x map_of_eq_Some_iff)
    then show "x \<in> set (recipients destination) \<longleftrightarrow>
        x \<in> {(r, JObject []) | r. r \<in> trim ` set (split_on (CHR '','') destination) \<and> r \<noteq> ''__proto__''}"
      by (auto simp: x recipients_def recipients_fold split: if_splits)
  qed
qed

end
