(* ===== verification/Gui_DataSharing.thy ===== *)
theory Gui_DataSharing
  imports Gui_Messaging
begin

text \<open>
  The controllers of main.js for shared data: Catalog, DataSharing, Search and Naming, one
  definition per method.
\<close>

section \<open>Catalog\<close>

text \<open>The keys of a for-in loop; over null and undefined there are none.\<close>

definition forin_keys :: "json \<Rightarrow> jsstr list" where
  "forin_keys j = (case object_entries j of Inr entries \<Rightarrow> map fst entries | Inl _ \<Rightarrow> [])"

definition inner_html :: "jsstr \<Rightarrow> dom_node list" where
  "inner_html s = (if s = [] then [] else [Markup s])"

definition catalog_entry :: "jsstr \<times> json \<Rightarrow> dom_node" where
  "catalog_entry entry =
     (case entry of (chunk, peersBag) \<Rightarrow>
        Tag ''div'' [] (Tag ''p'' [] (inner_html chunk) #
          map (\<lambda>peer. Tag ''p'' [] (inner_html peer)) (forin_keys peersBag)))"

definition catalog_update :: "unit js" where
  "catalog_update =
     bnd (getAPIURL ''/datasharing/catalog'') (\<lambda>addr.
     try_catch
      (bnd (base_fetch (get_request addr)) (\<lambda>resp.
       bnd (resp_json resp) (\<lambda>data.
       seq (set_innerHTML (''catalog'', ''content'') [])
      (bnd (sync (\<lambda>p. (object_entries data, p))) (\<lambda>entries.
       if entries = [] then
         seq (set_innerHTML (''catalog'', ''content'') ''<i>no elements</i>'')
             (flash_printSuccess ''Catalog updated, nothing found'')
       else
         seq (for_each entries (\<lambda>entry. append_child (''catalog'', ''content'') (catalog_entry entry)))
             (flash_printSuccess ''Catalog updated''))))))
      (\<lambda>e. flash_printError (''Failed to fetch catalog: '' @ error_text e)))"

definition catalog_add :: "unit js" where
  "catalog_add =
     bnd (getAPIURL ''/datasharing/catalog'') (\<lambda>addr.
     bnd (checkInputs [(''catalog'', ''key''), (''catalog'', ''value'')]) (\<lambda>ok.
     if \<not> ok then ret () else
     bnd (target_prop e_value (''catalog'', ''key'')) (\<lambda>key.
     bnd (target_prop e_value (''catalog'', ''value'')) (\<lambda>value.
     try_catch
      (seq (base_fetch (post_json addr (JArray [array_value key, array_value value])))
           (spawn catalog_update))
      (\<lambda>e. flash_printError (''failed to add catalog entry: '' @ error_text e))))))"

section \<open>DataSharing\<close>

definition upload_loaded :: "jsstr \<Rightarrow> nat \<Rightarrow> unit js" where
  "upload_loaded addr result =
     try_catch
      (bnd (base_fetch (post_request addr ''multipart/form-data'' (BufferBody result))) (\<lambda>resp.
       bnd (resp_text resp) (\<lambda>txt.
       seq (flash_printSuccess (''data uploaded, metahash: '' @ txt))
           (set_innerHTML (''dataSharing'', ''uploadResult'') (''Metahash: '' @ txt)))))
      (\<lambda>e. flash_printError (''failed to upload data: '' @ error_text e))"

text \<open>
  The load listener of the reader; a reader that fails calls no listener of the script.
\<close>

definition read_file :: "nat \<Rightarrow> (nat \<Rightarrow> unit js) \<Rightarrow> unit js" where
  "read_file file onload =
     bnd (try_catch
           (bnd (await (AwFile file) (\<lambda>r. case r of RBuffer b \<Rightarrow> Some b | _ \<Rightarrow> None)) (\<lambda>b. ret (Some b)))
           (\<lambda>_. ret None))
         (\<lambda>r. case r of Some b \<Rightarrow> onload b | None \<Rightarrow> ret ())"

definition dataSharing_upload :: "unit js" where
  "dataSharing_upload =
     bnd (getAPIURL ''/datasharing/upload'') (\<lambda>addr.
     bnd (target_prop e_files (''dataSharing'', ''fileUpload'')) (\<lambda>fileList.
     case fileList of
       [] \<Rightarrow> flash_printError ''No file found''
     | file # _ \<Rightarrow> read_file file (upload_loaded addr)))"

text \<open>The progress listener; the percentage is rounded half up.\<close>

definition upload_progress :: "nat \<Rightarrow> nat \<Rightarrow> unit js" where
  "upload_progress sent whole =
     (if sent \<noteq> 0 \<and> whole \<noteq> 0
      then flash_printSuccess (''File upload progress: '' @ nat_text ((200 * sent + whole) div (2 * whole)))
      else ret ())"

definition triggerDownload :: "jsstr \<Rightarrow> nat \<Rightarrow> unit js" where
  "triggerDownload metahash blob =
     modify (\<lambda>p. p\<lparr>pg_downloads := pg_downloads p @ [(metahash, blob)]\<rparr>)"

definition dataSharing_download :: "unit js" where
  "dataSharing_download =
     bnd (checkInputs [(''dataSharing'', ''downloadMetahash'')]) (\<lambda>ok.
     if \<not> ok then ret () else
     bnd (target_prop (value_text \<circ> e_value) (''dataSharing'', ''downloadMetahash'')) (\<lambda>metahash.
     bnd (getAPIURL (''/datasharing/download?key='' @ metahash)) (\<lambda>addr.
     try_catch
      (bnd (base_fetch (get_request addr)) (\<lambda>resp.
       bnd (resp_blob resp) (\<lambda>blob.
       seq (triggerDownload metahash blob)
           (flash_printSuccess ''Data downloaded!''))))
      (\<lambda>e. flash_printError (''Failed to download data: '' @ error_text e)))))"

section \<open>Search\<close>

definition post_search :: "jsstr \<Rightarrow> json \<Rightarrow> request" where
  "post_search addr j = post_request addr ''multipart/form-data'' (TextBody (json_stringify j))"

definition search_all_json :: "jsstr option \<Rightarrow> jsstr option \<Rightarrow> jsstr option \<Rightarrow> json" where
  "search_all_json pattern budget timeout =
     JObject (prop_value ''Pattern'' pattern @ [(''Budget'', json_number (parseInt (value_text budget)))] @
       prop_value ''Timeout'' timeout)"

definition search_searchAll :: "unit js" where
  "search_searchAll =
     bnd (getAPIURL ''/datasharing/searchAll'') (\<lambda>addr.
     bnd (checkInputs [(''search'', ''searchAllPattern''), (''search'', ''searchAllBudget''),
            (''search'', ''searchAllTimeout'')]) (\<lambda>ok.
     if \<not> ok then ret () else
     bnd (target_prop e_value (''search'', ''searchAllPattern'')) (\<lambda>pattern.
     bnd (target_prop e_value (''search'', ''searchAllBudget'')) (\<lambda>budget.
     bnd (target_prop e_value (''search'', ''searchAllTimeout'')) (\<lambda>timeout.
     try_catch
      (seq (set_innerHTML (''search'', ''searchAllResult'') ''<i>searching all...</i>'')
      (bnd (base_fetch (post_search addr (search_all_json pattern budget timeout))) (\<lambda>resp.
       bnd (resp_text resp) (\<lambda>txt.
       seq (flash_printSuccess (''SearchAll done, result: '' @ txt))
           (set_innerHTML (''search'', ''searchAllResult'') (''Names: '' @ txt))))))
      (\<lambda>e. flash_printError (''failed to searchAll: '' @ error_text e)))))))"

definition search_first_json ::
  "jsstr option \<Rightarrow> jsstr option \<Rightarrow> jsstr option \<Rightarrow> jsstr option \<Rightarrow> jsstr option \<Rightarrow> json" where
  "search_first_json pattern initial factor retry timeout =
     JObject (prop_value ''Pattern'' pattern @
       [(''Initial'', json_number (parseInt (value_text initial))),
        (''Factor'', json_number (parseInt (value_text factor))),
        (''Retry'', json_number (parseInt (value_text retry)))] @
       prop_value ''Timeout'' timeout)"

definition search_searchFirst :: "unit js" where
  "search_searchFirst =
     bnd (getAPIURL ''/datasharing/searchFirst'') (\<lambda>addr.
     bnd (checkInputs [(''search'', ''searchFirstPattern''), (''search'', ''searchFirstInitialBudget''),
            (''search'', ''searchFirstFactor''), (''search'', ''searchFirstRetry''),
            (''search'', ''searchFirstTimeout'')]) (\<lambda>ok.
     if \<not> ok then ret () else
     bnd (target_prop e_value (''search'', ''searchFirstPattern'')) (\<lambda>pattern.
     bnd (target_prop e_value (''search'', ''searchFirstInitialBudget'')) (\<lambda>initial.
     bnd (target_prop e_value (''search'', ''searchFirstFactor'')) (\<lambda>factor.
     bnd (target_prop e_value (''search'', ''searchFirstRetry'')) (\<lambda>retry.
     bnd (target_prop e_value (''search'', ''searchFirstTimeout'')) (\<lambda>timeout.
     try_catch
      (seq (set_innerHTML (''search'', ''searchFirstResult'') ''<i>searching first...</i>'')
      (bnd (base_fetch (post_search addr (search_first_json pattern initial factor retry timeout))) (\<lambda>resp.
       bnd (resp_text resp) (\<lambda>txt.
       seq (flash_printSuccess (''Search done, result: '' @ txt))
      (seq (if txt = [] then set_innerHTML (''search'', ''searchFirstResult'') ''<i>Nothing found</i>''
            else set_innerHTML (''search'', ''searchFirstResult'') (''Names: '' @ txt))
           (flash_printSuccess (''search first done, result: '' @ txt)))))))
      (\<lambda>e. flash_printError (''failed to Search first: '' @ error_text e)))))))))"

section \<open>Naming\<close>

text \<open>\<open>resolve\<close> does not look at the result of \<open>checkInputs\<close>.\<close>

definition naming_resolve :: "unit js" where
  "naming_resolve =
     bnd (checkInputs [(''naming'', ''resolveFilename'')]) (\<lambda>_.
     bnd (target_prop (value_text \<circ> e_value) (''naming'', ''resolveFilename'')) (\<lambda>filename.
     bnd (getAPIURL (''/datasharing/naming?name='' @ filename)) (\<lambda>addr.
     try_catch
      (bnd (base_fetch (get_request addr)) (\<lambda>resp.
       bnd (resp_text resp) (\<lambda>txt.
       seq (if txt = [] then set_innerHTML (''naming'', ''resolveResult'') ''<i>nothing found</i>''
            else set_innerHTML (''naming'', ''resolveResult'') txt)
           (flash_printSuccess ''filename resolved''))))
      (\<lambda>e. flash_printError (''Failed to resolve filename: '' @ error_text e)))))"

definition naming_tag :: "unit js" where
  "naming_tag =
     bnd (getAPIURL ''/datasharing/naming'') (\<lambda>addr.
     bnd (checkInputs [(''naming'', ''tagFilename''), (''naming'', ''tagMetahash'')]) (\<lambda>ok.
     if \<not> ok then ret () else
     bnd (target_prop e_value (''naming'', ''tagFilename'')) (\<lambda>filename.
     bnd (target_prop e_value (''naming'', ''tagMetahash'')) (\<lambda>metahash.
     try_catch
      (seq (base_fetch (post_json addr (JArray [array_value filename, array_value metahash])))
           (flash_printSuccess ''tagging done''))
      (\<lambda>e. flash_printError (''failed to tag filename: '' @ error_text e))))))"

end
