(* ===== verification/Gui_World.thy ===== *)
theory Gui_World
  imports Gui_DataSharing
begin

text \<open>
  The page as a whole: the handlers that the page's buttons, timers and event sources call,
  in any order, while earlier handlers still wait for the network. A world is a page with
  its pending awaits; an event calls a handler, settles one await with any reply that fits
  it, lets time pass, closes a flash, or edits an input. The theorems quantify over all
  sequences of events, so over every interleaving.
\<close>

section \<open>Declared targets\<close>

text \<open>The lists \<open>static get targets()\<close> of the controllers.\<close>

definition declared :: "(jsstr \<times> jsstr list) list" where
  "declared =
     [(''flash'', [''wrapper'']),
      (''peerInfo'', [''peerAddr'', ''socketAddr'']),
      (''messaging'', [''holder'', ''messages'']),
      (''unicast'', [''message'', ''destination'']),
      (''routing'', [''table'', ''graphviz'', ''peer'', ''origin'', ''relay'']),
      (''packets'', [''follow'', ''holder'', ''scroll'', ''packets'']),
      (''broadcast'', [''chatMessage'', ''privateMessage'', ''privateRecipients'']),
      (''catalog'', [''content'', ''key'', ''value'']),
      (''dataSharing'', [''uploadResult'', ''fileUpload'', ''downloadMetahash'']),
      (''search'', [''searchAllResult'', ''searchAllPattern'', ''searchAllBudget'', ''searchAllTimeout'',
         ''searchFirstResult'', ''searchFirstPattern'', ''searchFirstInitialBudget'',
         ''searchFirstFactor'', ''searchFirstRetry'', ''searchFirstTimeout'']),
      (''naming'', [''resolveResult'', ''resolveFilename'', ''tagFilename'', ''tagMetahash''])]"

definition declared_targets :: "target list" where
  "declared_targets = concat (map (\<lambda>(c, ts). map (Pair c) ts) declared)"

text \<open>A page with every declared target and the three controllers that others look up.\<close>

definition page_ok :: "page \<Rightarrow> bool" where
  "page_ok p \<longleftrightarrow> (\<forall>t \<in> set declared_targets. get_target p t \<noteq> None) \<and>
     {''flash'', ''peerInfo'', ''messaging''} \<subseteq> set (pg_controllers p)"

section \<open>Handlers and events\<close>

datatype handler =
    PeerInfoInitialize
  | UnicastSend
  | RoutingUpdate
  | RoutingAddPeer
  | RoutingSetEntry
  | PacketsInitialize
  | PacketMessage jsstr
  | PacketError
  | PacketsScroll
  | BroadcastSendChat
  | BroadcastSendPrivate
  | CatalogUpdate
  | CatalogAdd
  | DataSharingUpload
  | UploadProgress nat nat
  | DataSharingDownload
  | SearchAll
  | SearchFirst
  | NamingResolve
  | NamingTag

fun handler_code :: "browser \<Rightarrow> handler \<Rightarrow> unit js" where
  "handler_code br PeerInfoInitialize = peerInfo_initialize br"
| "handler_code br UnicastSend = unicast_send br"
| "handler_code br RoutingUpdate = routing_update"
| "handler_code br RoutingAddPeer = routing_addPeer"
| "handler_code br RoutingSetEntry = routing_setEntry"
| "handler_code br PacketsInitialize = packets_initialize"
| "handler_code br (PacketMessage data) = packetMessage br data"
| "handler_code br PacketError = packetError"
| "handler_code br PacketsScroll = packetsScroll"
| "handler_code br BroadcastSendChat = broadcast_sendChat"
| "handler_code br BroadcastSendPrivate = broadcast_sendPrivate"
| "handler_code br CatalogUpdate = catalog_update"
| "handler_code br CatalogAdd = catalog_add"
| "handler_code br DataSharingUpload = dataSharing_upload"
| "handler_code br (UploadProgress sent whole) = upload_progress sent whole"
| "handler_code br DataSharingDownload = dataSharing_download"
| "handler_code br SearchAll = search_searchAll"
| "handler_code br SearchFirst = search_searchFirst"
| "handler_code br NamingResolve = naming_resolve"
| "handler_code br NamingTag = naming_tag"

record world =
  w_page :: page
  w_pending :: "pending list"

datatype event =
    Call handler
  | Settle nat reply
  | Pass nat
  | Close nat
  | Edit target "target_element \<Rightarrow> target_element"

text \<open>The user changes the value, the state or the files of an input, not its children.\<close>

definition edit_input :: "target \<Rightarrow> (target_element \<Rightarrow> target_element) \<Rightarrow> page \<Rightarrow> page" where
  "edit_input t f p = update_target t (\<lambda>el. (f el)\<lparr>e_children := e_children el\<rparr>) p"

fun step :: "browser \<Rightarrow> event \<Rightarrow> world \<Rightarrow> world" where
  "step br (Call h) w =
     (let (ps, p) = run_js (handler_code br h) (w_page w)
      in \<lparr>w_page = p, w_pending = w_pending w @ ps\<rparr>)"
| "step br (Settle i r) w =
     (if i < length (w_pending w) \<and> fits (awaited (w_pending w ! i)) r
      then let (ps, p) = resume (w_pending w ! i) r (w_page w)
           in \<lparr>w_page = p, w_pending = take i (w_pending w) @ drop (Suc i) (w_pending w) @ ps\<rparr>
      else w)"
| "step br (Pass ms) w = w\<lparr>w_page := elapse ms (w_page w)\<rparr>"
| "step br (Close i) w = w\<lparr>w_page := removeFlash i (w_page w)\<rparr>"
| "step br (Edit t f) w = w\<lparr>w_page := edit_input t f (w_page w)\<rparr>"

definition run :: "browser \<Rightarrow> event list \<Rightarrow> world \<Rightarrow> world" where
  "run br evs w = fold (step br) evs w"

section \<open>Reports to the user\<close>

text \<open>What a user has been shown so far: flashes, and messages in the message list.\<close>

definition reports :: "page \<Rightarrow> nat" where
  "reports p = length (pg_shown p) +
     (case get_target p (''messaging'', ''messages'') of Some el \<Rightarrow> length (e_children el) | None \<Rightarrow> 0)"

text \<open>
  \<open>owes n q\<close>: however the pending await \<open>q\<close> is settled, on whatever page, at least \<open>n\<close>
  reports follow, at once or from the awaits it leaves, and no error stays unhandled.
\<close>

inductive owes :: "nat \<Rightarrow> pending \<Rightarrow> bool" where
  "(\<And>r p. fits w r \<Longrightarrow> page_ok p \<Longrightarrow>
      (\<exists>ns. list_all2 owes ns (fst (f r p)) \<and> page_ok (snd (f r p)) \<and>
         reports p + n \<le> reports (snd (f r p)) + sum_list ns \<and>
         pg_unhandled (snd (f r p)) = pg_unhandled p)) \<Longrightarrow>
   owes n (Pending w f)"

definition ans :: "nat \<Rightarrow> code \<Rightarrow> bool" where
  "ans n c \<longleftrightarrow> (\<forall>p. page_ok p \<longrightarrow>
     (\<exists>ns. list_all2 owes ns (fst (c p)) \<and> page_ok (snd (c p)) \<and>
        reports p + n \<le> reports (snd (c p)) + sum_list ns \<and>
        pg_unhandled (snd (c p)) = pg_unhandled p))"

lemma owes_iff: "owes n q \<longleftrightarrow> (\<forall>r. fits (awaited q) r \<longrightarrow> ans n (resume q r))"
  by (cases q) (auto simp: ans_def owes.simps)

named_theorems ans_rules

lemma ans_sync:
  assumes "\<And>p. page_ok p \<Longrightarrow> page_ok (snd (f p)) \<and> reports p + (n - m) \<le> reports (snd (f p)) \<and>
      pg_unhandled (snd (f p)) = pg_unhandled p"
    and "\<And>p. page_ok p \<Longrightarrow> ans m (k (fst (f p)))"
  shows "ans n (sync f k)"
  unfolding ans_def
proof (intro allI impI)
  fix p assume p: "page_ok p"
  obtain r p' where f: "f p = (r, p')" by (cases "f p")
  have p': "page_ok p'" "reports p + (n - m) \<le> reports p'" "pg_unhandled p' = pg_unhandled p"
    and k: "ans m (k r)"
    using assms(1) [OF p] assms(2) [OF p] by (simp_all add: f)
  obtain ns where ns: "list_all2 owes ns (fst (k r p'))" "page_ok (snd (k r p'))"
      "reports p' + m \<le> reports (snd (k r p')) + sum_list ns"
      "pg_unhandled (snd (k r p')) = pg_unhandled p'"
    using k p'(1) unfolding ans_def by blast
  from ns p'(2,3) show "\<exists>ns. list_all2 owes ns (fst (sync f k p)) \<and> page_ok (snd (sync f k p)) \<and>
      reports p + n \<le> reports (snd (sync f k p)) + sum_list ns \<and>
      pg_unhandled (snd (sync f k p)) = pg_unhandled p"
    by (intro exI [of _ ns]) (simp add: sync_def f)
qed

lemma ans_await:
  assumes "\<And>r. fits w r \<Longrightarrow> (\<exists>e. r = RError e) \<or> sel r \<noteq> None"
    and "\<And>e. ans n (k (Inl e))" and "\<And>x. ans n (k (Inr x))"
  shows "ans n (await w sel k)"
proof -
  let ?f = "\<lambda>reply. case reply of RError e \<Rightarrow> k (Inl e)
       | _ \<Rightarrow> (case sel reply of Some x \<Rightarrow> k (Inr x) | None \<Rightarrow> (\<lambda>p. ([], p)))"
  have "ans n (?f r)" if "fits w r" for r
    using assms(1) [OF that] assms(2,3) by (cases r) (auto split: option.splits)
  then have "owes n (Pending w ?f)" by (simp add: owes_iff)
  then show ?thesis
    by (auto simp: ans_def await_def intro!: exI [of _ "[n]"])
qed

lemma ans_spawn:
  assumes "ans a (run_js m)" and "ans b (k (Inr ()))" and "n \<le> a + b"
  shows "ans n (spawn m k)"
  unfolding ans_def
proof (intro allI impI)
  fix p assume p: "page_ok p"
  obtain ps p' where m: "run_js m p = (ps, p')" by (cases "run_js m p")
  obtain qs p'' where k: "k (Inr ()) p' = (qs, p'')" by (cases "k (Inr ()) p'")
  obtain ns where ns: "list_all2 owes ns ps" "page_ok p'" "reports p + a \<le> reports p' + sum_list ns"
      "pg_unhandled p' = pg_unhandled p"
    using assms(1) p m unfolding ans_def by (metis fst_conv snd_conv)
  obtain ns' where ns': "list_all2 owes ns' qs" "page_ok p''" "reports p' + b \<le> reports p'' + sum_list ns'"
      "pg_unhandled p'' = pg_unhandled p'"
    using assms(2) ns(2) k unfolding ans_def by (metis fst_conv snd_conv)
  have "list_all2 owes (ns @ ns') (ps @ qs)" using ns(1) ns'(1) by (rule list_all2_appendI)
  with ns ns' assms(3) show "\<exists>ns. list_all2 owes ns (fst (spawn m k p)) \<and> page_ok (snd (spawn m k p)) \<and>
      reports p + n \<le> reports (snd (spawn m k p)) + sum_list ns \<and>
      pg_unhandled (snd (spawn m k p)) = pg_unhandled p"
    by (intro exI [of _ "ns @ ns'"]) (simp add: spawn_def m k)
qed

lemma ans_end: "ans 0 (\<lambda>p. ([], p))"
  by (simp add: ans_def)

section \<open>Rules for the statements\<close>

lemma get_target_update:
  "get_target (update_target t f p) t' = (if t' = t then map_option f (get_target p t) else get_target p t')"
  by (cases "get_target p t") (auto simp: update_target_def get_target_def)

lemma update_target_other [simp]:
  "pg_controllers (update_target t f p) = pg_controllers p"
  "pg_shown (update_target t f p) = pg_shown p"
  "pg_unhandled (update_target t f p) = pg_unhandled p"
  "pg_requests (update_target t f p) = pg_requests p"
  by (simp_all add: update_target_def split: option.splits)

lemma page_ok_update_target [simp]: "page_ok (update_target t f p) = page_ok p"
  by (auto simp: page_ok_def get_target_update)

abbreviation messages :: target where
  "messages \<equiv> (''messaging'', ''messages'')"

lemma reports_update_other: "t \<noteq> messages \<Longrightarrow> reports (update_target t f p) = reports p"
  by (simp add: reports_def get_target_update)

lemma page_ok_target: "page_ok p \<Longrightarrow> t \<in> set declared_targets \<Longrightarrow> \<exists>el. get_target p t = Some el"
  by (auto simp: page_ok_def)

lemma page_ok_frame:
  "page_ok (p\<lparr>pg_endpoint := a\<rparr>) = page_ok p" "page_ok (p\<lparr>pg_socketAddr := b\<rparr>) = page_ok p"
  "page_ok (p\<lparr>pg_requests := c\<rparr>) = page_ok p" "page_ok (p\<lparr>pg_sources := d\<rparr>) = page_ok p"
  "page_ok (p\<lparr>pg_downloads := e\<rparr>) = page_ok p" "page_ok (p\<lparr>pg_unhandled := u\<rparr>) = page_ok p"
  by (simp_all add: page_ok_def get_target_def)

lemma reports_frame:
  "reports (p\<lparr>pg_endpoint := a\<rparr>) = reports p" "reports (p\<lparr>pg_socketAddr := b\<rparr>) = reports p"
  "reports (p\<lparr>pg_requests := c\<rparr>) = reports p" "reports (p\<lparr>pg_sources := d\<rparr>) = reports p"
  "reports (p\<lparr>pg_downloads := e\<rparr>) = reports p" "reports (p\<lparr>pg_unhandled := u\<rparr>) = reports p"
  by (simp_all add: reports_def get_target_def)

lemma print_flash_ok:
  assumes "page_ok p"
  shows "fst (print_flash c e p) = Inr ()" and "page_ok (snd (print_flash c e p))"
    and "reports (snd (print_flash c e p)) = Suc (reports p)"
    and "pg_unhandled (snd (print_flash c e p)) = pg_unhandled p"
proof -
  have "get_target p (''flash'', ''wrapper'') \<noteq> None"
    using assms unfolding page_ok_def declared_targets_def declared_def by simp
  then obtain el where "map_of (pg_targets p) (''flash'', ''wrapper'') = Some el"
    unfolding get_target_def by blast
  with assms show "fst (print_flash c e p) = Inr ()" "page_ok (snd (print_flash c e p))"
    "reports (snd (print_flash c e p)) = Suc (reports p)"
    "pg_unhandled (snd (print_flash c e p)) = pg_unhandled p"
    by (simp_all add: print_flash_def createFlash_def page_ok_def get_target_def reports_def Let_def)
qed

lemma ans_sync_get:
  assumes "\<And>p. page_ok p \<Longrightarrow> ans n (k (fst (f p)))" and "\<And>p. snd (f p) = p"
  shows "ans n (sync f k)"
  by (rule ans_sync [where m = n]) (use assms in auto)

lemma ans_gets [ans_rules]: "(\<And>x. ans n (k (Inr x))) \<Longrightarrow> ans n (gets f k)"
  unfolding gets_def by (rule ans_sync_get) simp_all

lemma ans_the_target [ans_rules]:
  "t \<in> set declared_targets \<Longrightarrow> ans n (k (Inr t)) \<Longrightarrow> ans n (the_target t k)"
  unfolding the_target_def by (rule ans_sync_get) (auto dest: page_ok_target)

lemma ans_target_prop [ans_rules]:
  "t \<in> set declared_targets \<Longrightarrow> (\<And>x. ans n (k (Inr x))) \<Longrightarrow> ans n (target_prop f t k)"
  unfolding target_prop_def by (rule ans_sync_get) (auto dest: page_ok_target)

lemma ans_controller [ans_rules]:
  "c \<in> {''flash'', ''peerInfo'', ''messaging''} \<Longrightarrow> ans n (k (Inr ())) \<Longrightarrow> ans n (controller c k)"
  unfolding controller_def by (rule ans_sync_get) (auto simp: page_ok_def)

lemma ans_modify:
  assumes "ans n (k (Inr ()))" and "\<And>p. page_ok (f p) = page_ok p" and "\<And>p. reports (f p) = reports p"
    and "\<And>p. pg_unhandled (f p) = pg_unhandled p"
  shows "ans n (modify f k)"
  unfolding modify_def by (rule ans_sync [where m = n]) (use assms in simp_all)

lemma ans_on_target [ans_rules]:
  "t \<in> set declared_targets \<Longrightarrow> t \<noteq> messages \<Longrightarrow> ans n (k (Inr ())) \<Longrightarrow> ans n (on_target t f k)"
  unfolding on_target_def seq_def bnd_def
  by (rule ans_the_target) (auto simp: reports_update_other intro: ans_modify)

lemma ans_set_innerHTML [ans_rules]:
  "t \<in> set declared_targets \<Longrightarrow> t \<noteq> messages \<Longrightarrow> ans n (k (Inr ())) \<Longrightarrow> ans n (set_innerHTML t s k)"
  and ans_set_innerText [ans_rules]:
  "t \<in> set declared_targets \<Longrightarrow> t \<noteq> messages \<Longrightarrow> ans n (k (Inr ())) \<Longrightarrow> ans n (set_innerText t s k)"
  and ans_append_child [ans_rules]:
  "t \<in> set declared_targets \<Longrightarrow> t \<noteq> messages \<Longrightarrow> ans n (k (Inr ())) \<Longrightarrow> ans n (append_child t d k)"
  unfolding set_innerHTML_def set_innerText_def append_child_def by (rule ans_on_target; assumption)+

lemma ans_print:
  "ans (n - 1) (k (Inr ())) \<Longrightarrow> ans n (sync (print_flash c e) k)"
  by (rule ans_sync [where m = "n - 1"]) (simp_all add: print_flash_ok)

lemma ans_printError [ans_rules]: "ans (n - 1) (k (Inr ())) \<Longrightarrow> ans n (flash_printError e k)"
  and ans_printSuccess [ans_rules]: "ans (n - 1) (k (Inr ())) \<Longrightarrow> ans n (flash_printSuccess e k)"
  unfolding flash_printError_def flash_printSuccess_def printError_def [abs_def] printSuccess_def [abs_def]
    seq_def bnd_def
  by (rule ans_controller; simp add: ans_print)+

lemma ans_getAPIURL [ans_rules]: "(\<And>x. ans n (k (Inr x))) \<Longrightarrow> ans n (getAPIURL s k)"
  unfolding getAPIURL_def seq_def bnd_def by (rule ans_controller) (auto intro: ans_gets)

lemma messages_declared: "messages \<in> set declared_targets"
  by (simp add: declared_targets_def declared_def)

lemma ans_addMsg [ans_rules]: "ans (n - 1) (k (Inr ())) \<Longrightarrow> ans n (messaging_addMsg el k)"
proof -
  assume k: "ans (n - 1) (k (Inr ()))"
  have holder: "(''messaging'', ''holder'') \<in> set declared_targets"
    by (simp add: declared_targets_def declared_def)
  have append: "ans n (append_child messages el k')" if "ans (n - 1) (k' (Inr ()))" for k'
    unfolding append_child_def on_target_def seq_def bnd_def
  proof (rule ans_the_target [OF messages_declared])
    have "reports (update_target messages (\<lambda>e. e\<lparr>e_children := e_children e @ [el]\<rparr>) p) = Suc (reports p)"
      if "page_ok p" for p
      using page_ok_target [OF that messages_declared] by (auto simp: reports_def get_target_update)
    with that show "ans n (case Inr messages of Inl e \<Rightarrow> k' (Inl e)
        | Inr x \<Rightarrow> modify (update_target messages (\<lambda>e. e\<lparr>e_children := e_children e @ [el]\<rparr>)) k')"
      unfolding modify_def by simp (rule ans_sync [where m = "n - 1"], simp_all)
  qed
  show ?thesis
    unfolding messaging_addMsg_def addMsg_def seq_def bnd_def
    by (rule ans_controller) (auto intro!: append ans_the_target ans_on_target holder k [unfolded One_nat_def])
qed

lemma ans_fetch_global [ans_rules]:
  "(\<And>e. ans n (k (Inl e))) \<Longrightarrow> (\<And>x. ans n (k (Inr x))) \<Longrightarrow> ans n (fetch_global rq k)"
  unfolding fetch_global_def seq_def bnd_def
  by (rule ans_modify) (auto simp: page_ok_frame reports_frame intro!: ans_await elim!: fits.elims)

lemma ans_resp_text [ans_rules]:
  "(\<And>e. ans n (k (Inl e))) \<Longrightarrow> (\<And>x. ans n (k (Inr x))) \<Longrightarrow> ans n (resp_text r k)"
  unfolding resp_text_def by (rule ans_await) (auto elim!: fits.elims)

lemma ans_resp_json [ans_rules]:
  "(\<And>e. ans n (k (Inl e))) \<Longrightarrow> (\<And>x. ans n (k (Inr x))) \<Longrightarrow> ans n (resp_json r k)"
  unfolding resp_json_def by (rule ans_await) (auto elim!: fits.elims)

lemma ans_resp_blob [ans_rules]:
  "(\<And>e. ans n (k (Inl e))) \<Longrightarrow> (\<And>x. ans n (k (Inr x))) \<Longrightarrow> ans n (resp_blob r k)"
  unfolding resp_blob_def by (rule ans_await) (auto elim!: fits.elims)

lemma ans_renderSVGElement [ans_rules]:
  "(\<And>e. ans n (k (Inl e))) \<Longrightarrow> (\<And>x. ans n (k (Inr x))) \<Longrightarrow> ans n (renderSVGElement s k)"
  unfolding renderSVGElement_def by (rule ans_await) (auto elim!: fits.elims)

lemma ans_base_fetch [ans_rules]:
  "(\<And>e. ans n (k (Inl e))) \<Longrightarrow> (\<And>x. ans n (k (Inr x))) \<Longrightarrow> ans n (base_fetch rq k)"
  unfolding base_fetch_def bnd_def throw_def ret_def
  by (auto intro!: ans_fetch_global ans_resp_text)

lemma ans_the_targets: "set ts \<subseteq> set declared_targets \<Longrightarrow> ans n (k (Inr ())) \<Longrightarrow> ans n (the_targets ts k)"
  by (induction ts arbitrary: k) (auto simp: ret_def seq_def bnd_def intro!: ans_the_target)

lemma ans_check_loop:
  "set ts \<subseteq> set declared_targets \<Longrightarrow> ans n (k (Inr True)) \<Longrightarrow> ans (n - 1) (k (Inr False)) \<Longrightarrow>
   ans n (check_loop ts k)"
  by (induction ts) (auto simp: ret_def seq_def bnd_def intro!: ans_target_prop ans_printError)

lemma ans_checkInputs [ans_rules]:
  "set ts \<subseteq> set declared_targets \<Longrightarrow> ans n (k (Inr True)) \<Longrightarrow> ans (n - 1) (k (Inr False)) \<Longrightarrow>
   ans n (checkInputs ts k)"
  unfolding checkInputs_def seq_def bnd_def by (rule ans_the_targets) (auto intro: ans_check_loop)

lemma ans_for_each:
  assumes "\<And>x k. ans n (k (Inr ())) \<Longrightarrow> ans n (f x k)" and "ans n (k (Inr ()))"
  shows "ans n (for_each xs f k)"
  using assms(2) by (induction xs arbitrary: k) (auto simp: ret_def seq_def bnd_def intro!: assms(1))

section \<open>Every handler reports\<close>

lemmas js_statements = ret_def throw_def bnd_def seq_def try_catch_def

lemma declared_simps [simp]:
  "(c, t) \<in> set declared_targets \<longleftrightarrow> (\<exists>ts. (c, ts) \<in> set declared \<and> t \<in> set ts)"
  by (auto simp: declared_targets_def)

lemma run_js_ans: "ans n (m (\<lambda>r p. ([], case r of Inl e \<Rightarrow> unhandled e p | Inr _ \<Rightarrow> p))) \<Longrightarrow> ans n (run_js m)"
  by (simp add: run_js_def)

lemma routing_update_ans: "ans 1 (run_js routing_update)"
  and catalog_update_ans: "ans 1 (run_js catalog_update)"
  unfolding routing_update_def routing_table_def routing_graph_def catalog_update_def
  by (auto simp: declared_def js_statements intro!: run_js_ans ans_rules ans_sync_get ans_for_each ans_end
      split: sum.splits)

lemmas answer_rules = run_js_ans ans_rules ans_sync_get ans_for_each ans_end ans_modify

lemma unicast_ans: "ans 1 (run_js (unicast_send br))"
  by (auto simp: declared_def js_statements unicast_send_def Let_def intro!: answer_rules)

lemma broadcast_ans: "ans 1 (run_js broadcast_sendChat)" "ans 1 (run_js broadcast_sendPrivate)"
  by (auto simp: declared_def js_statements broadcast_sendChat_def broadcast_sendPrivate_def Let_def
      intro!: answer_rules)

lemma download_ans: "ans 1 (run_js dataSharing_download)"
  by (auto simp: declared_def js_statements dataSharing_download_def triggerDownload_def page_ok_frame
      reports_frame intro!: answer_rules)

lemma search_ans: "ans 1 (run_js search_searchAll)" "ans 1 (run_js search_searchFirst)"
  by (auto simp: declared_def js_statements search_searchAll_def search_searchFirst_def Let_def
      intro!: answer_rules)

lemma naming_ans: "ans 1 (run_js naming_resolve)" "ans 1 (run_js naming_tag)"
  by (auto simp: declared_def js_statements naming_resolve_def naming_tag_def Let_def
      intro!: answer_rules)

lemma packetError_ans: "ans 1 (run_js packetError)"
  by (auto simp: js_statements packetError_def intro!: answer_rules)

lemma updating_ans: "ans 1 (run_js routing_addPeer)" "ans 1 (run_js routing_setEntry)" "ans 1 (run_js catalog_add)"
  by (auto simp: declared_def js_statements routing_addPeer_def routing_setEntry_def catalog_add_def Let_def
      intro!: answer_rules ans_spawn [OF routing_update_ans, where b = 0] ans_spawn [OF catalog_update_ans, where b = 0])

text \<open>The handlers that may end without a report still leave no error unhandled.\<close>

lemma silent_ans: "ans 0 (run_js (dataSharing_upload))" "ans 0 (run_js (upload_progress a b))"
  "ans 0 (run_js packets_initialize)" "ans 0 (run_js packetsScroll)"
  by (auto simp: declared_def js_statements dataSharing_upload_def read_file_def upload_loaded_def
      upload_progress_def packets_initialize_def packetsScroll_def page_ok_frame reports_frame
      intro!: answer_rules ans_await elim!: fits.elims split: list.splits)

definition must_report :: "handler \<Rightarrow> bool" where
  "must_report h \<longleftrightarrow> h \<in> {UnicastSend, RoutingUpdate, RoutingAddPeer, RoutingSetEntry, BroadcastSendChat,
     BroadcastSendPrivate, CatalogUpdate, CatalogAdd, PacketError, DataSharingDownload, SearchAll,
     SearchFirst, NamingResolve, NamingTag}"

text \<open>
  Handlers whose code may fail outside its try block: decoding the address of the page, and
  reading a packet.
\<close>

fun may_throw :: "handler \<Rightarrow> bool" where
  "may_throw PeerInfoInitialize = True"
| "may_throw (PacketMessage _) = True"
| "may_throw _ = False"

lemma handler_ans:
  "\<not> may_throw h \<Longrightarrow> ans (if must_report h then 1 else 0) (run_js (handler_code br h))"
  using routing_update_ans catalog_update_ans unicast_ans broadcast_ans download_ans search_ans naming_ans
    packetError_ans updating_ans silent_ans
  by (cases h) (simp_all add: must_report_def)

fun event_ok :: "event \<Rightarrow> bool" where
  "event_ok (Call h) = (\<not> may_throw h)"
| "event_ok _ = True"

fun counts :: "event \<Rightarrow> nat" where
  "counts (Call h) = (if must_report h then 1 else 0)"
| "counts _ = 0"

definition world_inv :: "nat \<Rightarrow> js_error list \<Rightarrow> world \<Rightarrow> bool" where
  "world_inv n errors w \<longleftrightarrow> page_ok (w_page w) \<and> pg_unhandled (w_page w) = errors \<and>
     (\<exists>ns. list_all2 owes ns (w_pending w) \<and> n \<le> reports (w_page w) + sum_list ns)"

lemma fold_removeFlash_frame [simp]:
  "pg_targets (fold (\<lambda>t. removeFlash (snd t)) ts p) = pg_targets p"
  "pg_controllers (fold (\<lambda>t. removeFlash (snd t)) ts p) = pg_controllers p"
  "pg_shown (fold (\<lambda>t. removeFlash (snd t)) ts p) = pg_shown p"
  "pg_unhandled (fold (\<lambda>t. removeFlash (snd t)) ts p) = pg_unhandled p"
  by (induction ts arbitrary: p) (simp_all add: removeFlash_def)

lemma elapse_frame:
  "page_ok (elapse ms p) = page_ok p" "reports (elapse ms p) = reports p"
  "pg_unhandled (elapse ms p) = pg_unhandled p"
  by (simp_all add: elapse_def Let_def page_ok_def reports_def get_target_def)

lemma removeFlash_frame:
  "page_ok (removeFlash i p) = page_ok p" "reports (removeFlash i p) = reports p"
  "pg_unhandled (removeFlash i p) = pg_unhandled p"
  by (simp_all add: removeFlash_def page_ok_def reports_def get_target_def)

lemma edit_frame:
  "page_ok (edit_input t f p) = page_ok p" "reports (edit_input t f p) = reports p"
  "pg_unhandled (edit_input t f p) = pg_unhandled p"
  by (auto simp: edit_input_def reports_def get_target_update split: option.splits)

lemma list_all2_remove:
  assumes "list_all2 P ns ps" and "i < length ps"
  shows "list_all2 P (take i ns @ drop (Suc i) ns) (take i ps @ drop (Suc i) ps)"
    and "P (ns ! i) (ps ! i)"
    and "sum_list (take i ns @ drop (Suc i) ns) + ns ! i = sum_list (ns :: nat list)"
proof -
  show "list_all2 P (take i ns @ drop (Suc i) ns) (take i ps @ drop (Suc i) ps)"
    using assms(1) by (intro list_all2_appendI list_all2_takeI list_all2_dropI)
  show "P (ns ! i) (ps ! i)" using assms by (simp add: list_all2_conv_all_nth)
  have "i < length ns" using assms by (simp add: list_all2_lengthD)
  then have "ns = take i ns @ ns ! i # drop (Suc i) ns" by (simp add: id_take_nth_drop)
  then have "sum_list ns = sum_list (take i ns @ ns ! i # drop (Suc i) ns)" by simp
  then show "sum_list (take i ns @ drop (Suc i) ns) + ns ! i = sum_list ns" by simp
qed

lemma world_inv_call:
  assumes "world_inv n errors w" and "\<not> may_throw h"
  shows "world_inv (n + counts (Call h)) errors (step br (Call h) w)"
proof -
  obtain ns where w: "page_ok (w_page w)" "pg_unhandled (w_page w) = errors" "list_all2 owes ns (w_pending w)"
      "n \<le> reports (w_page w) + sum_list ns"
    using assms(1) by (auto simp: world_inv_def)
  obtain ps p where r: "run_js (handler_code br h) (w_page w) = (ps, p)"
    by (cases "run_js (handler_code br h) (w_page w)")
  obtain ms where m: "list_all2 owes ms ps" "page_ok p"
      "reports (w_page w) + counts (Call h) \<le> reports p + sum_list ms" "pg_unhandled p = errors"
    using handler_ans [OF assms(2), of br] w(1,2) r unfolding ans_def counts.simps
    by (metis fst_conv snd_conv)
  have "list_all2 owes (ns @ ms) (w_pending w @ ps)" using w(3) m(1) by (rule list_all2_appendI)
  moreover have "n + counts (Call h) \<le> reports p + sum_list (ns @ ms)" using w(4) m(3) by simp
  ultimately show ?thesis
    using m(2,4) by (simp add: world_inv_def r del: sum_list_append counts.simps) blast
qed

lemma world_inv_settle:
  assumes "world_inv n errors w"
  shows "world_inv n errors (step br (Settle i r) w)"
proof (cases "i < length (w_pending w) \<and> fits (awaited (w_pending w ! i)) r")
  case True
  obtain ns where w: "page_ok (w_page w)" "pg_unhandled (w_page w) = errors" "list_all2 owes ns (w_pending w)"
      "n \<le> reports (w_page w) + sum_list ns"
    using assms(1) by (auto simp: world_inv_def)
  let ?ns = "take i ns @ drop (Suc i) ns"
  note rm = list_all2_remove [OF w(3) conjunct1 [OF True]]
  obtain ps p where s: "resume (w_pending w ! i) r (w_page w) = (ps, p)"
    by (cases "resume (w_pending w ! i) r (w_page w)")
  have "ans (ns ! i) (resume (w_pending w ! i) r)"
    using rm(2) True by (simp add: owes_iff)
  then obtain ms where m: "list_all2 owes ms ps" "page_ok p"
      "reports (w_page w) + ns ! i \<le> reports p + sum_list ms" "pg_unhandled p = errors"
    using w(1,2) s unfolding ans_def by (metis fst_conv snd_conv)
  have "list_all2 owes (?ns @ ms) ((take i (w_pending w) @ drop (Suc i) (w_pending w)) @ ps)"
    using rm(1) m(1) by (rule list_all2_appendI)
  moreover have "n \<le> reports p + sum_list (?ns @ ms)" using w(4) m(3) rm(3) by simp
  ultimately show ?thesis
    using True m by (simp add: world_inv_def s del: sum_list_append) blast
qed (use assms in auto)

lemma world_inv_step:
  "world_inv n errors w \<Longrightarrow> event_ok ev \<Longrightarrow> world_inv (n + counts ev) errors (step br ev w)"
proof (cases ev)
  case (Call h)
  assume "world_inv n errors w" "event_ok ev"
  with Call show ?thesis using world_inv_call by (metis event_ok.simps(1))
next
  case (Settle i r)
  assume "world_inv n errors w"
  with Settle show ?thesis using world_inv_settle by (metis add_0_right counts.simps(2))
qed (simp_all add: world_inv_def elapse_frame removeFlash_frame edit_frame)

lemma world_inv_run:
  "world_inv n errors w \<Longrightarrow> list_all event_ok evs \<Longrightarrow>
   world_inv (n + sum_list (map counts evs)) errors (run br evs w)"
  unfolding run_def
proof (induction evs arbitrary: n w)
  case (Cons ev evs)
  from Cons.prems have "world_inv (n + counts ev) errors (step br ev w)"
    by (intro world_inv_step) simp_all
  from Cons.IH [OF this] Cons.prems(2) show ?case by (simp add: add.assoc)
qed simp

section \<open>Validation and the request of a handler\<close>

fun required :: "handler \<Rightarrow> target list" where
  "required UnicastSend = [(''unicast'', ''message''), (''unicast'', ''destination'')]"
| "required RoutingAddPeer = [(''routing'', ''peer'')]"
| "required RoutingSetEntry = [(''routing'', ''origin'')]"
| "required BroadcastSendChat = [(''broadcast'', ''chatMessage'')]"
| "required BroadcastSendPrivate = [(''broadcast'', ''privateMessage''), (''broadcast'', ''privateRecipients'')]"
| "required CatalogAdd = [(''catalog'', ''key''), (''catalog'', ''value'')]"
| "required DataSharingDownload = [(''dataSharing'', ''downloadMetahash'')]"
| "required SearchAll =
     [(''search'', ''searchAllPattern''), (''search'', ''searchAllBudget''), (''search'', ''searchAllTimeout'')]"
| "required SearchFirst =
     [(''search'', ''searchFirstPattern''), (''search'', ''searchFirstInitialBudget''),
      (''search'', ''searchFirstFactor''), (''search'', ''searchFirstRetry''), (''search'', ''searchFirstTimeout'')]"
| "required NamingTag = [(''naming'', ''tagFilename''), (''naming'', ''tagMetahash'')]"
| "required _ = []"

definition value_of :: "page \<Rightarrow> target \<Rightarrow> jsstr option" where
  "value_of p t = (case get_target p t of Some el \<Rightarrow> e_value el | None \<Rightarrow> None)"

definition name_of :: "page \<Rightarrow> target \<Rightarrow> jsstr" where
  "name_of p t = (case get_target p t of Some el \<Rightarrow> e_name el | None \<Rightarrow> [])"

definition is_empty :: "page \<Rightarrow> target \<Rightarrow> bool" where
  "is_empty p t \<longleftrightarrow> value_of p t = None \<or> value_of p t = Some []"

definition validation_error :: "page \<Rightarrow> target \<Rightarrow> jsstr" where
  "validation_error p t = ''form validation failed: '' @ quoted (name_of p t) @ '' is empty or invalid''"

lemma the_target_run:
  "page_ok p \<Longrightarrow> t \<in> set declared_targets \<Longrightarrow> the_target t k p = k (Inr t) p"
  by (auto simp: the_target_def sync_def dest: page_ok_target)

lemma target_prop_run:
  "page_ok p \<Longrightarrow> t \<in> set declared_targets \<Longrightarrow> target_prop f t k p = k (Inr (f (the (get_target p t)))) p"
  by (auto simp: target_prop_def sync_def dest: page_ok_target)

lemma controller_run:
  "page_ok p \<Longrightarrow> c \<in> {''flash'', ''peerInfo'', ''messaging''} \<Longrightarrow> controller c k p = k (Inr ()) p"
  by (auto simp: controller_def sync_def page_ok_def)

lemma getAPIURL_run: "page_ok p \<Longrightarrow> getAPIURL s k p = k (Inr (value_text (pg_endpoint p) @ s)) p"
  by (simp add: getAPIURL_def seq_def bnd_def controller_run gets_def sync_def)

lemma printError_run: "page_ok p \<Longrightarrow> flash_printError e k p = k (Inr ()) (snd (printError e p))"
  using print_flash_ok(1) [of p "''error''" e]
  by (cases "print_flash ''error'' e p")
    (simp add: flash_printError_def seq_def bnd_def controller_run sync_def printError_def)

lemma the_targets_run:
  "page_ok p \<Longrightarrow> set ts \<subseteq> set declared_targets \<Longrightarrow> the_targets ts k p = k (Inr ()) p"
  by (induction ts arbitrary: k) (simp_all add: ret_def seq_def bnd_def the_target_run del: declared_simps)

lemma check_loop_run:
  "page_ok p \<Longrightarrow> set ts \<subseteq> set declared_targets \<Longrightarrow> check_loop ts k p =
     (case find (is_empty p) ts of
        None \<Rightarrow> k (Inr True) p
      | Some t \<Rightarrow> k (Inr False) (snd (printError (validation_error p t) p)))"
proof (induction ts)
  case (Cons t ts)
  obtain el where el: "get_target p t = Some el" using Cons.prems page_ok_target by fastforce
  have "is_empty p t \<longleftrightarrow> e_value el = Some [] \<or> e_value el = None"
    by (auto simp: is_empty_def value_of_def el)
  moreover have "validation_error p t = ''form validation failed: '' @ quoted (e_name el) @ '' is empty or invalid''"
    by (simp add: validation_error_def name_of_def el)
  ultimately show ?case
    using Cons el by (simp add: ret_def seq_def bnd_def target_prop_run printError_run del: declared_simps)
qed (simp add: ret_def)

lemma checkInputs_run:
  "page_ok p \<Longrightarrow> set ts \<subseteq> set declared_targets \<Longrightarrow> checkInputs ts k p =
     (case find (is_empty p) ts of
        None \<Rightarrow> k (Inr True) p
      | Some t \<Rightarrow> k (Inr False) (snd (printError (validation_error p t) p)))"
  by (simp add: checkInputs_def seq_def bnd_def the_targets_run check_loop_run)

lemma required_declared: "set (required h) \<subseteq> set declared_targets"
  by (cases h) (simp_all add: declared_def)

lemma invalid_input:
  assumes "page_ok p" and "find (is_empty p) (required h) = Some t"
  shows "run_js (handler_code br h) p = ([], snd (printError (validation_error p t) p))"
proof (cases h)
  case RoutingAddPeer
  with assms checkInputs_run [OF assms(1) required_declared [of h]] show ?thesis
    by (simp add: run_js_def routing_addPeer_def bnd_def ret_def)
next
  case DataSharingDownload
  with assms checkInputs_run [OF assms(1) required_declared [of h]] show ?thesis
    by (simp add: run_js_def dataSharing_download_def bnd_def ret_def)
qed (use assms checkInputs_run [OF assms(1) required_declared [of h]] in
     \<open>simp_all add: run_js_def bnd_def ret_def getAPIURL_run unicast_send_def routing_setEntry_def
       broadcast_sendChat_def broadcast_sendPrivate_def catalog_add_def search_searchAll_def
       search_searchFirst_def naming_tag_def\<close>)

fun json_path :: "jsstr list \<Rightarrow> json \<Rightarrow> json option" where
  "json_path [] j = Some j"
| "json_path (k # ks) (JObject ps) = (case map_get ps k of Some j \<Rightarrow> json_path ks j | None \<Rightarrow> None)"
| "json_path (k # ks) (JArray xs) =
     (if is_index k \<and> digits_value k < length xs then json_path ks (xs ! digits_value k) else None)"
| "json_path _ _ = None"

text \<open>
  Where the body of a handler's request carries which input, and how: as a string; as the number
  that a decimal text stands for (up to 2^53, beyond which JavaScript rounds); or as an
  object with the pieces between commas, trimmed, for its properties.
\<close>

datatype field = TextField | NumberField | NamesField

definition decimal :: "jsstr \<Rightarrow> bool" where
  "decimal v \<longleftrightarrow> nat_text (digits_value v) = v \<and> digits_value v \<le> 2 ^ 53"

fun holds_input :: "field \<Rightarrow> jsstr \<Rightarrow> json option \<Rightarrow> bool" where
  "holds_input TextField v j = (j = Some (JString v))"
| "holds_input NumberField v j = (if decimal v then j = Some (JNumber (int (digits_value v))) else True)"
| "holds_input NamesField v j =
     (case j of
        Some (JObject ps) \<Rightarrow>
          distinct (map fst ps) \<and>
          set ps = (\<lambda>r. (trim r, JObject [])) ` {r \<in> set (split_on (CHR '','') v). trim r \<noteq> ''__proto__''}
      | _ \<Rightarrow> False)"

fun carried :: "handler \<Rightarrow> (jsstr list \<times> field \<times> target) list" where
  "carried UnicastSend =
     [([''Dest''], TextField, (''unicast'', ''destination'')),
      ([''Msg'', ''payload'', ''Message''], TextField, (''unicast'', ''message''))]"
| "carried RoutingAddPeer = [([''0''], TextField, (''routing'', ''peer''))]"
| "carried RoutingSetEntry =
     [([''Origin''], TextField, (''routing'', ''origin'')), ([''RelayAddr''], TextField, (''routing'', ''relay''))]"
| "carried BroadcastSendChat = [([''payload'', ''Message''], TextField, (''broadcast'', ''chatMessage''))]"
| "carried BroadcastSendPrivate =
     [([''payload'', ''Msg'', ''payload'', ''Message''], TextField, (''broadcast'', ''privateMessage'')),
      ([''payload'', ''Recipients''], NamesField, (''broadcast'', ''privateRecipients''))]"
| "carried CatalogAdd =
     [([''0''], TextField, (''catalog'', ''key'')), ([''1''], TextField, (''catalog'', ''value''))]"
| "carried SearchAll =
     [([''Pattern''], TextField, (''search'', ''searchAllPattern'')),
      ([''Budget''], NumberField, (''search'', ''searchAllBudget'')),
      ([''Timeout''], TextField, (''search'', ''searchAllTimeout''))]"
| "carried SearchFirst =
     [([''Pattern''], TextField, (''search'', ''searchFirstPattern'')),
      ([''Initial''], NumberField, (''search'', ''searchFirstInitialBudget'')),
      ([''Factor''], NumberField, (''search'', ''searchFirstFactor'')),
      ([''Retry''], NumberField, (''search'', ''searchFirstRetry'')),
      ([''Timeout''], TextField, (''search'', ''searchFirstTimeout''))]"
| "carried NamingTag =
     [([''0''], TextField, (''naming'', ''tagFilename'')), ([''1''], TextField, (''naming'', ''tagMetahash''))]"
| "carried _ = []"

fun endpoint_path :: "handler \<Rightarrow> jsstr" where
  "endpoint_path UnicastSend = ''/messaging/unicast''"
| "endpoint_path RoutingAddPeer = ''/messaging/peers''"
| "endpoint_path RoutingSetEntry = ''/messaging/routing''"
| "endpoint_path BroadcastSendChat = ''/messaging/broadcast''"
| "endpoint_path BroadcastSendPrivate = ''/messaging/broadcast''"
| "endpoint_path CatalogAdd = ''/datasharing/catalog''"
| "endpoint_path SearchAll = ''/datasharing/searchAll''"
| "endpoint_path SearchFirst = ''/datasharing/searchFirst''"
| "endpoint_path NamingTag = ''/datasharing/naming''"
| "endpoint_path _ = []"

definition posts :: "page \<Rightarrow> request \<Rightarrow> jsstr \<Rightarrow> (jsstr list \<times> field \<times> target) list \<Rightarrow> bool" where
  "posts p rq url fs \<longleftrightarrow> rq_method rq = ''POST'' \<and> rq_url rq = url \<and>
     (case rq_body rq of
        Some (TextBody txt) \<Rightarrow>
          (case json_parse txt of
             Some j \<Rightarrow> list_all (\<lambda>(path, f, t).
               case value_of p t of Some v \<Rightarrow> holds_input f v (json_path path j) | None \<Rightarrow> False) fs
           | None \<Rightarrow> False)
      | _ \<Rightarrow> False)"

lemma posts_json:
  assumes "json_ok j"
    and "list_all (\<lambda>(path, f, t). case value_of p t of Some v \<Rightarrow> holds_input f v (json_path path j) | None \<Rightarrow> False) fs"
  shows "posts p (post_json url j) url fs" and "posts p (post_search url j) url fs"
  using assms by (simp_all add: posts_def post_json_def post_search_def post_request_def json_parse_stringify_ok)

lemma parseInt_decimal: "decimal v \<Longrightarrow> json_number (parseInt v) = JNumber (int (digits_value v))"
  by (metis decimal_def json_number_def option.simps(5) parseInt_nat_text)

lemma holds_number: "holds_input NumberField v (Some (json_number (parseInt v)))"
  by (simp add: parseInt_decimal)

lemma holds_names: "holds_input NamesField v (Some (JObject (recipients v)))"
proof -
  have d: "distinct (map fst (recipients v))" using recipients_ordered by (simp add: ordered_props_def)
  have "x \<in> set (recipients v) \<longleftrightarrow> map_of (recipients v) (fst x) = Some (snd x)" for x
    using d by (cases x) simp
  then have "set (recipients v) = (\<lambda>r. (trim r, JObject [])) ` {r \<in> set (split_on (CHR '','') v). trim r \<noteq> ''__proto__''}"
    by (auto simp: recipients_def recipients_fold split: if_splits)
  with d show ?thesis by simp
qed

text \<open>One request is issued and awaited, and nothing else is shown meanwhile.\<close>

definition sends :: "page \<Rightarrow> pending list \<times> page \<Rightarrow> (request \<Rightarrow> bool) \<Rightarrow> bool" where
  "sends p res P \<longleftrightarrow>
     (case res of
        ([q], p') \<Rightarrow>
          (case awaited q of
             AwFetch rq \<Rightarrow> P rq \<and> pg_requests p' = pg_requests p @ [rq] \<and> pg_shown p' = pg_shown p
           | _ \<Rightarrow> False)
      | _ \<Rightarrow> False)"

lemma sends_fetch:
  "pg_requests p' = pg_requests p \<Longrightarrow> pg_shown p' = pg_shown p \<Longrightarrow> P rq \<Longrightarrow> sends p (base_fetch rq k p') P"
  by (simp add: sends_def base_fetch_def fetch_global_def modify_def seq_def bnd_def sync_def await_def)

lemma value_run:
  "page_ok p \<Longrightarrow> t \<in> set declared_targets \<Longrightarrow> target_prop e_value t k p = k (Inr (value_of p t)) p"
  by (auto simp: target_prop_run value_of_def dest!: page_ok_target)

lemma value_text_run:
  "page_ok p \<Longrightarrow> t \<in> set declared_targets \<Longrightarrow>
     target_prop (value_text \<circ> e_value) t k p = k (Inr (value_text (value_of p t))) p"
  by (auto simp: target_prop_run value_of_def dest!: page_ok_target)

lemma set_innerHTML_run:
  "page_ok p \<Longrightarrow> t \<in> set declared_targets \<Longrightarrow> set_innerHTML t s k p =
     k (Inr ()) (update_target t (\<lambda>el. el\<lparr>e_children := (if s = [] then [] else [Markup s])\<rparr>) p)"
  by (simp add: set_innerHTML_def on_target_def seq_def bnd_def the_target_run modify_def sync_def)

lemma not_empty: "\<not> is_empty p t \<Longrightarrow> \<exists>s. value_of p t = Some s"
  by (auto simp: is_empty_def)

lemma json_ok_values: "json_ok (array_value v)" "json_ok (json_number n)" "json_ok (chat_json m)"
  by (simp_all add: array_value_def json_number_def chat_json_def named_props split: option.splits)

lemmas handler_runs = run_js_def bnd_def seq_def ret_def try_catch_def getAPIURL_run value_run value_text_run set_innerHTML_run

lemma indices [simp]: "is_index ''0''" "is_index ''1''" "digits_value ''0'' = 0" "digits_value ''1'' = 1"
proof -
  show d: "digits_value ''0'' = 0" "digits_value ''1'' = 1"
    by (simp_all add: digits_value_def digit_value_def code_def)
  have "nat_text 0 = [digit 0]" "nat_text 1 = [digit 1]" by (subst nat_text.simps, simp)+
  moreover have "digit 0 = CHR ''0''" "digit 1 = CHR ''1''" by (simp_all add: digit_def code_def)
  ultimately have "nat_text 0 = ''0''" "nat_text 1 = ''1''" by simp_all
  with d show "is_index ''0''" "is_index ''1''"
    by (simp_all add: is_index_def is_digit_def code_def)
qed

lemma private_path:
  "json_path [''payload'', ''Msg'', ''payload'', ''Message''] (private_json d m) = Some (JString m)"
  "json_path [''payload'', ''Recipients''] (private_json d m) = Some (JObject (recipients d))"
  by (simp_all add: private_json_def chat_json_def)

lemma valid_input:
  assumes "page_ok p" and "carried h \<noteq> []" and none: "find (is_empty p) (required h) = None"
    and vals: "\<forall>(path, f, t) \<in> set (carried h). value_of p t \<noteq> None"
  shows "sends p (run_js (handler_code br h) p)
    (\<lambda>rq. posts p rq (value_text (pg_endpoint p) @ endpoint_path h) (carried h))"
proof -
  note check = checkInputs_run [OF assms(1) required_declared [of h]]
  note runs = handler_runs declared_def value_text_def Let_def prop_value_def array_value_def
  note bodies = posts_json json_ok_values named_props
  show ?thesis
  proof (cases h)
    case UnicastSend
    then obtain a b where v: "value_of p (''unicast'', ''destination'') = Some a"
        "value_of p (''unicast'', ''message'') = Some b" using vals by auto
    show ?thesis
      using assms(1) none check UnicastSend
      by (simp add: runs unicast_send_def v) (rule sends_fetch; simp add: v bodies chat_json_def)
  next
    case RoutingAddPeer
    then obtain a where v: "value_of p (''routing'', ''peer'') = Some a" using vals by auto
    show ?thesis
      using assms(1) none check RoutingAddPeer
      by (simp add: runs routing_addPeer_def v) (rule sends_fetch; simp add: v bodies)
  next
    case RoutingSetEntry
    then obtain a b where v: "value_of p (''routing'', ''origin'') = Some a"
        "value_of p (''routing'', ''relay'') = Some b" using vals by auto
    show ?thesis
      using assms(1) none check RoutingSetEntry
      by (simp add: runs routing_setEntry_def v split del: if_split) (rule sends_fetch; simp add: v bodies)
  next
    case BroadcastSendChat
    then obtain a where v: "value_of p (''broadcast'', ''chatMessage'') = Some a" using vals by auto
    show ?thesis
      using assms(1) none check BroadcastSendChat
      by (simp add: runs broadcast_sendChat_def v) (rule sends_fetch; simp add: v bodies chat_json_def)
  next
    case BroadcastSendPrivate
    then obtain a b where v: "value_of p (''broadcast'', ''privateMessage'') = Some a"
        "value_of p (''broadcast'', ''privateRecipients'') = Some b" using vals by auto
    show ?thesis
      using assms(1) none check BroadcastSendPrivate
      by (simp add: runs broadcast_sendPrivate_def v)
        (rule sends_fetch; simp add: v posts_json private_json_ok private_path holds_names del: holds_input.simps(3))
  next
    case CatalogAdd
    then obtain a b where v: "value_of p (''catalog'', ''key'') = Some a"
        "value_of p (''catalog'', ''value'') = Some b" using vals by auto
    show ?thesis
      using assms(1) none check CatalogAdd
      by (simp add: runs catalog_add_def v) (rule sends_fetch; simp add: v bodies)
  next
    case SearchAll
    then obtain a b c where v: "value_of p (''search'', ''searchAllPattern'') = Some a"
        "value_of p (''search'', ''searchAllTimeout'') = Some b" "value_of p (''search'', ''searchAllBudget'') = Some c"
      using vals by auto
    show ?thesis
      using assms(1) none check SearchAll
      by (simp add: runs search_searchAll_def v search_all_json_def)
        (rule sends_fetch; simp add: v bodies holds_number del: holds_input.simps(2))
  next
    case SearchFirst
    then obtain a b c d e where v: "value_of p (''search'', ''searchFirstPattern'') = Some a"
        "value_of p (''search'', ''searchFirstTimeout'') = Some b"
        "value_of p (''search'', ''searchFirstInitialBudget'') = Some c"
        "value_of p (''search'', ''searchFirstFactor'') = Some d"
        "value_of p (''search'', ''searchFirstRetry'') = Some e" using vals by auto
    show ?thesis
      using assms(1) none check SearchFirst
      by (simp add: runs search_searchFirst_def v search_first_json_def)
        (rule sends_fetch; simp add: v bodies holds_number del: holds_input.simps(2))
  next
    case NamingTag
    then obtain a b where v: "value_of p (''naming'', ''tagFilename'') = Some a"
        "value_of p (''naming'', ''tagMetahash'') = Some b" using vals by auto
    show ?thesis
      using assms(1) none check NamingTag
      by (simp add: runs naming_tag_def v) (rule sends_fetch; simp add: v bodies)
  qed (use assms(2) in simp_all)
qed

section \<open>Runs of one handler\<close>

text \<open>The handler's awaits settled one after the other by the given replies.\<close>

fun drive :: "reply list \<Rightarrow> pending list \<times> page \<Rightarrow> pending list \<times> page" where
  "drive (r # rs) ([q], p) = (if fits (awaited q) r then drive rs (resume q r p) else ([q], p))"
| "drive rs res = res"

lemma print_flash_effect:
  assumes "page_ok p"
  shows "get_target (snd (print_flash c e p)) t = get_target p t"
    and "pg_requests (snd (print_flash c e p)) = pg_requests p"
    and "pg_endpoint (snd (print_flash c e p)) = pg_endpoint p"
    and "pg_downloads (snd (print_flash c e p)) = pg_downloads p"
    and "pg_shown (snd (print_flash c e p)) = pg_shown p @ [(c, join '' '' (words e))]"
proof -
  have "get_target p (''flash'', ''wrapper'') \<noteq> None"
    using assms unfolding page_ok_def declared_targets_def declared_def by simp
  then obtain el where "map_of (pg_targets p) (''flash'', ''wrapper'') = Some el"
    unfolding get_target_def by blast
  then show "get_target (snd (print_flash c e p)) t = get_target p t"
    "pg_requests (snd (print_flash c e p)) = pg_requests p"
    "pg_endpoint (snd (print_flash c e p)) = pg_endpoint p"
    "pg_downloads (snd (print_flash c e p)) = pg_downloads p"
    "pg_shown (snd (print_flash c e p)) = pg_shown p @ [(c, join '' '' (words e))]"
    by (simp_all add: print_flash_def createFlash_def get_target_def flash_text Let_def)
qed

lemma printSuccess_run: "page_ok p \<Longrightarrow> flash_printSuccess e k p = k (Inr ()) (snd (printSuccess e p))"
  using print_flash_ok(1) [of p "''success''" e]
  by (cases "print_flash ''success'' e p")
    (simp add: flash_printSuccess_def seq_def bnd_def controller_run sync_def printSuccess_def)

lemma update_target_twice: "update_target t f (update_target t g p) = update_target t (\<lambda>el. f (g el)) p"
  by (cases "get_target p t") (simp_all add: update_target_def get_target_def)

lemma update_target_same: "update_target t (\<lambda>el. el) p = p"
  by (simp add: update_target_def get_target_def update_triv split: option.splits)

lemma append_child_run:
  "page_ok p \<Longrightarrow> t \<in> set declared_targets \<Longrightarrow> append_child t d k p =
     k (Inr ()) (update_target t (\<lambda>el. el\<lparr>e_children := e_children el @ [d]\<rparr>) p)"
  by (simp add: append_child_def on_target_def seq_def bnd_def the_target_run modify_def sync_def)

lemma for_each_append_run:
  "page_ok p \<Longrightarrow> t \<in> set declared_targets \<Longrightarrow> for_each xs (\<lambda>x. append_child t (f x)) k p =
     k (Inr ()) (update_target t (\<lambda>el. el\<lparr>e_children := e_children el @ map f xs\<rparr>) p)"
  by (induction xs arbitrary: p)
    (simp_all add: ret_def seq_def bnd_def update_target_same append_child_run update_target_twice
       del: declared_simps)

lemma update_endpoint [simp]: "pg_endpoint (update_target t f p) = pg_endpoint p"
  by (simp add: update_target_def split: option.splits)

lemmas run_rules = run_js_def bnd_def seq_def ret_def throw_def try_catch_def base_fetch_def fetch_global_def
  resp_text_def resp_json_def resp_blob_def renderSVGElement_def modify_def sync_def await_def

definition children :: "page \<Rightarrow> target \<Rightarrow> dom_node list" where
  "children p t = (case get_target p t of Some el \<Rightarrow> e_children el | None \<Rightarrow> [])"

lemma children_set:
  "page_ok p \<Longrightarrow> t \<in> set declared_targets \<Longrightarrow>
   children (update_target t (\<lambda>el. el\<lparr>e_children := c\<rparr>) p) t' = (if t' = t then c else children p t')"
  by (auto simp: children_def get_target_update dest: page_ok_target)

lemma children_append:
  "page_ok p \<Longrightarrow> t \<in> set declared_targets \<Longrightarrow>
   children (update_target t (\<lambda>el. el\<lparr>e_children := e_children el @ c\<rparr>) p) t' =
     (if t' = t then children p t @ c else children p t')"
  by (auto simp: children_def get_target_update dest: page_ok_target)

lemma flash_effects:
  assumes "page_ok p"
  shows "page_ok (snd (printSuccess e p))" and "page_ok (snd (printError e p))"
    and "children (snd (printSuccess e p)) t = children p t" and "children (snd (printError e p)) t = children p t"
    and "pg_requests (snd (printSuccess e p)) = pg_requests p" and "pg_requests (snd (printError e p)) = pg_requests p"
    and "pg_endpoint (snd (printSuccess e p)) = pg_endpoint p" and "pg_endpoint (snd (printError e p)) = pg_endpoint p"
    and "pg_downloads (snd (printSuccess e p)) = pg_downloads p"
    and "pg_unhandled (snd (printSuccess e p)) = pg_unhandled p"
    and "pg_shown (snd (printSuccess e p)) = pg_shown p @ [(''success'', join '' '' (words e))]"
    and "pg_shown (snd (printError e p)) = pg_shown p @ [(''error'', join '' '' (words e))]"
  using assms print_flash_ok print_flash_effect
  by (simp_all add: printSuccess_def printError_def children_def)

lemma children_frame:
  "children (p\<lparr>pg_requests := c\<rparr>) t = children p t" "children (p\<lparr>pg_downloads := d\<rparr>) t = children p t"
  by (simp_all add: children_def get_target_def)

lemma get_target_frame:
  "get_target (p\<lparr>pg_requests := c\<rparr>) t = get_target p t" "get_target (p\<lparr>pg_downloads := d\<rparr>) t = get_target p t"
  by (simp_all add: get_target_def)

lemmas page_rules = getAPIURL_run set_innerHTML_run for_each_append_run append_child_run printSuccess_run
  printError_run page_ok_frame children_set children_append flash_effects children_frame get_target_frame

text \<open>
  Routing.update with every reply good: the table shows the entries in their order, the
  graph is replaced, and one success is reported.
\<close>

lemma routing_update_good:
  assumes "page_ok p" and "rs_status a = 200" and "rs_status b = 200"
  shows "case drive [RResponse a, RJson (JObject entries), RResponse b, RText src, RSvg svg]
        (run_js routing_update p) of
      (ps, p') \<Rightarrow> ps = [] \<and> children p' (''routing'', ''table'') = map route_row entries \<and>
        children p' (''routing'', ''graphviz'') = [svg] \<and>
        pg_shown p' = pg_shown p @ [(''success'', join '' '' (words ''Routing table updated''))]"
  using assms
  by (simp add: routing_update_def routing_table_def routing_graph_def run_rules page_rules declared_def)

text \<open>The table part failing leaves the table alone, is reported, and the graph is drawn all the same.\<close>

lemma routing_update_table_fails:
  assumes "page_ok p" and "rs_status b = 200"
  shows "case drive [RError e, RResponse b, RText src, RSvg svg] (run_js routing_update p) of
      (ps, p') \<Rightarrow> ps = [] \<and> children p' (''routing'', ''table'') = children p (''routing'', ''table'') \<and>
        children p' (''routing'', ''graphviz'') = [svg] \<and>
        pg_shown p' = pg_shown p @ [(''error'', join '' '' (words (''Failed to fetch routing: '' @ error_text e)))]"
  using assms
  by (simp add: routing_update_def routing_table_def routing_graph_def run_rules page_rules declared_def)

lemma catalog_update_good:
  assumes "page_ok p" and "rs_status a = 200"
  shows "case drive [RResponse a, RJson (JObject entries)] (run_js catalog_update p) of
      (ps, p') \<Rightarrow> ps = [] \<and>
        children p' (''catalog'', ''content'') =
          (if entries = [] then [Markup ''<i>no elements</i>''] else map catalog_entry entries)"
  using assms
  by (cases "entries = []") (simp_all add: catalog_update_def run_rules page_rules declared_def update_target_twice)

lemma download_good:
  assumes "page_ok p" and "rs_status a = 200" and "value_of p (''dataSharing'', ''downloadMetahash'') = Some (c # cs)"
  shows "case drive [RResponse a, RBlob blob] (run_js dataSharing_download p) of
      (ps, p') \<Rightarrow> ps = [] \<and> pg_downloads p' = pg_downloads p @ [(c # cs, blob)]"
  using assms checkInputs_run [OF assms(1) required_declared [of DataSharingDownload]]
  by (simp add: dataSharing_download_def triggerDownload_def run_rules page_rules declared_def value_text_run
        is_empty_def value_text_def)

lemma naming_resolve_unguarded:
  assumes "page_ok p" and "value_of p (''naming'', ''resolveFilename'') = Some []"
  shows "case run_js naming_resolve p of
      (ps, p') \<Rightarrow> pg_requests p' =
          pg_requests p @ [get_request (value_text (pg_endpoint p) @ ''/datasharing/naming?name='')] \<and>
        pg_shown p' = pg_shown p @
          [(''error'', join '' '' (words (validation_error p (''naming'', ''resolveFilename''))))]"
proof -
  have "checkInputs [(''naming'', ''resolveFilename'')] k p =
      k (Inr False) (snd (printError (validation_error p (''naming'', ''resolveFilename'')) p))" for k
    using assms checkInputs_run [OF assms(1), of "[(''naming'', ''resolveFilename'')]"]
    by (simp add: is_empty_def declared_def)
  moreover have "value_of (snd (printError e p)) t = value_of p t" for e t
    using print_flash_effect(1) [OF assms(1)] by (simp add: value_of_def printError_def)
  ultimately show ?thesis
    using assms by (simp add: naming_resolve_def run_rules page_rules declared_def value_text_run value_text_def)
qed

lemma children_keep:
  "(\<And>el. e_children (f el) = e_children el) \<Longrightarrow> children (update_target t f p) t' = children p t'"
  by (simp add: children_def get_target_update split: option.splits)

lemma on_target_run:
  "page_ok p \<Longrightarrow> t \<in> set declared_targets \<Longrightarrow> on_target t f k p = k (Inr ()) (update_target t f p)"
  by (simp add: on_target_def seq_def bnd_def the_target_run modify_def sync_def)

lemma addMsg_run:
  "page_ok p \<Longrightarrow> messaging_addMsg el k p = k (Inr ())
     (update_target (''messaging'', ''holder'') (\<lambda>h. h\<lparr>e_scrollTop := e_scrollHeight h\<rparr>)
       (update_target messages (\<lambda>e. e\<lparr>e_children := e_children e @ [el]\<rparr>) p))"
  by (simp add: messaging_addMsg_def addMsg_def seq_def bnd_def controller_run append_child_run the_target_run
        on_target_run declared_def)

lemma packet_run:
  assumes "page_ok p" and "json_parse data = Some (JObject pkt)"
    and "map_get pkt ''Header'' = Some (JObject header)" and "map_get pkt ''Msg'' = Some (JObject msg)"
    and "map_get header ''Source'' = Some (JString source)"
    and "map_get msg ''Type'' = Some (JString type)" and "map_get msg ''Payload'' = Some (JObject payload)"
  shows "case run_js (packetMessage br data) p of (ps, p') \<Rightarrow> ps = [] \<and> page_ok p' \<and>
      pg_unhandled p' = pg_unhandled p \<and> pg_shown p' = pg_shown p \<and>
      children p' (''packets'', ''packets'') = children p (''packets'', ''packets'') @
        [Tag ''div'' [] [Markup (''<pre>'' @ json_pretty [] (JObject pkt) @ ''</pre>'')]] \<and>
      children p' messages = children p messages @
        (if type = ''chat'' then
           [Tag ''div'' [if pg_socketAddr p = Some source then ''sent'' else ''received'']
              [Markup (packet_html (undef_string (map_get payload ''Message'')) source
                 (date_text br (timestamp_ms (map_get header ''Timestamp''))))]]
         else [])"
proof -
  have eq: "loose_eq (Some (JString s)) v \<longleftrightarrow> v = Some s" for s v by (cases v) auto
  show ?thesis
    using assms
    by (auto simp: packetMessage_def packet_chat_def field_def run_rules page_rules declared_def eq undef_string_def
          Let_def controller_run gets_def the_target_run target_prop_run on_target_run addMsg_run children_keep
          simp del: json_pretty.simps)
qed

section \<open>Properties\<close>

text \<open>A page with all declared targets, every input holding the same value.\<close>

definition sample_page :: "jsstr \<Rightarrow> page" where
  "sample_page v = flash_page\<lparr>
     pg_targets := map (\<lambda>t. (t, empty_element\<lparr>e_value := Some v\<rparr>)) declared_targets,
     pg_controllers := map fst declared, pg_endpoint := Some ''http://127.0.0.1:80''\<rparr>"

lemma sample_target:
  "get_target (sample_page v) t = (if t \<in> set declared_targets then Some (empty_element\<lparr>e_value := Some v\<rparr>) else None)"
  by (simp add: get_target_def sample_page_def map_of_map_restrict del: declared_simps)

lemma sample_ok: "page_ok (sample_page v)"
  by (auto simp: page_ok_def sample_target simp del: declared_simps) (simp_all add: sample_page_def declared_def)

lemma sample_value: "t \<in> set declared_targets \<Longrightarrow> value_of (sample_page v) t = Some v"
  by (simp add: value_of_def sample_target del: declared_simps)

definition sample_browser :: browser where
  "sample_browser = \<lparr>br_hms = (\<lambda>_. (12, 0, 0)), br_decodeURIComponent = Inr\<rparr>"

definition ok_response :: response where
  "ok_response = \<lparr>rs_id = 0, rs_status = 200, rs_statusText = ''OK''\<rparr>"


definition tag_events :: "event list" where
  "tag_events = [Call NamingTag, Settle 0 (RError (ErrorObject ''TypeError'' ''network''))]"


text \<open>
  C13. Validation. If an input that a handler requires is empty, calling the handler sends
  no request and leaves nothing pending; it only shows an error that names the first
  empty input.
\<close>

theorem invalid_input_sends_nothing:
  assumes "page_ok p" and "find (is_empty p) (required h) = Some t"
  shows "case run_js (handler_code br h) p of (ps, p') \<Rightarrow>
    ps = [] \<and> pg_requests p' = pg_requests p \<and>
    pg_shown p' = pg_shown p @ [(''error'', join '' '' (words (validation_error p t)))]"
  using invalid_input [OF assms] flash_effects [OF assms(1)] by simp

lemma invalid_input_sends_nothing_witness:
  "pg_requests (snd (run_js (handler_code sample_browser UnicastSend) (sample_page []))) = []"
proof -
  have "find (is_empty (sample_page [])) (required UnicastSend) = Some (''unicast'', ''message'')"
    by (simp add: is_empty_def sample_value declared_def)
  from invalid_input_sends_nothing [OF sample_ok this, of sample_browser] show ?thesis
    by (auto simp: sample_page_def flash_page_def)
qed

text \<open>
  C12. If the required inputs are filled in, a posting handler sends exactly one request, by
  POST, to the path of its operation at the node's endpoint, and the body, parsed as the
  receiver parses it, carries every input in the field for it: texts unchanged, so that no
  character a user types can break out of its field, decimal numbers up to 2^53 as these
  numbers, and the recipients of a private message as the trimmed names between commas
  (but for the one name that JavaScript objects treat specially).
\<close>

theorem valid_input_is_posted:
  assumes "page_ok p" and "carried h \<noteq> []" and "find (is_empty p) (required h) = None"
    and "\<forall>(path, f, t) \<in> set (carried h). value_of p t \<noteq> None"
  shows "sends p (run_js (handler_code br h) p)
    (\<lambda>rq. posts p rq (value_text (pg_endpoint p) @ endpoint_path h) (carried h))"
  using assms by (rule valid_input)

lemma valid_input_is_posted_witness:
  "sends (sample_page ''a'') (run_js (handler_code sample_browser CatalogAdd) (sample_page ''a''))
    (\<lambda>rq. posts (sample_page ''a'') rq ''http://127.0.0.1:80/datasharing/catalog'' (carried CatalogAdd))"
  using valid_input_is_posted [OF sample_ok, of CatalogAdd "''a''" sample_browser]
  by (simp add: is_empty_def sample_value declared_def) (simp add: sample_page_def value_text_def)

text \<open>
  \<open>BaseElement.fetch\<close> issues the request and awaits it; a network error and any status
  but 200 become exceptions, the latter with the status, its text and the body of the
  response, and the caller continues with the response only when the status is 200.
\<close>

theorem base_fetch_checks_status:
  "case base_fetch rq k p of
     ([q], p') \<Rightarrow>
       awaited q = AwFetch rq \<and> p' = p\<lparr>pg_requests := pg_requests p @ [rq]\<rparr> \<and>
       resume q (RError e) = k (Inl e) \<and>
       (if rs_status resp = 200 then resume q (RResponse resp) = k (Inr resp)
        else (case resume q (RResponse resp) p1 of
          ([q'], p2) \<Rightarrow>
            awaited q' = AwText resp \<and> p2 = p1 \<and> resume q' (RError e) = k (Inl e) \<and>
            resume q' (RText txt) =
              k (Inl (Thrown (''wrong status: '' @ nat_text (rs_status resp) @ '' '' @ rs_statusText resp @
                 '' - '' @ txt)))
        | _ \<Rightarrow> False))
   | _ \<Rightarrow> False"
  by (simp add: run_rules)

text \<open>
  C33. \<open>Routing.update\<close>. With good replies the table shows exactly the entries of the response,
  in order, the graph is replaced by the rendered one and one success is reported. If the
  table cannot be fetched it is left as it was, the failure is reported, and the graph is
  fetched and drawn all the same.
\<close>

theorem routing_update_outcome:
  assumes "page_ok p" and "rs_status a = 200" and "rs_status b = 200"
  shows "(case drive [RResponse a, RJson (JObject entries), RResponse b, RText src, RSvg svg]
        (run_js routing_update p) of
      (ps, p') \<Rightarrow> ps = [] \<and> children p' (''routing'', ''table'') = map route_row entries \<and>
        children p' (''routing'', ''graphviz'') = [svg] \<and>
        pg_shown p' = pg_shown p @ [(''success'', join '' '' (words ''Routing table updated''))]) \<and>
    (case drive [RError e, RResponse b, RText src, RSvg svg] (run_js routing_update p) of
      (ps, p') \<Rightarrow> ps = [] \<and> children p' (''routing'', ''table'') = children p (''routing'', ''table'') \<and>
        children p' (''routing'', ''graphviz'') = [svg] \<and>
        pg_shown p' = pg_shown p @ [(''error'', join '' '' (words (''Failed to fetch routing: '' @ error_text e)))])"
  using assms by (intro conjI routing_update_good routing_update_table_fails)

lemma routing_update_outcome_witness:
  "children (snd (drive [RResponse ok_response, RJson (JObject [(''a'', JString ''b'')]), RResponse ok_response,
     RText ''digraph'', RSvg (Markup ''svg'')] (run_js routing_update (sample_page []))))
     (''routing'', ''table'') = [Tag ''tr'' [] [Markup ''<td>a</td><td>b</td>'']]"
  using routing_update_outcome [OF sample_ok [of "[]"], where a = ok_response and b = ok_response
      and entries = "[(''a'', JString ''b'')]" and src = "''digraph''" and svg = "Markup ''svg''" and e = "Thrown []"]
  by (simp add: case_prod_unfold ok_response_def route_row_def)

text \<open>
  \<open>Catalog.update\<close> with a good reply shows one block per chunk, in the order of the
  response, with the chunk's name and its peers, or a note when the catalog is empty.
\<close>

theorem catalog_update_outcome:
  assumes "page_ok p" and "rs_status a = 200"
  shows "case drive [RResponse a, RJson (JObject entries)] (run_js catalog_update p) of
      (ps, p') \<Rightarrow> ps = [] \<and>
        children p' (''catalog'', ''content'') =
          (if entries = [] then [Markup ''<i>no elements</i>''] else map catalog_entry entries)"
  using assms by (rule catalog_update_good)

lemma catalog_update_outcome_witness:
  "children (snd (drive [RResponse ok_response, RJson (JObject [(''c'', JObject [(''p'', JObject [])])])]
     (run_js catalog_update (sample_page [])))) (''catalog'', ''content'') =
     [Tag ''div'' [] [Tag ''p'' [] [Markup ''c''], Tag ''p'' [] [Markup ''p'']]]"
  using catalog_update_outcome [OF sample_ok [of "[]"], where a = ok_response
      and entries = "[(''c'', JObject [(''p'', JObject [])])]"]
  by (simp add: case_prod_unfold ok_response_def catalog_entry_def forin_keys_def inner_html_def)


definition sample_packet :: "(jsstr \<times> json) list" where
  "sample_packet =
     [(''Header'', JObject [(''Source'', JString ''b:1''), (''Timestamp'', JNumber 5000000)]),
      (''Msg'', JObject [(''Type'', JString ''chat''), (''Payload'', JObject [(''Message'', JString ''hi'')])])]"


text \<open>
  C39. Unlike the other handlers, \<open>Naming.resolve\<close> goes on after a failed validation: with an
  empty file name it shows the validation error and then sends a request without a name.
\<close>

theorem naming_resolve_ignores_validation:
  assumes "page_ok p" and "value_of p (''naming'', ''resolveFilename'') = Some []"
  shows "case run_js naming_resolve p of
      (ps, p') \<Rightarrow> pg_requests p' =
          pg_requests p @ [get_request (value_text (pg_endpoint p) @ ''/datasharing/naming?name='')] \<and>
        pg_shown p' = pg_shown p @
          [(''error'', join '' '' (words (validation_error p (''naming'', ''resolveFilename''))))]"
  using assms by (rule naming_resolve_unguarded)

lemma naming_resolve_ignores_validation_witness:
  "length (pg_requests (snd (run_js naming_resolve (sample_page [])))) = 1"
  using naming_resolve_ignores_validation [OF sample_ok, of "[]"]
  by (auto simp: sample_value declared_def) (simp add: sample_page_def flash_page_def)

text \<open>
  C40. The number fields of both searches are what \<open>parseInt\<close> reads: a decimal number up to
  2^53 is sent as that number, and a text that starts with neither white space, a sign nor
  a digit is sent as null, although the field passed the validation.
\<close>

theorem search_numbers_are_parsed:
  assumes "n \<le> 2 ^ 53" and "\<not> (is_ws c \<or> is_digit c \<or> c \<in> set ''+-'')"
  shows "list_all (\<lambda>body.
      body (nat_text n) = Some (JNumber (int n)) \<and> body (c # s) = Some JNull)
    [\<lambda>v. json_path [''Budget''] (search_all_json pattern (Some v) timeout),
     \<lambda>v. json_path [''Initial''] (search_first_json pattern (Some v) factor retry timeout),
     \<lambda>v. json_path [''Factor''] (search_first_json pattern initial (Some v) retry timeout),
     \<lambda>v. json_path [''Retry''] (search_first_json pattern initial factor (Some v) timeout)]"
proof -
  have "c \<noteq> CHR ''0''" using assms(2) by (auto simp: is_digit_def code_def)
  then have "parseInt (c # s) = None" using assms(2) by (simp add: parseInt_def Let_def)
  then show ?thesis
    by (simp add: search_all_json_def search_first_json_def value_text_def parseInt_nat_text json_number_def prop_value_def
        split: option.splits)
qed

lemma search_numbers_are_parsed_witness:
  "json_path [''Factor''] (search_first_json None None (Some (nat_text 2)) None None) = Some (JNumber 2) \<and>
   json_path [''Factor''] (search_first_json None None (Some ''two'') None None) = Some JNull"
proof -
  have "\<not> (is_ws (CHR ''t'') \<or> is_digit (CHR ''t'') \<or> CHR ''t'' \<in> set ''+-'')" by code_simp
  from search_numbers_are_parsed [OF _ this, where n = 2 and s = "''wo''" and pattern = None and timeout = None
      and initial = None and factor = None and retry = None]
  show ?thesis by simp
qed

end
