(* ===== verification/Stimulus_Scope.thy ===== *)
theory Stimulus_Scope
  imports Stimulus_Router Js_Json
begin

text \<open>
  What a controller sees of the page, in stimulus.js: the class \<open>Scope\<close> (the elements of a
  controller, those of nested controllers with the same identifier excepted), \<open>TargetSet\<close>
  (lookup of targets, with the deprecated data-target notation), \<open>Guide\<close> (warnings given
  once), \<open>DataMap\<close> and \<open>ClassMap\<close> (data attributes). The document is a tree of elements;
  names of attributes are compared in lower case, as HTML documents do. Selectors are
  built as strings by the code and read by the browser: a selector of another form than
  the one the code builds from plain names is a syntax error.
\<close>

section \<open>Elements\<close>

datatype element = Element (el_id: nat) (el_attrs: "(jsstr \<times> jsstr) list") (el_children: "element list")

fun elements :: "element \<Rightarrow> element list" where
  "elements (Element i as cs) = Element i as cs # concat (map elements cs)"

definition descendants :: "element \<Rightarrow> element list" where
  "descendants e = concat (map elements (el_children e))"

text \<open>The element with a number and its ancestors, nearest first.\<close>

fun ancestors :: "nat \<Rightarrow> element \<Rightarrow> element list" where
  "ancestors n (Element i as cs) =
     (if n = i then [Element i as cs]
      else (case find (\<lambda>p. p \<noteq> []) (map (ancestors n) cs) of
              Some p \<Rightarrow> p @ [Element i as cs]
            | None \<Rightarrow> []))"

definition closest :: "(element \<Rightarrow> bool) \<Rightarrow> element \<Rightarrow> nat \<Rightarrow> element option" where
  "closest P doc n = find P (ancestors n doc)"

definition document_ok :: "element \<Rightarrow> bool" where
  "document_ok doc \<longleftrightarrow> distinct (map el_id (elements doc))"

definition lower :: "jsstr \<Rightarrow> jsstr" where
  "lower s = map to_lower s"

definition getAttribute :: "jsstr \<Rightarrow> element \<Rightarrow> jsstr option" where
  "getAttribute name e = map_get (el_attrs e) (lower name)"

definition setAttribute :: "jsstr \<Rightarrow> jsstr \<Rightarrow> element \<Rightarrow> element" where
  "setAttribute name value e = Element (el_id e) (map_set (lower name) value (el_attrs e)) (el_children e)"

definition removeAttribute :: "jsstr \<Rightarrow> element \<Rightarrow> element" where
  "removeAttribute name e = Element (el_id e) (map_delete (lower name) (el_attrs e)) (el_children e)"

lemma find_append:
  "find P (xs @ ys) = (case find P xs of Some x \<Rightarrow> Some x | None \<Rightarrow> find P ys)"
  by (induction xs) auto

lemma find_eq_hd_filter: "find P xs = (case filter P xs of [] \<Rightarrow> None | x # _ \<Rightarrow> Some x)"
  by (induction xs) auto

lemma find_True_filter [simp]: "find (\<lambda>_. True) (filter P xs) = find P xs"
  by (induction xs) auto

lemma elements_unfold: "elements e = e # descendants e"
  by (cases e) (simp add: descendants_def)

lemma element_in_elements [simp]: "e \<in> set (elements e)"
  by (cases e) simp

text \<open>The elements of a subtree stand together in the document.\<close>

lemma elements_split:
  "s \<in> set (elements doc) \<Longrightarrow> \<exists>xs ys. elements doc = xs @ elements s @ ys"
proof (induction doc rule: elements.induct)
  case (1 i as cs)
  show ?case
  proof (cases "s = Element i as cs")
    case True
    then show ?thesis by (intro exI [of _ "[]"]) simp
  next
    case False
    with "1.prems" obtain c where c: "c \<in> set cs" "s \<in> set (elements c)" by auto
    from "1.IH" [OF this] obtain xs ys where e: "elements c = xs @ elements s @ ys" by blast
    from c(1) obtain cs1 cs2 where "cs = cs1 @ c # cs2" by (metis split_list)
    with e show ?thesis
      by (intro exI [of _ "Element i as cs # concat (map elements cs1) @ xs"]
          exI [of _ "ys @ concat (map elements cs2)"]) simp
  qed
qed

lemma document_ok_child: "document_ok (Element i as cs) \<Longrightarrow> c \<in> set cs \<Longrightarrow> document_ok c"
  by (auto simp: document_ok_def map_concat dest!: split_list)

lemma ancestors_absent: "n \<notin> el_id ` set (elements doc) \<Longrightarrow> ancestors n doc = []"
proof (induction doc rule: elements.induct)
  case (1 i as cs)
  then have "find (\<lambda>p. p \<noteq> []) (map (ancestors n) cs) = None"
    by (auto simp: find_None_iff)
  with "1.prems" show ?case by auto
qed

text \<open>An ancestor of an element holds it in its subtree.\<close>

lemma ancestors_sound:
  assumes "document_ok doc" and "e \<in> set (elements doc)"
  shows "ancestors (el_id e) doc \<noteq> [] \<and> hd (ancestors (el_id e) doc) = e \<and>
    (\<forall>a \<in> set (ancestors (el_id e) doc). a \<in> set (elements doc) \<and> e \<in> set (elements a))"
  using assms
proof (induction doc rule: elements.induct)
  case (1 i as cs)
  let ?doc = "Element i as cs"
  have ids: "distinct (map el_id (elements ?doc))" using "1.prems"(1) by (simp add: document_ok_def)
  have unique: "a = b" if "el_id a = el_id b" "a \<in> set (elements ?doc)" "b \<in> set (elements ?doc)" for a b
    using ids that by (metis distinct_map inj_onD)
  show ?case
  proof (cases "e = ?doc")
    case False
    with "1.prems"(2) obtain c where c: "c \<in> set cs" "e \<in> set (elements c)" by auto
    have "el_id e \<noteq> i" using False unique [of e ?doc] "1.prems"(2) by auto
    note IH = "1.IH" [OF c(1) document_ok_child [OF "1.prems"(1) c(1)] c(2)]
    obtain cs1 cs2 where cs: "cs = cs1 @ c # cs2" using c(1) by (metis split_list)
    have "el_id e \<notin> el_id ` set (elements d)" if "d \<in> set cs1" for d
    proof
      assume "el_id e \<in> el_id ` set (elements d)"
      then have "el_id e \<in> set (map el_id (concat (map elements cs1)))" using that by auto
      moreover have "el_id e \<in> set (map el_id (elements c))" using c(2) by simp
      moreover have "set (map el_id (concat (map elements cs1))) \<inter> set (map el_id (elements c)) = {}"
        using ids by (simp add: cs map_concat) blast
      ultimately show False by blast
    qed
    then have "find (\<lambda>p. p \<noteq> []) (map (ancestors (el_id e)) cs1) = None"
      by (auto simp: find_None_iff ancestors_absent)
    then have "ancestors (el_id e) ?doc = ancestors (el_id e) c @ [?doc]"
      using IH \<open>el_id e \<noteq> i\<close> by (simp add: cs find_append)
    with IH c "1.prems"(2) show ?thesis by auto
  qed auto
qed

lemma closest_sound:
  assumes "document_ok doc" and "e \<in> set (elements doc)" and "closest P doc (el_id e) = Some s"
  shows "P s \<and> s \<in> set (elements doc) \<and> e \<in> set (elements s)"
  using assms ancestors_sound [OF assms(1,2)] by (auto simp: closest_def find_Some_iff)

lemma closest_self:
  assumes "document_ok doc" and "e \<in> set (elements doc)" and "P e"
  shows "closest P doc (el_id e) = Some e"
  using ancestors_sound [OF assms(1,2)] assms(3)
  by (cases "ancestors (el_id e) doc") (auto simp: closest_def)

section \<open>Selectors\<close>

definition attributeValueContainsToken :: "jsstr \<Rightarrow> jsstr \<Rightarrow> jsstr" where
  "attributeValueContainsToken attributeName token =
     ''['' @ attributeName @ ''~='' @ [chr 34] @ token @ [chr 34] @ '']''"

definition name_char :: "char \<Rightarrow> bool" where
  "name_char c \<longleftrightarrow> is_upper c \<or> is_lower c \<or> is_digit c \<or> c = CHR ''-'' \<or> c = CHR ''_''"

definition plain_char :: "char \<Rightarrow> bool" where
  "plain_char c \<longleftrightarrow> 32 \<le> code c \<and> code c \<noteq> 34 \<and> code c \<noteq> 92"

definition parse_selector :: "jsstr \<Rightarrow> (jsstr \<times> jsstr) option" where
  "parse_selector s =
     (let name = takeWhile name_char (drop 1 s);
          after = dropWhile name_char (drop 1 s);
          token = takeWhile plain_char (drop 3 after)
      in if take 1 s = ''['' \<and> name \<noteq> [] \<and> \<not> is_digit (hd name) \<and> take 3 after = ''~='' @ [chr 34] \<and>
            dropWhile plain_char (drop 3 after) = [chr 34] @ '']''
         then Some (name, token) else None)"

definition is_css_ws :: "char \<Rightarrow> bool" where
  "is_css_ws c \<longleftrightarrow> code c \<in> {9, 10, 12, 13, 32}"

fun split_when :: "(char \<Rightarrow> bool) \<Rightarrow> jsstr \<Rightarrow> jsstr list" where
  "split_when P [] = [[]]"
| "split_when P (c # cs) =
     (if P c then [] # split_when P cs
      else (case split_when P cs of w # ws \<Rightarrow> (c # w) # ws | [] \<Rightarrow> [[c]]))"

text \<open>The token stands among the words of the attribute's value.\<close>

definition has_token :: "jsstr \<Rightarrow> jsstr \<Rightarrow> element \<Rightarrow> bool" where
  "has_token name token e \<longleftrightarrow>
     token \<noteq> [] \<and> (case getAttribute name e of Some v \<Rightarrow> token \<in> set (split_when is_css_ws v) | None \<Rightarrow> False)"

definition selector_error :: "jsstr \<Rightarrow> js_error" where
  "selector_error s = ErrorObject ''SyntaxError'' (s @ '' is not a valid selector'')"

definition select :: "jsstr \<Rightarrow> ((element \<Rightarrow> bool) \<Rightarrow> js_error + 'a) \<Rightarrow> js_error + 'a" where
  "select selector f =
     (case parse_selector selector of
        Some (name, token) \<Rightarrow> f (has_token name token)
      | None \<Rightarrow> Inl (selector_error selector))"

section \<open>Scope\<close>

record schema =
  controllerAttribute :: jsstr
  actionAttribute :: jsstr
  targetAttribute :: jsstr

definition defaultSchema :: schema where
  "defaultSchema =
     \<lparr>controllerAttribute = ''data-controller'', actionAttribute = ''data-action'',
      targetAttribute = ''data-target''\<rparr>"

definition controllerSelector :: "schema \<Rightarrow> scope \<Rightarrow> jsstr" where
  "controllerSelector sch sc = attributeValueContainsToken (controllerAttribute sch) (sc_identifier sc)"

text \<open>\<open>element.closest(this.controllerSelector) === this.element\<close>\<close>

definition containsElement :: "schema \<Rightarrow> element \<Rightarrow> scope \<Rightarrow> (element \<Rightarrow> bool) \<Rightarrow> element \<Rightarrow> bool" where
  "containsElement sch doc sc controls e =
     (map_option el_id (closest controls doc (el_id e)) = Some (sc_element sc))"

text \<open>\<open>this.element\<close>, with its subtree.\<close>

definition scope_element :: "element \<Rightarrow> scope \<Rightarrow> element option" where
  "scope_element doc sc = find (\<lambda>e. el_id e = sc_element sc) (elements doc)"

definition queryElements :: "(element \<Rightarrow> bool) \<Rightarrow> element \<Rightarrow> element list" where
  "queryElements matches root = filter matches (descendants root)"

text \<open>The controller selector is only read when there is an element to test.\<close>

definition with_contained ::
  "schema \<Rightarrow> element \<Rightarrow> scope \<Rightarrow> element list \<Rightarrow> ((element \<Rightarrow> bool) \<Rightarrow> 'a) \<Rightarrow> js_error + 'a" where
  "with_contained sch doc sc es f =
     (if es = [] then Inr (f (\<lambda>_. False))
      else select (controllerSelector sch sc) (\<lambda>controls. Inr (f (containsElement sch doc sc controls))))"

definition findElement :: "schema \<Rightarrow> element \<Rightarrow> scope \<Rightarrow> jsstr \<Rightarrow> js_error + element option" where
  "findElement sch doc sc selector =
     select selector (\<lambda>matches.
       case scope_element doc sc of
         None \<Rightarrow> Inr None
       | Some root \<Rightarrow>
           if matches root then Inr (Some root)
           else with_contained sch doc sc (queryElements matches root)
                  (\<lambda>contains. find contains (queryElements matches root)))"

definition findAllElements :: "schema \<Rightarrow> element \<Rightarrow> scope \<Rightarrow> jsstr \<Rightarrow> js_error + element list" where
  "findAllElements sch doc sc selector =
     select selector (\<lambda>matches.
       case scope_element doc sc of
         None \<Rightarrow> Inr []
       | Some root \<Rightarrow>
           with_contained sch doc sc (queryElements matches root)
             (\<lambda>contains. (if matches root then [root] else []) @
                filter contains (queryElements matches root)))"

section \<open>Guide\<close>

record guide =
  warnedKeysByObject :: "(nat, jsstr jsset) jsmap"
  warnings :: "(jsstr \<times> nat) list"   \<comment> \<open>calls of \<open>logger.warn\<close>\<close>

definition new_guide :: guide where
  "new_guide = \<lparr>warnedKeysByObject = [], warnings = []\<rparr>"

definition guide_warn :: "nat \<Rightarrow> jsstr \<Rightarrow> jsstr \<Rightarrow> guide \<Rightarrow> guide" where
  "guide_warn obj key message g =
     (let g1 = (if map_has (warnedKeysByObject g) obj then g
                else g\<lparr>warnedKeysByObject := map_set obj [] (warnedKeysByObject g)\<rparr>);
          warnedKeys = (case map_get (warnedKeysByObject g1) obj of Some ks \<Rightarrow> ks | None \<Rightarrow> [])
      in if key \<in> set warnedKeys then g1
         else g1\<lparr>warnedKeysByObject := map_set obj (set_add key warnedKeys) (warnedKeysByObject g1),
                 warnings := warnings g1 @ [(message, obj)]\<rparr>)"

section \<open>TargetSet\<close>

definition target_attribute :: "scope \<Rightarrow> jsstr" where
  "target_attribute sc = ''data-'' @ sc_identifier sc @ ''-target''"

definition getSelectorForTargetName :: "scope \<Rightarrow> jsstr \<Rightarrow> jsstr" where
  "getSelectorForTargetName sc targetName = attributeValueContainsToken (target_attribute sc) targetName"

definition getLegacySelectorForTargetName :: "schema \<Rightarrow> scope \<Rightarrow> jsstr \<Rightarrow> jsstr" where
  "getLegacySelectorForTargetName sch sc targetName =
     attributeValueContainsToken (targetAttribute sch) (sc_identifier sc @ ''.'' @ targetName)"

definition deprecation :: "schema \<Rightarrow> scope \<Rightarrow> jsstr \<Rightarrow> jsstr" where
  "deprecation sch sc targetName =
     ''Please replace '' @ targetAttribute sch @ ''='' @ [chr 34] @ sc_identifier sc @ ''.'' @ targetName @
     [chr 34] @ '' with data-'' @ sc_identifier sc @ ''-target='' @ [chr 34] @ targetName @ [chr 34] @
     ''. The '' @ targetAttribute sch @
     '' attribute is deprecated and will be removed in a future version of Stimulus.''"

definition deprecate :: "schema \<Rightarrow> scope \<Rightarrow> jsstr \<Rightarrow> element \<Rightarrow> guide \<Rightarrow> guide" where
  "deprecate sch sc targetName e g =
     guide_warn (el_id e) (''target:'' @ targetName) (deprecation sch sc targetName) g"

definition findTarget :: "schema \<Rightarrow> element \<Rightarrow> scope \<Rightarrow> jsstr \<Rightarrow> js_error + element option" where
  "findTarget sch doc sc targetName = findElement sch doc sc (getSelectorForTargetName sc targetName)"

definition findAllTargets :: "schema \<Rightarrow> element \<Rightarrow> scope \<Rightarrow> jsstr \<Rightarrow> js_error + element list" where
  "findAllTargets sch doc sc targetName = findAllElements sch doc sc (getSelectorForTargetName sc targetName)"

definition findLegacyTarget ::
  "schema \<Rightarrow> element \<Rightarrow> scope \<Rightarrow> jsstr \<Rightarrow> guide \<Rightarrow> (js_error + element option) \<times> guide" where
  "findLegacyTarget sch doc sc targetName g =
     (case findElement sch doc sc (getLegacySelectorForTargetName sch sc targetName) of
        Inr (Some e) \<Rightarrow> (Inr (Some e), deprecate sch sc targetName e g)
      | res \<Rightarrow> (res, g))"

definition findAllLegacyTargets ::
  "schema \<Rightarrow> element \<Rightarrow> scope \<Rightarrow> jsstr \<Rightarrow> guide \<Rightarrow> (js_error + element list) \<times> guide" where
  "findAllLegacyTargets sch doc sc targetName g =
     (case findAllElements sch doc sc (getLegacySelectorForTargetName sch sc targetName) of
        Inr es \<Rightarrow> (Inr es, fold (deprecate sch sc targetName) es g)
      | res \<Rightarrow> (res, g))"

text \<open>\<open>find\<close>: the reduction over the names, with \<open>target\<close> found so far.\<close>

fun find_reduce ::
  "schema \<Rightarrow> element \<Rightarrow> scope \<Rightarrow> element option \<Rightarrow> jsstr list \<Rightarrow> guide \<Rightarrow>
     (js_error + element option) \<times> guide" where
  "find_reduce sch doc sc target [] g = (Inr target, g)"
| "find_reduce sch doc sc (Some e) (n # ns) g = find_reduce sch doc sc (Some e) ns g"
| "find_reduce sch doc sc None (n # ns) g =
     (case findTarget sch doc sc n of
        Inl error \<Rightarrow> (Inl error, g)
      | Inr (Some e) \<Rightarrow> find_reduce sch doc sc (Some e) ns g
      | Inr None \<Rightarrow>
          (case findLegacyTarget sch doc sc n g of
             (Inl error, g') \<Rightarrow> (Inl error, g')
           | (Inr target, g') \<Rightarrow> find_reduce sch doc sc target ns g'))"

definition ts_find :: "schema \<Rightarrow> element \<Rightarrow> scope \<Rightarrow> jsstr list \<Rightarrow> guide \<Rightarrow>
    (js_error + element option) \<times> guide" where
  "ts_find sch doc sc targetNames g = find_reduce sch doc sc None targetNames g"

definition ts_has :: "schema \<Rightarrow> element \<Rightarrow> scope \<Rightarrow> jsstr \<Rightarrow> guide \<Rightarrow> (js_error + bool) \<times> guide" where
  "ts_has sch doc sc targetName g =
     (case ts_find sch doc sc [targetName] g of
        (Inl error, g') \<Rightarrow> (Inl error, g')
      | (Inr target, g') \<Rightarrow> (Inr (target \<noteq> None), g'))"

fun findAll_reduce ::
  "schema \<Rightarrow> element \<Rightarrow> scope \<Rightarrow> element list \<Rightarrow> jsstr list \<Rightarrow> guide \<Rightarrow>
     (js_error + element list) \<times> guide" where
  "findAll_reduce sch doc sc targets [] g = (Inr targets, g)"
| "findAll_reduce sch doc sc targets (n # ns) g =
     (case findAllTargets sch doc sc n of
        Inl error \<Rightarrow> (Inl error, g)
      | Inr found \<Rightarrow>
          (case findAllLegacyTargets sch doc sc n g of
             (Inl error, g') \<Rightarrow> (Inl error, g')
           | (Inr legacy, g') \<Rightarrow> findAll_reduce sch doc sc (targets @ found @ legacy) ns g'))"

definition ts_findAll :: "schema \<Rightarrow> element \<Rightarrow> scope \<Rightarrow> jsstr list \<Rightarrow> guide \<Rightarrow>
    (js_error + element list) \<times> guide" where
  "ts_findAll sch doc sc targetNames g = findAll_reduce sch doc sc [] targetNames g"

section \<open>DataMap and ClassMap\<close>

text \<open>Both work on the element of the scope.\<close>

definition getAttributeNameForKey :: "scope \<Rightarrow> jsstr \<Rightarrow> jsstr" where
  "getAttributeNameForKey sc key = ''data-'' @ sc_identifier sc @ ''-'' @ dasherize key"

definition dm_get :: "scope \<Rightarrow> jsstr \<Rightarrow> element \<Rightarrow> jsstr option" where
  "dm_get sc key e = getAttribute (getAttributeNameForKey sc key) e"

definition dm_set :: "scope \<Rightarrow> jsstr \<Rightarrow> jsstr \<Rightarrow> element \<Rightarrow> jsstr option \<times> element" where
  "dm_set sc key value e =
     (let e' = setAttribute (getAttributeNameForKey sc key) value e in (dm_get sc key e', e'))"

definition dm_has :: "scope \<Rightarrow> jsstr \<Rightarrow> element \<Rightarrow> bool" where
  "dm_has sc key e \<longleftrightarrow> getAttribute (getAttributeNameForKey sc key) e \<noteq> None"

definition dm_delete :: "scope \<Rightarrow> jsstr \<Rightarrow> element \<Rightarrow> bool \<times> element" where
  "dm_delete sc key e =
     (if dm_has sc key e then (True, removeAttribute (getAttributeNameForKey sc key) e) else (False, e))"

definition class_key :: "jsstr \<Rightarrow> jsstr" where
  "class_key name = name @ ''-class''"

definition cm_has :: "scope \<Rightarrow> jsstr \<Rightarrow> element \<Rightarrow> bool" where
  "cm_has sc name e = dm_has sc (class_key name) e"

definition cm_get :: "scope \<Rightarrow> jsstr \<Rightarrow> element \<Rightarrow> jsstr option" where
  "cm_get sc name e = dm_get sc (class_key name) e"

definition cm_getAttributeName :: "scope \<Rightarrow> jsstr \<Rightarrow> jsstr" where
  "cm_getAttributeName sc name = getAttributeNameForKey sc (class_key name)"

section \<open>The selectors of the code\<close>

lemma takeWhile_dropWhile_stop:
  "list_all P xs \<Longrightarrow> \<not> P y \<Longrightarrow> takeWhile P (xs @ y # ys) = xs \<and> dropWhile P (xs @ y # ys) = y # ys"
  by (induction xs) auto

lemma parse_attributeValueContainsToken:
  assumes "list_all name_char name" and "name \<noteq> []" and "\<not> is_digit (hd name)"
    and "list_all plain_char token"
  shows "parse_selector (attributeValueContainsToken name token) = Some (name, token)"
proof -
  have c: "\<not> name_char (CHR ''~'')" "\<not> plain_char (chr 34)"
    by (simp_all add: name_char_def is_upper_def is_lower_def is_digit_def plain_char_def code_def)
  note n = takeWhile_dropWhile_stop [OF assms(1) c(1), of "''='' @ [chr 34] @ token @ [chr 34] @ '']''"]
  note t = takeWhile_dropWhile_stop [OF assms(4) c(2), of "'']''"]
  from n t assms(2,3) show ?thesis
    by (simp add: parse_selector_def attributeValueContainsToken_def Let_def)
qed

text \<open>Names as the pages use them: no characters that a selector would have to quote.\<close>

definition attribute_name_ok :: "jsstr \<Rightarrow> bool" where
  "attribute_name_ok a \<longleftrightarrow> list_all name_char a \<and> a \<noteq> [] \<and> \<not> is_digit (hd a)"

definition names_ok :: "schema \<Rightarrow> scope \<Rightarrow> jsstr list \<Rightarrow> bool" where
  "names_ok sch sc names \<longleftrightarrow>
     attribute_name_ok (controllerAttribute sch) \<and> attribute_name_ok (targetAttribute sch) \<and>
     list_all name_char (sc_identifier sc) \<and> list_all (list_all plain_char) names"

lemma name_char_plain: "name_char c \<Longrightarrow> plain_char c"
  by (auto simp: name_char_def plain_char_def is_upper_def is_lower_def is_digit_def code_def)

lemma list_all_name_char_plain: "list_all name_char s \<Longrightarrow> list_all plain_char s"
  by (simp add: list_all_iff name_char_plain)

lemma select_attribute:
  "attribute_name_ok name \<Longrightarrow> list_all plain_char token \<Longrightarrow>
   select (attributeValueContainsToken name token) f = f (has_token name token)"
  by (simp add: select_def attribute_name_ok_def parse_attributeValueContainsToken)

lemma name_char_chars [simp]:
  "name_char (CHR ''d'')" "name_char (CHR ''a'')" "name_char (CHR ''t'')" "name_char (CHR ''-'')"
  "name_char (CHR ''r'')" "name_char (CHR ''g'')" "name_char (CHR ''e'')" "\<not> is_digit (CHR ''d'')"
  "plain_char (CHR ''.'')"
  by (simp_all add: name_char_def is_lower_def is_digit_def plain_char_def code_def)

lemma target_attribute_ok: "list_all name_char (sc_identifier sc) \<Longrightarrow> attribute_name_ok (target_attribute sc)"
  by (simp add: attribute_name_ok_def target_attribute_def)

definition controls :: "schema \<Rightarrow> scope \<Rightarrow> element \<Rightarrow> bool" where
  "controls sch sc e = has_token (controllerAttribute sch) (sc_identifier sc) e"

text \<open>The nearest enclosing controller element with the identifier is the scope's element.\<close>

abbreviation owned :: "schema \<Rightarrow> element \<Rightarrow> scope \<Rightarrow> element \<Rightarrow> bool" where
  "owned sch doc sc e \<equiv> containsElement sch doc sc (controls sch sc) e"

definition scope_ok :: "schema \<Rightarrow> element \<Rightarrow> scope \<Rightarrow> bool" where
  "scope_ok sch doc sc \<longleftrightarrow> document_ok doc \<and>
     (\<exists>s \<in> set (elements doc). el_id s = sc_element sc \<and> controls sch sc s)"

lemma element_unique:
  "document_ok doc \<Longrightarrow> a \<in> set (elements doc) \<Longrightarrow> b \<in> set (elements doc) \<Longrightarrow> el_id a = el_id b \<Longrightarrow> a = b"
  unfolding document_ok_def by (metis distinct_map inj_onD)

lemma scope_ok_element:
  assumes "scope_ok sch doc sc"
  obtains s where "scope_element doc sc = Some s" "s \<in> set (elements doc)" "el_id s = sc_element sc"
    "controls sch sc s" "owned sch doc sc s"
proof -
  obtain s where doc: "document_ok doc" and s: "s \<in> set (elements doc)" "el_id s = sc_element sc" "controls sch sc s"
    using assms by (auto simp: scope_ok_def)
  obtain r where r: "scope_element doc sc = Some r"
    using s(1,2) by (cases "scope_element doc sc") (auto simp: scope_element_def find_None_iff)
  then have "r \<in> set (elements doc)" "el_id r = sc_element sc"
    by (auto simp: scope_element_def find_Some_iff)
  with s doc have "r = s" by (auto intro: element_unique)
  moreover have "owned sch doc sc s"
    using closest_self [OF doc s(1), of "controls sch sc", OF s(3)] s(2) by (simp add: containsElement_def)
  ultimately show ?thesis using that s r by blast
qed

text \<open>What a scope owns lies in the subtree of its element.\<close>

lemma filter_owned:
  assumes "document_ok doc" and "s \<in> set (elements doc)" and "el_id s = sc_element sc"
  shows "filter (\<lambda>e. m e \<and> owned sch doc sc e) (elements doc) =
    filter (\<lambda>e. m e \<and> owned sch doc sc e) (elements s)"
proof -
  obtain xs ys where d: "elements doc = xs @ elements s @ ys" using elements_split [OF assms(2)] by blast
  have in_s: "e \<in> set (elements s)" if own: "owned sch doc sc e" "e \<in> set (elements doc)" for e
  proof -
    obtain r where r: "closest (controls sch sc) doc (el_id e) = Some r" "el_id r = sc_element sc"
      using own(1) by (auto simp: containsElement_def)
    from closest_sound [OF assms(1) own(2) r(1)] have "r \<in> set (elements doc)" "e \<in> set (elements r)" by auto
    with assms r(2) element_unique show ?thesis by metis
  qed
  have "distinct (elements doc)" using assms(1) by (simp add: document_ok_def distinct_map)
  then have "e \<notin> set (elements s)" if "e \<in> set xs \<or> e \<in> set ys" for e
    using that by (auto simp: d)
  with in_s d have "filter (\<lambda>e. m e \<and> owned sch doc sc e) xs = []" "filter (\<lambda>e. m e \<and> owned sch doc sc e) ys = []"
    by (auto simp: filter_empty_conv)
  then show ?thesis by (simp add: d)
qed

lemma findAllElements_spec:
  assumes "scope_ok sch doc sc" and "names_ok sch sc []"
    and "attribute_name_ok a" and "list_all plain_char t"
  shows "findAllElements sch doc sc (attributeValueContainsToken a t) =
    Inr (filter (\<lambda>e. has_token a t e \<and> owned sch doc sc e) (elements doc))"
proof -
  obtain s where s: "scope_element doc sc = Some s" "s \<in> set (elements doc)" "el_id s = sc_element sc"
    "controls sch sc s" "owned sch doc sc s" using scope_ok_element [OF assms(1)] by blast
  have doc: "document_ok doc" using assms(1) by (simp add: scope_ok_def)
  have sel: "select (controllerSelector sch sc) f = f (controls sch sc)"
    for f :: "(element \<Rightarrow> bool) \<Rightarrow> js_error + element list"
    using assms(2) by (simp add: controllerSelector_def names_ok_def controls_def [abs_def] select_attribute
        list_all_name_char_plain)
  have "filter (\<lambda>e. has_token a t e \<and> owned sch doc sc e) (elements s) =
      (if has_token a t s then [s] else []) @ filter (owned sch doc sc) (queryElements (has_token a t) s)"
    by (simp add: elements_unfold [of s] s(5) queryElements_def filter_filter conj_commute)
  then show ?thesis
    using filter_owned [OF doc s(2,3)] assms(3,4)
    by (simp add: findAllElements_def select_attribute s(1) with_contained_def sel)
qed

lemma findElement_spec:
  assumes "scope_ok sch doc sc" and "names_ok sch sc []"
    and "attribute_name_ok a" and "list_all plain_char t"
  shows "findElement sch doc sc (attributeValueContainsToken a t) =
    Inr (find (\<lambda>e. has_token a t e \<and> owned sch doc sc e) (elements doc))"
proof -
  obtain s where s: "scope_element doc sc = Some s" "s \<in> set (elements doc)" "el_id s = sc_element sc"
    "controls sch sc s" "owned sch doc sc s" using scope_ok_element [OF assms(1)] by blast
  have doc: "document_ok doc" using assms(1) by (simp add: scope_ok_def)
  have sel: "select (controllerSelector sch sc) f = f (controls sch sc)"
    for f :: "(element \<Rightarrow> bool) \<Rightarrow> js_error + element option"
    using assms(2) by (simp add: controllerSelector_def names_ok_def controls_def [abs_def] select_attribute
        list_all_name_char_plain)
  have "filter (\<lambda>e. has_token a t e \<and> owned sch doc sc e) (elements s) =
      (if has_token a t s then [s] else []) @ filter (owned sch doc sc) (queryElements (has_token a t) s)"
    by (simp add: elements_unfold [of s] s(5) queryElements_def filter_filter conj_commute)
  then have "find (\<lambda>e. has_token a t e \<and> owned sch doc sc e) (elements doc) =
      (if has_token a t s then Some s else find (owned sch doc sc) (queryElements (has_token a t) s))"
    using filter_owned [OF doc s(2,3), of "has_token a t" sch]
    by (simp add: find_eq_hd_filter)
  then show ?thesis
    using assms(3,4) by (simp add: findElement_def select_attribute s(1) with_contained_def sel)
qed

section \<open>Lookup of targets\<close>

text \<open>The elements that carry a target name, in the new and in the deprecated notation.\<close>

definition owned_targets :: "schema \<Rightarrow> element \<Rightarrow> scope \<Rightarrow> jsstr \<Rightarrow> element list" where
  "owned_targets sch doc sc n =
     filter (\<lambda>e. has_token (target_attribute sc) n e \<and> owned sch doc sc e) (elements doc) @
     filter (\<lambda>e. has_token (targetAttribute sch) (sc_identifier sc @ ''.'' @ n) e \<and> owned sch doc sc e)
       (elements doc)"

lemma lookup_specs:
  assumes "scope_ok sch doc sc" and "names_ok sch sc (n # ns)"
  shows "findTarget sch doc sc n =
      Inr (find (\<lambda>e. has_token (target_attribute sc) n e \<and> owned sch doc sc e) (elements doc))"
    and "findAllTargets sch doc sc n =
      Inr (filter (\<lambda>e. has_token (target_attribute sc) n e \<and> owned sch doc sc e) (elements doc))"
    and "fst (findLegacyTarget sch doc sc n g) =
      Inr (find (\<lambda>e. has_token (targetAttribute sch) (sc_identifier sc @ ''.'' @ n) e \<and> owned sch doc sc e)
        (elements doc))"
    and "fst (findAllLegacyTargets sch doc sc n g) =
      Inr (filter (\<lambda>e. has_token (targetAttribute sch) (sc_identifier sc @ ''.'' @ n) e \<and> owned sch doc sc e)
        (elements doc))"
proof -
  have n: "names_ok sch sc []" "list_all plain_char n" "attribute_name_ok (target_attribute sc)"
      "attribute_name_ok (targetAttribute sch)" "list_all plain_char (sc_identifier sc @ ''.'' @ n)"
    using assms(2) by (simp_all add: names_ok_def target_attribute_ok list_all_name_char_plain)
  note new = findElement_spec [OF assms(1) n(1,3,2)] findAllElements_spec [OF assms(1) n(1,3,2)]
  note old = findElement_spec [OF assms(1) n(1,4,5)] findAllElements_spec [OF assms(1) n(1,4,5)]
  show "findTarget sch doc sc n =
      Inr (find (\<lambda>e. has_token (target_attribute sc) n e \<and> owned sch doc sc e) (elements doc))"
    "findAllTargets sch doc sc n =
      Inr (filter (\<lambda>e. has_token (target_attribute sc) n e \<and> owned sch doc sc e) (elements doc))"
    by (simp_all add: findTarget_def findAllTargets_def getSelectorForTargetName_def new)
  show "fst (findLegacyTarget sch doc sc n g) =
      Inr (find (\<lambda>e. has_token (targetAttribute sch) (sc_identifier sc @ ''.'' @ n) e \<and> owned sch doc sc e)
        (elements doc))"
    "fst (findAllLegacyTargets sch doc sc n g) =
      Inr (filter (\<lambda>e. has_token (targetAttribute sch) (sc_identifier sc @ ''.'' @ n) e \<and> owned sch doc sc e)
        (elements doc))"
    using old by (simp_all add: findLegacyTarget_def findAllLegacyTargets_def getLegacySelectorForTargetName_def
        split: option.splits)
qed

lemma findAll_reduce_spec:
  "scope_ok sch doc sc \<Longrightarrow> names_ok sch sc ns \<Longrightarrow>
   fst (findAll_reduce sch doc sc ts ns g) = Inr (ts @ concat (map (owned_targets sch doc sc) ns))"
proof (induction ns arbitrary: ts g)
  case (Cons n ns)
  have "names_ok sch sc ns" using Cons.prems(2) by (simp add: names_ok_def)
  note IH = Cons.IH [OF Cons.prems(1) this]
  obtain g' where "findAllLegacyTargets sch doc sc n g = (Inr (filter (\<lambda>e.
      has_token (targetAttribute sch) (sc_identifier sc @ ''.'' @ n) e \<and> owned sch doc sc e) (elements doc)), g')"
    using lookup_specs(4) [OF Cons.prems, of g] by (metis prod.collapse)
  with lookup_specs(2) [OF Cons.prems] IH show ?case
    by (simp add: owned_targets_def)
qed simp

lemma find_reduce_spec:
  "scope_ok sch doc sc \<Longrightarrow> names_ok sch sc ns \<Longrightarrow>
   fst (find_reduce sch doc sc t ns g) =
     Inr (case t of Some e \<Rightarrow> Some e
          | None \<Rightarrow> find (\<lambda>_. True) (concat (map (owned_targets sch doc sc) ns)))"
proof (induction ns arbitrary: t g)
  case (Cons n ns)
  have ns: "names_ok sch sc ns" using Cons.prems(2) by (simp add: names_ok_def)
  note IH = Cons.IH [OF Cons.prems(1) ns]
  show ?case
  proof (cases t)
    case None
    let ?new = "\<lambda>e. has_token (target_attribute sc) n e \<and> owned sch doc sc e"
    let ?old = "\<lambda>e. has_token (targetAttribute sch) (sc_identifier sc @ ''.'' @ n) e \<and> owned sch doc sc e"
    obtain g' where l: "findLegacyTarget sch doc sc n g = (Inr (find ?old (elements doc)), g')"
      using lookup_specs(3) [OF Cons.prems, of g] by (metis prod.collapse)
    have o: "owned_targets sch doc sc n = filter ?new (elements doc) @ filter ?old (elements doc)"
      by (simp add: owned_targets_def)
    show ?thesis
      using lookup_specs(1) [OF Cons.prems] IH l None
      by (cases "find ?new (elements doc)") (simp_all add: o find_append)
  qed (simp add: IH)
qed (simp split: option.splits)

section \<open>Warnings\<close>

lemma append_twice_inject: "a @ n @ b @ n @ c = a @ m @ b @ m @ c \<Longrightarrow> n = m"
proof -
  assume eq: "a @ n @ b @ n @ c = a @ m @ b @ m @ c"
  from arg_cong [OF eq, of length] have "length n = length m" by simp
  with eq show "n = m" by simp
qed

lemma deprecation_inject: "deprecation sch sc n = deprecation sch sc m \<Longrightarrow> n = m"
  unfolding deprecation_def by (rule append_twice_inject [where
      a = "''Please replace '' @ targetAttribute sch @ ''='' @ [chr 34] @ sc_identifier sc @ ''.''" and
      b = "[chr 34] @ '' with data-'' @ sc_identifier sc @ ''-target='' @ [chr 34]" and
      c = "[chr 34] @ ''. The '' @ targetAttribute sch @
        '' attribute is deprecated and will be removed in a future version of Stimulus.''"]) simp

definition warned_keys :: "guide \<Rightarrow> nat \<Rightarrow> jsstr list" where
  "warned_keys g obj = (case map_get (warnedKeysByObject g) obj of Some ks \<Rightarrow> ks | None \<Rightarrow> [])"

definition guide_ok :: "schema \<Rightarrow> scope \<Rightarrow> guide \<Rightarrow> bool" where
  "guide_ok sch sc g \<longleftrightarrow> distinct (warnings g) \<and>
     (\<forall>(message, obj) \<in> set (warnings g).
        \<exists>n. message = deprecation sch sc n \<and> ''target:'' @ n \<in> set (warned_keys g obj))"

lemma guide_ok_new: "guide_ok sch sc new_guide"
  by (simp add: guide_ok_def new_guide_def)

lemma guide_ok_deprecate:
  assumes "guide_ok sch sc g"
  shows "guide_ok sch sc (deprecate sch sc n e g)"
proof (cases "''target:'' @ n \<in> set (warned_keys g (el_id e))")
  case True
  then have "deprecate sch sc n e g = g"
    by (auto simp: deprecate_def guide_warn_def warned_keys_def Let_def split: option.splits)
  with assms show ?thesis by simp
next
  case False
  let ?key = "''target:'' @ n" and ?msg = "deprecation sch sc n"
  have w: "warnings (deprecate sch sc n e g) = warnings g @ [(?msg, el_id e)]"
    and k: "warned_keys (deprecate sch sc n e g) obj =
      (if obj = el_id e then set_add ?key (warned_keys g obj) else warned_keys g obj)" for obj
    using False by (auto simp: deprecate_def guide_warn_def warned_keys_def Let_def split: option.splits)
  have "(?msg, el_id e) \<notin> set (warnings g)"
    using assms False deprecation_inject [of sch sc n] by (fastforce simp: guide_ok_def)
  with assms show ?thesis
    unfolding guide_ok_def w by (auto simp: k)
qed

lemma guide_ok_fold: "guide_ok sch sc g \<Longrightarrow> guide_ok sch sc (fold (deprecate sch sc n) es g)"
  by (induction es arbitrary: g) (simp_all add: guide_ok_deprecate)

lemma guide_ok_legacy:
  "guide_ok sch sc g \<Longrightarrow> guide_ok sch sc (snd (findLegacyTarget sch doc sc n g))"
  "guide_ok sch sc g \<Longrightarrow> guide_ok sch sc (snd (findAllLegacyTargets sch doc sc n g))"
  by (auto simp: findLegacyTarget_def findAllLegacyTargets_def guide_ok_deprecate guide_ok_fold
      split: sum.splits option.splits)

lemma guide_ok_find: "guide_ok sch sc g \<Longrightarrow> guide_ok sch sc (snd (find_reduce sch doc sc t ns g))"
proof (induction sch doc sc t ns g rule: find_reduce.induct)
  case (3 sch doc sc n ns g)
  then show ?case
    using guide_ok_legacy(1) [OF "3.prems", of doc n]
    by (cases "findLegacyTarget sch doc sc n g") (auto split: sum.splits option.splits)
qed simp_all

lemma guide_ok_findAll: "guide_ok sch sc g \<Longrightarrow> guide_ok sch sc (snd (findAll_reduce sch doc sc ts ns g))"
proof (induction sch doc sc ts ns g rule: findAll_reduce.induct)
  case (2 sch doc sc ts n ns g)
  then show ?case
    using guide_ok_legacy(2) [OF "2.prems", of doc n]
    by (cases "findAllLegacyTargets sch doc sc n g") (auto split: sum.splits)
qed simp

text \<open>The lookups of a controller, each on the document at that moment.\<close>

datatype lookup = FindTargets element "jsstr list" | FindAllTargets element "jsstr list" | HasTarget element jsstr

fun lookup_guide :: "schema \<Rightarrow> scope \<Rightarrow> lookup \<Rightarrow> guide \<Rightarrow> guide" where
  "lookup_guide sch sc (FindTargets doc names) g = snd (ts_find sch doc sc names g)"
| "lookup_guide sch sc (FindAllTargets doc names) g = snd (ts_findAll sch doc sc names g)"
| "lookup_guide sch sc (HasTarget doc name) g = snd (ts_has sch doc sc name g)"

lemma guide_ok_lookup: "guide_ok sch sc g \<Longrightarrow> guide_ok sch sc (lookup_guide sch sc l g)"
proof (cases l)
  case (HasTarget doc name)
  have "snd (ts_has sch doc sc name g) = snd (ts_find sch doc sc [name] g)"
    by (cases "ts_find sch doc sc [name] g") (simp add: ts_has_def split: sum.splits)
  then show "guide_ok sch sc g \<Longrightarrow> ?thesis"
    using guide_ok_find by (simp add: HasTarget ts_find_def del: find_reduce.simps)
qed (simp_all add: ts_find_def ts_findAll_def guide_ok_findAll guide_ok_find
       del: find_reduce.simps findAll_reduce.simps)

lemma guide_ok_lookups: "guide_ok sch sc g \<Longrightarrow> guide_ok sch sc (fold (lookup_guide sch sc) ls g)"
  by (induction ls arbitrary: g) (simp_all add: guide_ok_lookup)

section \<open>Data attributes\<close>

lemma lower_dasherize: "lower (dasherize s) = dasherize s"
proof -
  have "list_all (\<lambda>c. \<not> is_upper c) s \<Longrightarrow> map to_lower s = s" for s
    by (induction s) (auto simp: to_lower_def)
  then show ?thesis by (simp add: lower_def dasherize_lower)
qed

lemma dasherize_inject:
  assumes "{CHR ''-'', CHR ''_''} \<inter> (set k \<union> set k') = {}" and "dasherize k = dasherize k'"
  shows "k = k'"
proof -
  have "CHR ''-'' \<notin> set k" "CHR ''_'' \<notin> set k" "CHR ''-'' \<notin> set k'" "CHR ''_'' \<notin> set k'"
    using assms(1) by blast+
  then have "camelize (dasherize k) = k" "camelize (dasherize k') = k'"
    using camelize_dasherize_append [of k "[]"] camelize_dasherize_append [of k' "[]"]
    by simp_all
  with assms(2) show ?thesis by metis
qed

lemma attribute_of_key:
  "lower (getAttributeNameForKey sc k) = lower (getAttributeNameForKey sc k') \<longleftrightarrow> dasherize k = dasherize k'"
  using lower_dasherize [of k] lower_dasherize [of k'] by (simp add: getAttributeNameForKey_def lower_def)

text \<open>
  What the users of a keyed store of strings rely on; \<open>same\<close> relates the keys that share an
  entry.
\<close>

locale keyed_store =
  fixes get :: "'k \<Rightarrow> 's \<Rightarrow> 'v option"
    and put :: "'k \<Rightarrow> 'v \<Rightarrow> 's \<Rightarrow> 's"
    and del :: "'k \<Rightarrow> 's \<Rightarrow> 's"
    and same :: "'k \<Rightarrow> 'k \<Rightarrow> bool"
  assumes get_put: "get k' (put k v s) = (if same k k' then Some v else get k' s)"
    and get_del: "get k' (del k s) = (if same k k' then None else get k' s)"
    and same_refl: "same k k"
begin

text \<open>Reading after a list of writes, \<open>None\<close> for deletions: the last one counts.\<close>

fun apply_write :: "'k \<times> 'v option \<Rightarrow> 's \<Rightarrow> 's" where
  "apply_write (k, Some v) s = put k v s"
| "apply_write (k, None) s = del k s"

lemma get_write: "get k' (apply_write w s) = (if same (fst w) k' then snd w else get k' s)"
  by (cases w; cases "snd w") (auto simp: get_put get_del)

lemma get_writes:
  "get k (fold apply_write ws s) =
     (case find (\<lambda>w. same (fst w) k) (rev ws) of Some w \<Rightarrow> snd w | None \<Rightarrow> get k s)"
  by (induction ws rule: rev_induct) (simp_all add: get_write)

end

interpretation dm: keyed_store "dm_get sc" "\<lambda>k v e. snd (dm_set sc k v e)" "\<lambda>k e. snd (dm_delete sc k e)"
  "\<lambda>k k'. dasherize k = dasherize k'" for sc
proof
  fix k k' :: jsstr and v e
  note a = attribute_of_key [of sc k' k]
  show "dm_get sc k' (snd (dm_set sc k v e)) = (if dasherize k = dasherize k' then Some v else dm_get sc k' e)"
    using a by (auto simp: dm_get_def dm_set_def Let_def getAttribute_def setAttribute_def)
  show "dm_get sc k' (snd (dm_delete sc k e)) = (if dasherize k = dasherize k' then None else dm_get sc k' e)"
    using a by (auto simp: dm_get_def dm_delete_def dm_has_def getAttribute_def removeAttribute_def)
qed simp

section \<open>Properties\<close>

text \<open>
  C14. Looking up targets. For a scope whose element carries its controller token, \<open>findAll\<close>
  returns for each name, in document order, the elements with the target token in their
  target attribute and then those with the deprecated notation, of exactly the elements
  whose nearest enclosing controller element is the scope's, wherever they stand in the
  document; \<open>find\<close> returns the first of these, and undefined when there is none.
\<close>

theorem targets_of_scope:
  assumes "scope_ok sch doc sc" and "names_ok sch sc names"
  shows "fst (ts_findAll sch doc sc names g) = Inr (concat (map (owned_targets sch doc sc) names)) \<and>
    fst (ts_find sch doc sc names g) =
      Inr (case concat (map (owned_targets sch doc sc) names) of [] \<Rightarrow> None | e # _ \<Rightarrow> Some e)"
  using findAll_reduce_spec [OF assms, of "[]" g] find_reduce_spec [OF assms, of None g]
    find_eq_hd_filter [of "\<lambda>_. True" "concat (map (owned_targets sch doc sc) names)"]
  by (simp add: ts_findAll_def ts_find_def)

definition sample_document :: element where
  "sample_document =
     Element 0 []
       [Element 1 [(''data-controller'', ''flash'')]
          [Element 2 [(''data-flash-target'', ''wrapper'')] [],
           Element 3 [(''data-controller'', ''flash naming'')]
             [Element 4 [(''data-target'', ''flash.wrapper'')] []]]]"

definition sample_scope :: "nat \<Rightarrow> scope" where
  "sample_scope n = \<lparr>sc_element = n, sc_identifier = ''flash''\<rparr>"

lemma sample_scope_ok: "scope_ok defaultSchema sample_document (sample_scope 1)"
  "names_ok defaultSchema (sample_scope 1) [''wrapper'']"
  by code_simp+

lemma targets_of_scope_witness:
  "fst (ts_find defaultSchema sample_document (sample_scope 1) [''wrapper''] new_guide) =
     Inr (Some (Element 2 [(''data-flash-target'', ''wrapper'')] []))"
proof -
  have "(case concat (map (owned_targets defaultSchema sample_document (sample_scope 1)) [''wrapper'']) of
      [] \<Rightarrow> None | e # _ \<Rightarrow> Some e) = Some (Element 2 [(''data-flash-target'', ''wrapper'')] [])"
    by code_simp
  with targets_of_scope [OF sample_scope_ok, of new_guide] show ?thesis by simp
qed

text \<open>
  Nested controllers with the same identifier share no targets: an element with a
  target token that stands in some controller element of the identifier is found by the
  scope of exactly one of them.
\<close>

theorem target_has_one_scope:
  assumes "document_ok doc" and "names_ok sch \<lparr>sc_element = 0, sc_identifier = ident\<rparr> [n]"
    and "e \<in> set (elements doc)" and "has_token (''data-'' @ ident @ ''-target'') n e"
    and "a \<in> set (ancestors (el_id e) doc)" and "has_token (controllerAttribute sch) ident a"
  shows "\<exists>!s. s \<in> set (elements doc) \<and> has_token (controllerAttribute sch) ident s \<and>
    (\<exists>es. fst (ts_findAll sch doc \<lparr>sc_element = el_id s, sc_identifier = ident\<rparr> [n] g) = Inr es \<and> e \<in> set es)"
proof -
  let ?sc = "\<lambda>s. \<lparr>sc_element = el_id s, sc_identifier = ident\<rparr> :: scope"
  have ctl: "controls sch (?sc s) = has_token (controllerAttribute sch) ident" for s
    by (simp add: controls_def [abs_def])
  have found: "(\<exists>es. fst (ts_findAll sch doc (?sc s) [n] g) = Inr es \<and> e \<in> set es) \<longleftrightarrow> owned sch doc (?sc s) e"
    if "s \<in> set (elements doc)" "has_token (controllerAttribute sch) ident s" for s
  proof -
    have "scope_ok sch doc (?sc s)" using assms(1) that by (auto simp: scope_ok_def ctl)
    moreover have "names_ok sch (?sc s) [n]" using assms(2) by (simp add: names_ok_def)
    ultimately have "fst (ts_findAll sch doc (?sc s) [n] g) = Inr (owned_targets sch doc (?sc s) n)"
      using findAll_reduce_spec [of sch doc "?sc s" "[n]" "[]" g] by (simp add: ts_findAll_def)
    with assms(3,4) show ?thesis by (auto simp: owned_targets_def target_attribute_def)
  qed
  obtain s where s: "closest (has_token (controllerAttribute sch) ident) doc (el_id e) = Some s"
    using assms(5,6) by (cases "closest (has_token (controllerAttribute sch) ident) doc (el_id e)")
      (auto simp: closest_def find_None_iff)
  note sound = closest_sound [OF assms(1,3) s]
  have own: "owned sch doc (?sc r) e \<longleftrightarrow> el_id s = el_id r" for r
    by (simp add: containsElement_def ctl s)
  show ?thesis
  proof (rule ex1I [of _ s])
    show "s \<in> set (elements doc) \<and> has_token (controllerAttribute sch) ident s \<and>
        (\<exists>es. fst (ts_findAll sch doc (?sc s) [n] g) = Inr es \<and> e \<in> set es)"
      using sound found [of s] own [of s] by blast
  next
    fix r
    assume r: "r \<in> set (elements doc) \<and> has_token (controllerAttribute sch) ident r \<and>
        (\<exists>es. fst (ts_findAll sch doc (?sc r) [n] g) = Inr es \<and> e \<in> set es)"
    then have "el_id s = el_id r" using found own by blast
    with sound r show "r = s" using element_unique [OF assms(1)] by metis
  qed
qed

lemma target_has_one_scope_witness:
  "\<exists>!s. s \<in> set (elements sample_document) \<and> has_token ''data-controller'' ''flash'' s \<and>
    (\<exists>es. fst (ts_findAll defaultSchema sample_document \<lparr>sc_element = el_id s, sc_identifier = ''flash''\<rparr>
       [''wrapper''] new_guide) = Inr es \<and> Element 2 [(''data-flash-target'', ''wrapper'')] [] \<in> set es)"
proof -
  have "document_ok sample_document" by code_simp
  moreover have "names_ok defaultSchema \<lparr>sc_element = 0, sc_identifier = ''flash''\<rparr> [''wrapper'']" by code_simp
  moreover have "Element 2 [(''data-flash-target'', ''wrapper'')] [] \<in> set (elements sample_document)"
    by (simp add: sample_document_def)
  moreover have "has_token (''data-'' @ ''flash'' @ ''-target'') ''wrapper''
      (Element 2 [(''data-flash-target'', ''wrapper'')] [])" by code_simp
  moreover have "sample_document \<in>
      set (ancestors (el_id (Element 2 [(''data-flash-target'', ''wrapper'')] [])) sample_document)"
    "el_children sample_document ! 0 \<in>
      set (ancestors (el_id (Element 2 [(''data-flash-target'', ''wrapper'')] [])) sample_document)"
    by (simp_all add: sample_document_def)
  moreover have "has_token (controllerAttribute defaultSchema) ''flash'' (el_children sample_document ! 0)"
    by code_simp
  ultimately show ?thesis
    using target_has_one_scope [of sample_document defaultSchema "''flash''" "''wrapper''"
        "Element 2 [(''data-flash-target'', ''wrapper'')] []" "el_children sample_document ! 0" new_guide]
    by (simp add: defaultSchema_def)
qed

text \<open>
  The guide nags once: whatever targets a controller looks up, in whatever documents
  and however often, no warning is given twice for the same element and target name.
\<close>

theorem warnings_given_once:
  "distinct (warnings (fold (lookup_guide sch sc) ls new_guide)) \<and>
   (\<forall>(message, obj) \<in> set (warnings (fold (lookup_guide sch sc) ls new_guide)).
      \<exists>n. message = deprecation sch sc n)"
  using guide_ok_lookups [OF guide_ok_new, of sch sc ls] by (fastforce simp: guide_ok_def)

lemma warnings_given_once_witness:
  "distinct (warnings (fold (lookup_guide defaultSchema (sample_scope 3))
     [HasTarget sample_document ''wrapper'', FindTargets sample_document [''wrapper'']] new_guide))"
  using warnings_given_once [of defaultSchema "sample_scope 3"
      "[HasTarget sample_document ''wrapper'', FindTargets sample_document [''wrapper'']]"] by blast

text \<open>One call of \<open>set\<close> or \<open>delete\<close>.\<close>

fun data_write :: "scope \<Rightarrow> jsstr \<times> jsstr option \<Rightarrow> element \<Rightarrow> element" where
  "data_write sc (key, Some value) e = snd (dm_set sc key value e)"
| "data_write sc (key, None) e = snd (dm_delete sc key e)"

lemma data_write_eq: "data_write sc = dm.apply_write sc"
proof (intro ext)
  fix w e
  show "data_write sc w e = dm.apply_write sc w e"
    by (cases w; cases "snd w") auto
qed

text \<open>
  The data attributes of a controller are a map: after any sequence of \<open>set\<close> and
  \<open>delete\<close> calls, \<open>get\<close> of a key gives the value of the last call with that key, null after
  a deletion, and \<open>has\<close> says whether there is one; two keys in camel case are the same
  attribute only if they are equal.
\<close>

theorem data_map_last_write:
  assumes "list_all (\<lambda>k. {CHR ''-'', CHR ''_''} \<inter> set k = {}) (key # map fst ws)"
  shows "dm_get sc key (fold (data_write sc) ws e) =
      (case find (\<lambda>w. fst w = key) (rev ws) of Some w \<Rightarrow> snd w | None \<Rightarrow> dm_get sc key e) \<and>
    dm_has sc key (fold (data_write sc) ws e) = (dm_get sc key (fold (data_write sc) ws e) \<noteq> None)"
proof -
  have "dasherize (fst w) = dasherize key \<longleftrightarrow> fst w = key" if "w \<in> set ws" for w
    using assms that dasherize_inject [of "fst w" key] by (auto simp: list_all_iff)
  then have "find (\<lambda>w. dasherize (fst w) = dasherize key) (rev ws) = find (\<lambda>w. fst w = key) (rev ws)"
    by (intro find_cong) auto
  with dm.get_writes [of sc key ws e] show ?thesis
    by (simp add: data_write_eq dm_has_def dm_get_def)
qed

lemma data_map_last_write_witness:
  "dm_get (sample_scope 1) ''fooBar'' (fold (data_write (sample_scope 1))
     [(''fooBar'', Some ''1''), (''foo'', Some ''2''), (''foo'', None)] sample_document) = Some ''1''"
  using data_map_last_write [of "''fooBar''" "[(''fooBar'', Some ''1''), (''foo'', Some ''2''), (''foo'', None)]"
      "sample_scope 1" sample_document]
  by simp

end
