(* ===== verification/Stimulus_Values.thy ===== *)
theory Stimulus_Values
  imports Stimulus_Scope Complex_Main
begin

text \<open>
  Typed values of controllers in stimulus.js: the descriptors of declared values, the readers
  and writers of the five types, the blessed getters and setters over the data attributes,
  and \<open>StringMapObserver\<close> with \<open>ValueObserver\<close>, which call a controller back when the
  attribute of a value changes. A finite number is a rational; the text of one that is not
  an integer is a parameter (\<open>fraction\<close>), since its shortest digits depend on the format
  of doubles.
\<close>

section \<open>Numbers\<close>

datatype number = NaN | Infinity bool | Finite rat

fun sign_of :: "jsstr \<Rightarrow> rat \<times> jsstr" where
  "sign_of [] = (1, [])"
| "sign_of (c # cs) = (if c = CHR ''-'' then (- 1, cs) else if c = CHR ''+'' then (1, cs) else (1, c # cs))"

definition exponent_factor :: "jsstr \<Rightarrow> rat" where
  "exponent_factor r =
     (case r of
        [] \<Rightarrow> 1
      | c # cs \<Rightarrow>
          let (sign, ds) = sign_of cs; es = takeWhile is_digit ds
          in if (c = CHR ''e'' \<or> c = CHR ''E'') \<and> es \<noteq> []
             then (if sign < 0 then 1 / 10 ^ digits_value es else 10 ^ digits_value es) else 1)"

text \<open>\<open>parseFloat\<close>: the longest decimal literal at the front, behind whitespace.\<close>

definition parseFloat :: "jsstr \<Rightarrow> number" where
  "parseFloat s =
     (let (sign, t) = sign_of (dropWhile is_ws s);
          ds = takeWhile is_digit t; r = dropWhile is_digit t;
          point = (r \<noteq> [] \<and> hd r = CHR ''.'');
          fs = (if point then takeWhile is_digit (tl r) else []);
          rest = (if point then dropWhile is_digit (tl r) else r)
      in if take 8 t = ''Infinity'' then Infinity (sign < 0)
         else if ds = [] \<and> fs = [] then NaN
         else Finite (sign * (of_nat (digits_value (ds @ fs)) / 10 ^ length fs) * exponent_factor rest))"

definition number_text :: "(rat \<Rightarrow> jsstr) \<Rightarrow> number \<Rightarrow> jsstr" where
  "number_text fraction n =
     (case n of
        NaN \<Rightarrow> ''NaN''
      | Infinity negative \<Rightarrow> (if negative then ''-Infinity'' else ''Infinity'')
      | Finite r \<Rightarrow> if of_int \<lfloor>r\<rfloor> = r then int_text \<lfloor>r\<rfloor> else fraction r)"

section \<open>Values and their types\<close>

datatype value_type = TArray | TBoolean | TNumber | TObject | TString

text \<open>The constructor functions that a definition names, or anything else by its text.\<close>

datatype type_constant = ArrayConstant | BooleanConstant | NumberConstant | ObjectConstant | StringConstant
  | OtherConstant jsstr

datatype js_value =
    VArray "json list"
  | VBoolean bool
  | VNumber number
  | VObject "(jsstr \<times> json) list"
  | VString jsstr

fun type_of :: "js_value \<Rightarrow> value_type" where
  "type_of (VArray _) = TArray"
| "type_of (VBoolean _) = TBoolean"
| "type_of (VNumber _) = TNumber"
| "type_of (VObject _) = TObject"
| "type_of (VString _) = TString"

fun parseValueTypeConstant :: "type_constant \<Rightarrow> js_error + value_type" where
  "parseValueTypeConstant ArrayConstant = Inr TArray"
| "parseValueTypeConstant BooleanConstant = Inr TBoolean"
| "parseValueTypeConstant NumberConstant = Inr TNumber"
| "parseValueTypeConstant ObjectConstant = Inr TObject"
| "parseValueTypeConstant StringConstant = Inr TString"
| "parseValueTypeConstant (OtherConstant text) =
     Inl (ErrorObject ''Error'' (''Unknown value type constant '' @ [chr 34] @ text @ [chr 34]))"

record value_descriptor =
  vd_type :: value_type
  vd_key :: jsstr
  vd_name :: jsstr

definition valueDescriptorForTokenAndType :: "jsstr \<Rightarrow> value_type \<Rightarrow> value_descriptor" where
  "valueDescriptorForTokenAndType token type =
     (let key = dasherize token @ ''-value''
      in \<lparr>vd_type = type, vd_key = key, vd_name = camelize key\<rparr>)"

definition parseValueDefinitionPair :: "jsstr \<times> type_constant \<Rightarrow> js_error + value_descriptor" where
  "parseValueDefinitionPair pair =
     (case parseValueTypeConstant (snd pair) of
        Inl e \<Rightarrow> Inl e
      | Inr type \<Rightarrow> Inr (valueDescriptorForTokenAndType (fst pair) type))"

fun defaultValuesByType :: "value_type \<Rightarrow> js_value" where
  "defaultValuesByType TArray = VArray []"
| "defaultValuesByType TBoolean = VBoolean False"
| "defaultValuesByType TNumber = VNumber (Finite 0)"
| "defaultValuesByType TObject = VObject []"
| "defaultValuesByType TString = VString []"

section \<open>Readers and writers\<close>

definition syntax_error :: js_error where
  "syntax_error = ErrorObject ''SyntaxError'' ''JSON.parse''"

fun read_value :: "value_type \<Rightarrow> jsstr \<Rightarrow> js_error + js_value" where
  "read_value TArray s =
     (case json_parse s of
        None \<Rightarrow> Inl syntax_error
      | Some (JArray xs) \<Rightarrow> Inr (VArray xs)
      | Some _ \<Rightarrow> Inl (ErrorObject ''TypeError'' ''Expected array''))"
| "read_value TBoolean s = Inr (VBoolean (\<not> (s = ''0'' \<or> s = ''false'')))"
| "read_value TNumber s = Inr (VNumber (parseFloat s))"
| "read_value TObject s =
     (case json_parse s of
        None \<Rightarrow> Inl syntax_error
      | Some (JObject ps) \<Rightarrow> Inr (VObject ps)
      | Some _ \<Rightarrow> Inl (ErrorObject ''TypeError'' ''Expected object''))"
| "read_value TString s = Inr (VString s)"

fun writeJSON :: "(rat \<Rightarrow> jsstr) \<Rightarrow> js_value \<Rightarrow> jsstr" where
  "writeJSON fraction (VArray xs) = json_stringify (JArray xs)"
| "writeJSON fraction (VBoolean b) = json_stringify (JBool b)"
| "writeJSON fraction (VNumber n) =
     (case n of Finite r \<Rightarrow> number_text fraction n | _ \<Rightarrow> json_stringify JNull)"
| "writeJSON fraction (VObject ps) = json_stringify (JObject ps)"
| "writeJSON fraction (VString s) = json_stringify (JString s)"

fun writeString :: "(rat \<Rightarrow> jsstr) \<Rightarrow> js_value \<Rightarrow> jsstr" where
  "writeString fraction (VArray xs) = js_string (JArray xs)"
| "writeString fraction (VBoolean b) = js_string (JBool b)"
| "writeString fraction (VNumber n) = number_text fraction n"
| "writeString fraction (VObject ps) = js_string (JObject ps)"
| "writeString fraction (VString s) = s"

definition write_value :: "(rat \<Rightarrow> jsstr) \<Rightarrow> value_type \<Rightarrow> js_value \<Rightarrow> jsstr" where
  "write_value fraction type v =
     (case type of TArray \<Rightarrow> writeJSON fraction v | TObject \<Rightarrow> writeJSON fraction v
      | _ \<Rightarrow> writeString fraction v)"

section \<open>The properties of a value\<close>

definition value_get :: "scope \<Rightarrow> value_descriptor \<Rightarrow> element \<Rightarrow> js_error + js_value" where
  "value_get sc d e =
     (case dm_get sc (vd_key d) e of
        Some s \<Rightarrow> read_value (vd_type d) s
      | None \<Rightarrow> Inr (defaultValuesByType (vd_type d)))"

text \<open>Setting undefined deletes the attribute.\<close>

definition value_set ::
  "(rat \<Rightarrow> jsstr) \<Rightarrow> scope \<Rightarrow> value_descriptor \<Rightarrow> js_value option \<Rightarrow> element \<Rightarrow> element" where
  "value_set fraction sc d v e =
     (case v of
        None \<Rightarrow> snd (dm_delete sc (vd_key d) e)
      | Some v \<Rightarrow> snd (dm_set sc (vd_key d) (write_value fraction (vd_type d) v) e))"

definition value_has :: "scope \<Rightarrow> value_descriptor \<Rightarrow> element \<Rightarrow> bool" where
  "value_has sc d e = dm_has sc (vd_key d) e"

section \<open>Reading what was written\<close>

lemma sign_of_digits: "list_all is_digit s \<Longrightarrow> sign_of s = (1, s)"
  by (cases s) (auto simp: is_digit_def code_def)

lemma parseFloat_nat_text: "parseFloat (nat_text n) = Finite (of_nat n)"
proof -
  obtain c cs where n: "nat_text n = c # cs" by (cases "nat_text n") auto
  with nat_text_digits [of n] have d: "is_digit c" "list_all is_digit (c # cs)" by simp_all
  then have "dropWhile is_ws (c # cs) = c # cs" by simp
  moreover have "takeWhile is_digit (c # cs) = c # cs" "dropWhile is_digit (c # cs) = []"
    using d(2) by (simp_all add: list_all_iff takeWhile_eq_all_conv dropWhile_eq_Nil_conv)
  moreover have "c \<noteq> CHR ''I''" using d(1) by (auto simp: is_digit_def code_def)
  moreover have "digits_value (c # cs) = n" using digits_value_nat_text [of n] by (simp add: n)
  ultimately show ?thesis
    using sign_of_digits [OF d(2)] by (simp add: parseFloat_def n Let_def exponent_factor_def)
qed

lemma parseFloat_int_text: "parseFloat (int_text i) = Finite (of_int i)"
proof (cases "i < 0")
  case False
  then show ?thesis by (simp add: int_text_def parseFloat_nat_text)
next
  case True
  let ?n = "nat (- i)"
  obtain c cs where n: "nat_text ?n = c # cs" by (cases "nat_text ?n") auto
  with nat_text_digits [of ?n] have d: "is_digit c" "list_all is_digit (c # cs)" by simp_all
  have "takeWhile is_digit (c # cs) = c # cs" "dropWhile is_digit (c # cs) = []"
    using d(2) by (simp_all add: list_all_iff takeWhile_eq_all_conv dropWhile_eq_Nil_conv)
  moreover have "c \<noteq> CHR ''I''" using d(1) by (auto simp: is_digit_def code_def)
  moreover have "digits_value (c # cs) = ?n" using digits_value_nat_text [of ?n] by (simp add: n)
  moreover have "\<not> is_ws (CHR ''-'')" by (simp add: is_ws_def code_def)
  ultimately show ?thesis
    using True by (simp add: parseFloat_def n int_text_def Let_def exponent_factor_def)
qed

text \<open>Values that their text determines.\<close>

fun value_ok :: "(rat \<Rightarrow> jsstr) \<Rightarrow> js_value \<Rightarrow> bool" where
  "value_ok fraction (VArray xs) = json_ok (JArray xs)"
| "value_ok fraction (VObject ps) = json_ok (JObject ps)"
| "value_ok fraction (VNumber (Finite r)) = (of_int \<lfloor>r\<rfloor> = r \<or> parseFloat (fraction r) = Finite r)"
| "value_ok fraction _ = True"

lemma read_write:
  assumes "type_of v = type" and "value_ok fraction v"
  shows "read_value type (write_value fraction type v) = Inr v"
proof (cases v)
  case (VNumber n)
  show ?thesis
  proof (cases n)
    case (Finite r)
    show ?thesis
    proof (cases "of_int \<lfloor>r\<rfloor> = r")
      case True
      with assms VNumber Finite parseFloat_int_text [of "\<lfloor>r\<rfloor>"] show ?thesis
        by (auto simp: write_value_def number_text_def)
    next
      case False
      with assms VNumber Finite show ?thesis by (auto simp: write_value_def number_text_def)
    qed
  next
    case NaN
    have "parseFloat ''NaN'' = NaN" by code_simp
    with assms VNumber NaN show ?thesis by (auto simp: write_value_def number_text_def)
  next
    case (Infinity negative)
    have "parseFloat ''Infinity'' = Infinity False" "parseFloat ''-Infinity'' = Infinity True" by code_simp+
    with assms VNumber Infinity show ?thesis by (auto simp: write_value_def number_text_def)
  qed
next
  case (VBoolean b)
  with assms show ?thesis by (auto simp: write_value_def)
next
  case (VArray xs)
  have "json_parse (json_stringify (JArray xs)) = Some (JArray xs)"
    using assms VArray by (intro json_parse_stringify_ok) simp
  with assms VArray show ?thesis by (auto simp: write_value_def simp del: json_stringify.simps)
next
  case (VObject ps)
  have "json_parse (json_stringify (JObject ps)) = Some (JObject ps)"
    using assms VObject by (intro json_parse_stringify_ok) simp
  with assms VObject show ?thesis by (auto simp: write_value_def simp del: json_stringify.simps)
qed (use assms in \<open>auto simp: write_value_def\<close>)

section \<open>Names of values\<close>

text \<open>A token in camel case: no hyphen and no underscore.\<close>

definition camel_token :: "jsstr \<Rightarrow> bool" where
  "camel_token t \<longleftrightarrow> {CHR ''-'', CHR ''_''} \<inter> set t = {}"

lemma camelize_value_key: "camel_token t \<Longrightarrow> camelize (dasherize t @ ''-value'') = t @ ''Value''"
  using camelize_dasherize_append [of t "''-value''"]
  by (simp add: camel_token_def is_lower_def is_digit_def code_def to_upper_def)

lemma dasherize_key: "dasherize (dasherize t @ ''-value'') = dasherize t @ ''-value''"
  using dasherize_lower [of t] by (intro dasherize_no_upper) (simp add: is_upper_def code_def)

lemma same_value_key:
  "camel_token t \<Longrightarrow> camel_token t' \<Longrightarrow>
   dasherize (vd_key (valueDescriptorForTokenAndType t ty)) =
     dasherize (vd_key (valueDescriptorForTokenAndType t' ty')) \<longleftrightarrow> t = t'"
  using dasherize_inject [of t t']
  by (auto simp: valueDescriptorForTokenAndType_def Let_def dasherize_key camel_token_def)

section \<open>Properties\<close>

text \<open>
  C15. Reading a value is type safe: whatever text the page holds in the attribute, the
  getter yields a value of the declared type, the default of that type when the attribute is
  missing, or throws; and only the readers of arrays and objects throw, a syntax error for
  text that is not JSON and a type error for JSON of another shape.
\<close>

theorem value_getter_typed:
  "case value_get sc d e of
     Inr v \<Rightarrow> type_of v = vd_type d
   | Inl err \<Rightarrow> vd_type d \<in> {TArray, TObject} \<and> dm_get sc (vd_key d) e \<noteq> None \<and>
       (err = syntax_error \<longleftrightarrow> json_parse (the (dm_get sc (vd_key d) e)) = None)"
proof (cases "dm_get sc (vd_key d) e")
  case None
  then show ?thesis by (cases "vd_type d") (simp_all add: value_get_def)
next
  case (Some s)
  then show ?thesis
    by (cases "vd_type d")
      (auto simp: value_get_def syntax_error_def split: option.splits json.splits)
qed

text \<open>
  C16. Writing and reading back. A value of the declared type that the setter writes is what
  the getter then reads, for all five types, and undefined brings the default back;
  the properties of the other declared values, those with another camel-case token, keep
  what they had, and the name of the property is the token followed by Value.
\<close>

theorem value_set_get:
  assumes "camel_token t" and "camel_token t'" and "d = valueDescriptorForTokenAndType t ty"
    and "d' = valueDescriptorForTokenAndType t' ty'"
    and "case v of Some w \<Rightarrow> type_of w = ty \<and> value_ok fraction w | None \<Rightarrow> True"
  shows "value_get sc d (value_set fraction sc d v e) =
      Inr (case v of Some w \<Rightarrow> w | None \<Rightarrow> defaultValuesByType ty) \<and>
    value_has sc d (value_set fraction sc d v e) = (v \<noteq> None) \<and>
    (t \<noteq> t' \<longrightarrow> value_get sc d' (value_set fraction sc d v e) = value_get sc d' e) \<and>
    vd_name d = t @ ''Value''"
proof (intro conjI impI)
  have ty: "vd_type d = ty" by (simp add: assms(3) valueDescriptorForTokenAndType_def Let_def)
  show "value_get sc d (value_set fraction sc d v e) =
      Inr (case v of Some w \<Rightarrow> w | None \<Rightarrow> defaultValuesByType ty)"
    using assms(5) by (cases v)
      (simp_all add: value_get_def value_set_def dm.get_put dm.get_del ty read_write)
  show "value_has sc d (value_set fraction sc d v e) = (v \<noteq> None)"
    using dm.get_put [of sc "vd_key d" "vd_key d"] dm.get_del [of sc "vd_key d" "vd_key d"]
    by (cases v) (simp_all add: value_has_def value_set_def dm_has_def dm_get_def)
  show "value_get sc d' (value_set fraction sc d v e) = value_get sc d' e" if "t \<noteq> t'"
    using same_value_key [OF assms(1,2), of ty ty'] that
    by (cases v) (simp_all add: value_get_def value_set_def dm.get_put dm.get_del assms(3,4))
  show "vd_name d = t @ ''Value''"
    using camelize_value_key [OF assms(1)] by (simp add: assms(3) valueDescriptorForTokenAndType_def Let_def)
qed

lemma value_set_get_witness:
  "value_get (sample_scope 1) (valueDescriptorForTokenAndType ''maxItems'' TNumber)
     (value_set (\<lambda>_. ''2.5'') (sample_scope 1) (valueDescriptorForTokenAndType ''maxItems'' TNumber)
       (Some (VNumber (Finite (5 / 2)))) sample_document) = Inr (VNumber (Finite (5 / 2)))"
proof -
  have "camel_token ''maxItems''" by (simp add: camel_token_def)
  moreover have "parseFloat ''2.5'' = Finite (5 / 2)" by code_simp
  ultimately show ?thesis
    using value_set_get [of "''maxItems''" "''maxItems''" _ TNumber _ TNumber
        "\<lambda>_. ''2.5''" "Some (VNumber (Finite (5 / 2)))" "sample_scope 1" sample_document, OF _ _ refl refl]
    by simp
qed

end
