(* ===== verification/Stimulus_Blessings.thy ===== *)
theory Stimulus_Blessings
  imports Stimulus_Values
begin

text \<open>
  How stimulus.js gives controllers their properties: static definitions inherited along the
  prototype chain, the three blessings (classes, targets, values), and the shadow class
  that carries the blessed properties in front of the controller class without hiding the
  class's own methods. A constructor is the list of the classes of its chain, the most
  derived first.
\<close>

section \<open>Classes\<close>

datatype static_value = StaticArray "jsstr list" | StaticObject "(jsstr \<times> type_constant) list" | StaticOther

text \<open>The functions that properties can hold: the blessed accessors, and those of the class.\<close>

datatype accessor =
    TargetGet jsstr | TargetsGet jsstr | TargetHas jsstr
  | ClassGet jsstr | ClassHas jsstr
  | ValueGet value_descriptor | ValueSet value_descriptor | ValueHas value_descriptor
  | DescriptorMapGet "value_descriptor list"
  | OwnFunction jsstr

text \<open>A property descriptor, its fields as far as they are present.\<close>

record descriptor =
  d_value :: "accessor option"
  d_get :: "accessor option"
  d_set :: "accessor option"

type_synonym properties = "(jsstr \<times> descriptor) list"

record js_class =
  cl_statics :: "(jsstr \<times> static_value) list"
  cl_prototype :: properties

type_synonym js_constructor = "js_class list"

definition getter :: "accessor \<Rightarrow> descriptor" where
  "getter f = \<lparr>d_value = None, d_get = Some f, d_set = None\<rparr>"

text \<open>\<open>constructor[propertyName]\<close>: the first class of the chain that has it.\<close>

fun static_get :: "js_constructor \<Rightarrow> jsstr \<Rightarrow> static_value option" where
  "static_get [] name = None"
| "static_get (c # cs) name =
     (case map_get (cl_statics c) name of Some v \<Rightarrow> Some v | None \<Rightarrow> static_get cs name)"

text \<open>A property of an instance, through the prototypes.\<close>

fun property_of :: "js_constructor \<Rightarrow> jsstr \<Rightarrow> descriptor option" where
  "property_of [] name = None"
| "property_of (c # cs) name =
     (case map_get (cl_prototype c) name of Some d \<Rightarrow> Some d | None \<Rightarrow> property_of cs name)"

section \<open>Inherited definitions\<close>

fun chain :: "js_constructor \<Rightarrow> js_constructor list" where
  "chain [] = []"
| "chain (c # cs) = (c # cs) # chain cs"

definition getAncestorsForConstructor :: "js_constructor \<Rightarrow> js_constructor list" where
  "getAncestorsForConstructor ctor = rev (chain ctor)"

definition getOwnStaticArrayValues :: "js_constructor \<Rightarrow> jsstr \<Rightarrow> jsstr list" where
  "getOwnStaticArrayValues ctor propertyName =
     (case static_get ctor propertyName of Some (StaticArray xs) \<Rightarrow> xs | _ \<Rightarrow> [])"

text \<open>An array has its indices as keys, but no type constants; it is not used for values.\<close>

definition getOwnStaticObjectPairs :: "js_constructor \<Rightarrow> jsstr \<Rightarrow> (jsstr \<times> type_constant) list" where
  "getOwnStaticObjectPairs ctor propertyName =
     (case static_get ctor propertyName of Some (StaticObject ps) \<Rightarrow> ps | _ \<Rightarrow> [])"

definition readInheritableStaticArrayValues :: "js_constructor \<Rightarrow> jsstr \<Rightarrow> jsstr list" where
  "readInheritableStaticArrayValues ctor propertyName =
     fold (\<lambda>c values. fold set_add (getOwnStaticArrayValues c propertyName) values)
       (getAncestorsForConstructor ctor) []"

definition readInheritableStaticObjectPairs :: "js_constructor \<Rightarrow> jsstr \<Rightarrow> (jsstr \<times> type_constant) list" where
  "readInheritableStaticObjectPairs ctor propertyName =
     fold (\<lambda>c pairs. pairs @ getOwnStaticObjectPairs c propertyName) (getAncestorsForConstructor ctor) []"

section \<open>Blessings\<close>

definition assign :: "(jsstr \<times> 'v) list \<Rightarrow> (jsstr \<times> 'v) list \<Rightarrow> (jsstr \<times> 'v) list" where
  "assign source target = fold (\<lambda>(k, v) t. set_prop k v t) source target"

definition propertiesForClassDefinition :: "jsstr \<Rightarrow> properties" where
  "propertiesForClassDefinition key =
     (let name = key @ ''Class''
      in [(name, getter (ClassGet key)), (''has'' @ capitalize name, getter (ClassHas key))])"

definition propertiesForTargetDefinition :: "jsstr \<Rightarrow> properties" where
  "propertiesForTargetDefinition name =
     assign [(name @ ''Target'', getter (TargetGet name)), (name @ ''Targets'', getter (TargetsGet name)),
             (''has'' @ capitalize name @ ''Target'', getter (TargetHas name))] []"

definition propertiesForValueDefinitionPair :: "jsstr \<times> type_constant \<Rightarrow> js_error + properties" where
  "propertiesForValueDefinitionPair pair =
     (case parseValueDefinitionPair pair of
        Inl e \<Rightarrow> Inl e
      | Inr d \<Rightarrow> Inr
          [(vd_name d, \<lparr>d_value = None, d_get = Some (ValueGet d), d_set = Some (ValueSet d)\<rparr>),
           (''has'' @ capitalize (vd_name d), getter (ValueHas d))])"

definition ClassPropertiesBlessing :: "js_constructor \<Rightarrow> properties" where
  "ClassPropertiesBlessing ctor =
     fold (\<lambda>key. assign (propertiesForClassDefinition key)) (readInheritableStaticArrayValues ctor ''classes'') []"

definition TargetPropertiesBlessing :: "js_constructor \<Rightarrow> properties" where
  "TargetPropertiesBlessing ctor =
     fold (\<lambda>name. assign (propertiesForTargetDefinition name)) (readInheritableStaticArrayValues ctor ''targets'') []"

text \<open>The descriptors of all pairs, or the first error.\<close>

fun descriptors_of :: "(jsstr \<times> type_constant) list \<Rightarrow> js_error + value_descriptor list" where
  "descriptors_of [] = Inr []"
| "descriptors_of (p # ps) =
     (case parseValueDefinitionPair p of
        Inl e \<Rightarrow> Inl e
      | Inr d \<Rightarrow> (case descriptors_of ps of Inl e \<Rightarrow> Inl e | Inr ds \<Rightarrow> Inr (d # ds)))"

fun value_properties :: "(jsstr \<times> type_constant) list \<Rightarrow> properties \<Rightarrow> js_error + properties" where
  "value_properties [] properties = Inr properties"
| "value_properties (p # ps) properties =
     (case propertiesForValueDefinitionPair p of
        Inl e \<Rightarrow> Inl e
      | Inr props \<Rightarrow> value_properties ps (assign props properties))"

definition ValuePropertiesBlessing :: "js_constructor \<Rightarrow> js_error + properties" where
  "ValuePropertiesBlessing ctor =
     (let pairs = readInheritableStaticObjectPairs ctor ''values'';
          ds = (case descriptors_of pairs of Inr ds \<Rightarrow> ds | Inl _ \<Rightarrow> [])
      in value_properties pairs [(''valueDescriptorMap'', getter (DescriptorMapGet ds))])"

text \<open>\<open>Object.assign(descriptor, properties[key])\<close> on descriptors.\<close>

definition assign_descriptor :: "descriptor \<Rightarrow> descriptor \<Rightarrow> descriptor" where
  "assign_descriptor d s =
     \<lparr>d_value = (case d_value s of None \<Rightarrow> d_value d | v \<Rightarrow> v),
      d_get = (case d_get s of None \<Rightarrow> d_get d | v \<Rightarrow> v),
      d_set = (case d_set s of None \<Rightarrow> d_set d | v \<Rightarrow> v)\<rparr>"

definition empty_descriptor :: descriptor where
  "empty_descriptor = \<lparr>d_value = None, d_get = None, d_set = None\<rparr>"

definition add_blessing :: "properties \<Rightarrow> properties \<Rightarrow> properties" where
  "add_blessing properties blessed =
     fold (\<lambda>(key, s) blessed.
        let d = (case map_get blessed key of Some d \<Rightarrow> d | None \<Rightarrow> empty_descriptor)
        in set_prop key (assign_descriptor d s) blessed) properties blessed"

text \<open>
  The blessings of a class are those of \<open>Controller\<close>, the only class of the program that has the
  static property: those for class names, targets and values.
\<close>

definition getBlessedProperties :: "js_constructor \<Rightarrow> js_error + properties" where
  "getBlessedProperties ctor =
     (case ValuePropertiesBlessing ctor of
        Inl e \<Rightarrow> Inl e
      | Inr values \<Rightarrow>
          Inr (add_blessing values
            (add_blessing (TargetPropertiesBlessing ctor) (add_blessing (ClassPropertiesBlessing ctor) []))))"

definition getShadowedDescriptor :: "properties \<Rightarrow> jsstr \<times> descriptor \<Rightarrow> descriptor option" where
  "getShadowedDescriptor prototype p =
     (case map_get prototype (fst p) of
        None \<Rightarrow> Some (snd p)
      | Some own \<Rightarrow>
          if d_value own \<noteq> None then None
          else Some ((snd p)\<lparr>d_get := (case d_get own of None \<Rightarrow> d_get (snd p) | f \<Rightarrow> f),
                             d_set := (case d_set own of None \<Rightarrow> d_set (snd p) | f \<Rightarrow> f)\<rparr>))"

definition getShadowProperties :: "properties \<Rightarrow> properties \<Rightarrow> properties" where
  "getShadowProperties prototype properties =
     fold (\<lambda>p shadow. case getShadowedDescriptor prototype p of
         Some d \<Rightarrow> set_prop (fst p) d shadow | None \<Rightarrow> shadow) properties []"

definition shadow :: "js_constructor \<Rightarrow> properties \<Rightarrow> js_constructor" where
  "shadow ctor properties =
     \<lparr>cl_statics = [],
      cl_prototype = getShadowProperties (case ctor of c # _ \<Rightarrow> cl_prototype c | [] \<Rightarrow> []) properties\<rparr> # ctor"

definition bless :: "js_constructor \<Rightarrow> js_error + js_constructor" where
  "bless ctor = (case getBlessedProperties ctor of Inl e \<Rightarrow> Inl e | Inr ps \<Rightarrow> Inr (shadow ctor ps))"

section \<open>What the accessors do\<close>

definition missing_target_error :: "scope \<Rightarrow> jsstr \<Rightarrow> js_error" where
  "missing_target_error sc name =
     ErrorObject ''Error'' (''Missing target element '' @ [chr 34] @ sc_identifier sc @ ''.'' @ name @ [chr 34])"

definition get_target_property ::
  "schema \<Rightarrow> element \<Rightarrow> scope \<Rightarrow> jsstr \<Rightarrow> guide \<Rightarrow> (js_error + element) \<times> guide" where
  "get_target_property sch doc sc name g =
     (case ts_find sch doc sc [name] g of
        (Inr (Some e), g') \<Rightarrow> (Inr e, g')
      | (Inr None, g') \<Rightarrow> (Inl (missing_target_error sc name), g')
      | (Inl err, g') \<Rightarrow> (Inl err, g'))"

definition get_class_property :: "scope \<Rightarrow> jsstr \<Rightarrow> element \<Rightarrow> js_error + jsstr" where
  "get_class_property sc key e =
     (case cm_get sc key e of
        Some s \<Rightarrow> Inr s
      | None \<Rightarrow> Inl (ErrorObject ''Error'' (''Missing attribute '' @ [chr 34] @ cm_getAttributeName sc key @ [chr 34])))"

section \<open>Inheritance\<close>

text \<open>The array a class itself defines.\<close>

definition own_array :: "jsstr \<Rightarrow> js_class \<Rightarrow> jsstr list" where
  "own_array name c = (case map_get (cl_statics c) name of Some (StaticArray xs) \<Rightarrow> xs | _ \<Rightarrow> [])"

lemma set_fold_set_add: "set (fold set_add xs ys) = set xs \<union> set ys"
  by (induction xs arbitrary: ys) auto

lemma fold_set_add_absorb: "set xs \<subseteq> set ys \<Longrightarrow> fold set_add xs ys = ys"
  by (induction xs) auto

lemma read_arrays:
  "readInheritableStaticArrayValues ctor name = fold set_add (concat (map (own_array name) (rev ctor))) [] \<and>
   set (getOwnStaticArrayValues ctor name) \<subseteq> set (readInheritableStaticArrayValues ctor name)"
proof (induction ctor)
  case Nil
  then show ?case
    by (simp add: readInheritableStaticArrayValues_def getAncestorsForConstructor_def getOwnStaticArrayValues_def)
next
  case (Cons c cs)
  let ?R = "readInheritableStaticArrayValues cs name"
  have step: "readInheritableStaticArrayValues (c # cs) name = fold set_add (getOwnStaticArrayValues (c # cs) name) ?R"
    by (simp add: readInheritableStaticArrayValues_def getAncestorsForConstructor_def)
  have "fold set_add (getOwnStaticArrayValues (c # cs) name) ?R = fold set_add (own_array name c) ?R"
  proof (cases "map_get (cl_statics c) name")
    case None
    then have "getOwnStaticArrayValues (c # cs) name = getOwnStaticArrayValues cs name"
      by (simp add: getOwnStaticArrayValues_def)
    moreover have "own_array name c = []" using None by (simp add: own_array_def)
    ultimately show ?thesis by (simp only: fold_set_add_absorb [OF conjunct2 [OF Cons.IH]] fold_simps)
  next
    case (Some v)
    then show ?thesis by (cases v) (simp_all add: getOwnStaticArrayValues_def own_array_def)
  qed
  moreover have "set (getOwnStaticArrayValues (c # cs) name) \<subseteq> set (readInheritableStaticArrayValues (c # cs) name)"
    by (simp add: step set_fold_set_add)
  ultimately show ?case using step Cons.IH by simp
qed

lemma distinct_fold_set_add: "distinct ys \<Longrightarrow> distinct (fold set_add xs ys)"
  by (induction xs arbitrary: ys) auto

text \<open>
  Definitions are inherited: the targets (or classes) of a controller are those that the
  classes of its chain define themselves, base class first, each once in the order of its
  first occurrence, although the code reads the definition of every class through the
  prototype chain, where a class without one shows that of its base class again.
\<close>

theorem inherited_definitions:
  "readInheritableStaticArrayValues ctor name = fold set_add (concat (map (own_array name) (rev ctor))) [] \<and>
   distinct (readInheritableStaticArrayValues ctor name) \<and>
   set (readInheritableStaticArrayValues ctor name) = (\<Union>c \<in> set ctor. set (own_array name c))"
proof -
  have "readInheritableStaticArrayValues ctor name = fold set_add (concat (map (own_array name) (rev ctor))) []"
    using read_arrays by blast
  then show ?thesis by (simp add: distinct_fold_set_add set_fold_set_add)
qed

end
