(* ===== verification/Stimulus_Blessed.thy ===== *)
theory Stimulus_Blessed
  imports Stimulus_Blessings "HOL-Library.Sublist"
begin

text \<open>
  What blessing does to a class, for every class: the accessors of its targets are found on
  the blessed class unless the class itself defines the name, and what the class itself
  defines as a method stays.
\<close>

section \<open>Properties as maps\<close>

lemma assign_get:
  "map_get (assign source target) k = (case map_get (rev source) k of Some v \<Rightarrow> Some v | None \<Rightarrow> map_get target k)"
  by (induction source arbitrary: target) (auto simp: assign_def map_of_append split: option.splits)

lemma set_set_prop: "set (set_prop k v ps) \<subseteq> insert (k, v) (set ps)"
proof -
  have "set (map_set k v ps) \<subseteq> insert (k, v) (set ps)" by (induction ps) auto
  then show ?thesis by (simp add: set_prop_def set_insert_prop)
qed

lemma distinct_set_prop: "distinct (map_keys ps) \<Longrightarrow> distinct (map_keys (set_prop k v ps))"
proof -
  have "k \<notin> fst ` set ps \<Longrightarrow> distinct (map fst ps) \<Longrightarrow> distinct (map fst (insert_prop k v ps))"
    by (induction ps) (auto simp: set_insert_prop)
  then show "distinct (map_keys ps) \<Longrightarrow> ?thesis"
    by (auto simp: set_prop_def distinct_map_set map_of_eq_None_iff)
qed

text \<open>A blessing leaves alone the keys it does not have, and puts in those it has.\<close>

lemma add_blessing_other: "k \<notin> fst ` set properties \<Longrightarrow> map_get (add_blessing properties blessed) k = map_get blessed k"
  by (induction properties arbitrary: blessed) (auto simp: add_blessing_def Let_def)

lemma add_blessing_getter:
  assumes "\<And>d. (k, d) \<in> set properties \<Longrightarrow> d = getter f"
    and "map_get blessed k = (if k \<in> fst ` set properties then None else Some (getter f)) \<or> map_get blessed k = Some (getter f)"
  shows "map_get (add_blessing properties blessed) k = Some (getter f)"
  using assms
proof (induction properties arbitrary: blessed)
  case Nil
  then show ?case by (auto simp: add_blessing_def)
next
  case (Cons p properties)
  obtain k' d where p: "p = (k', d)" by fastforce
  define blessed' where "blessed' =
    set_prop k' (assign_descriptor (case map_get blessed k' of Some d \<Rightarrow> d | None \<Rightarrow> empty_descriptor) d) blessed"
  have step: "add_blessing (p # properties) blessed = add_blessing properties blessed'"
    by (simp add: add_blessing_def p blessed'_def Let_def)
  have "map_get blessed' k =
      (if k \<in> fst ` set properties then None else Some (getter f)) \<or> map_get blessed' k = Some (getter f)"
  proof (cases "k' = k")
    case True
    then have "d = getter f" using Cons.prems(1) p by simp
    then show ?thesis
      using True Cons.prems(2) p
      by (auto simp: blessed'_def assign_descriptor_def empty_descriptor_def getter_def split: option.splits)
  next
    case False
    then show ?thesis using Cons.prems(2) p by (auto simp: blessed'_def)
  qed
  with Cons.IH [of blessed'] Cons.prems(1) show ?case unfolding step by simp
qed

lemma distinct_add_blessing: "distinct (map_keys blessed) \<Longrightarrow> distinct (map_keys (add_blessing properties blessed))"
proof (induction properties arbitrary: blessed)
  case (Cons p properties)
  obtain k d where p: "p = (k, d)" by fastforce
  have "\<exists>v. add_blessing (p # properties) blessed = add_blessing properties (set_prop k v blessed)"
    by (simp add: add_blessing_def p Let_def) blast
  with Cons.IH [OF distinct_set_prop [OF Cons.prems]] show ?case by metis
qed (simp add: add_blessing_def)

section \<open>The keys of the blessings\<close>

lemma capitalize_append: "s \<noteq> [] \<Longrightarrow> capitalize (s @ t) = capitalize s @ t"
  by (cases s) (simp_all add: capitalize_def)

lemma set_assign: "set (assign source target) \<subseteq> set source \<union> set target"
proof (induction source arbitrary: target)
  case (Cons p source)
  obtain k v where p: "p = (k, v)" by fastforce
  have "assign (p # source) target = assign source (set_prop k v target)" by (simp add: assign_def p)
  moreover note Cons.IH [of "set_prop k v target"] set_set_prop [of k v target]
  ultimately show ?case unfolding p by auto
qed (simp add: assign_def)

lemma set_fold_assign: "set (fold (\<lambda>x. assign (f x)) xs target) \<subseteq> (\<Union>x \<in> set xs. set (f x)) \<union> set target"
proof (induction xs arbitrary: target)
  case (Cons x xs)
  then show ?case using Cons.IH [of "assign (f x) target"] set_assign [of "f x" target] by auto
qed simp

lemma fold_assign_has:
  "map_has target k \<or> (\<exists>x \<in> set xs. k \<in> fst ` set (f x)) \<Longrightarrow> map_has (fold (\<lambda>x. assign (f x)) xs target) k"
proof (induction xs arbitrary: target)
  case (Cons x xs)
  have "map_has (assign (f x) target) k \<longleftrightarrow> k \<in> fst ` set (f x) \<or> map_has target k"
  proof -
    have "k \<in> fst ` set (f x) \<longleftrightarrow> map_has (rev (f x)) k" by (simp add: map_of_eq_None_iff)
    then show ?thesis by (auto simp: assign_get split: option.splits)
  qed
  then have "map_has (assign (f x) target) k \<or> (\<exists>y \<in> set xs. k \<in> fst ` set (f y))" using Cons.prems by auto
  from Cons.IH [OF this] show ?case by simp
qed auto

lemma class_keys: "(k, d) \<in> set (ClassPropertiesBlessing ctor) \<Longrightarrow> suffix ''lass'' k"
proof -
  assume "(k, d) \<in> set (ClassPropertiesBlessing ctor)"
  then obtain key where "(k, d) \<in> set (propertiesForClassDefinition key)"
    using set_fold_assign unfolding ClassPropertiesBlessing_def by fastforce
  then have "k = key @ ''Class'' \<or> k = ''has'' @ capitalize (key @ ''Class'')"
    by (auto simp: propertiesForClassDefinition_def Let_def)
  moreover have "suffix ''lass'' (capitalize (key @ ''Class''))"
    by (cases key) (simp_all add: capitalize_def suffix_def)
  ultimately show ?thesis by (auto simp: suffix_def)
qed

lemma camelize_value_end: "\<exists>z. z \<noteq> [] \<and> camelize (s @ ''lue'') = z @ ''ue''"
proof (induction s rule: length_induct)
  case (1 s)
  show ?case
  proof (cases s rule: camelize.cases [case_names longer none single])
    case (longer c d cs)
    have "length cs < length s" "length (d # cs) < length s" using longer by simp_all
    with "1.IH" obtain z z' where "camelize (cs @ ''lue'') = z @ ''ue''" "camelize ((d # cs) @ ''lue'') = z' @ ''ue''"
      by blast
    with longer show ?thesis by (cases "(c = CHR ''_'' \<or> c = CHR ''-'') \<and> (is_lower d \<or> is_digit d)") auto
  next
    case none
    then show ?thesis by (intro exI [of _ "''l''"]) simp
  next
    case (single c)
    show ?thesis
    proof (cases "c = CHR ''_'' \<or> c = CHR ''-''")
      case True
      then show ?thesis using single
        by (intro exI [of _ "[to_upper (CHR ''l'')]"]) (auto simp: is_lower_def code_def)
    next
      case False
      then show ?thesis using single by (intro exI [of _ "c # ''l''"]) auto
    qed
  qed
qed

lemma value_keys:
  "value_properties pairs properties = Inr ps \<Longrightarrow> (k, d) \<in> set ps \<Longrightarrow> (k, d) \<in> set properties \<or> suffix ''ue'' k"
proof (induction pairs properties rule: value_properties.induct)
  case (2 p pairs properties)
  obtain own where own: "propertiesForValueDefinitionPair p = Inr own"
      and rest: "value_properties pairs (assign own properties) = Inr ps"
    using "2.prems"(1) by (auto split: sum.splits)
  have "suffix ''ue'' k'" if "(k', d') \<in> set own" for k' d'
  proof -
    define t where "t = fst p"
    have key: "k' = camelize (dasherize t @ ''-value'') \<or> k' = ''has'' @ capitalize (camelize (dasherize t @ ''-value''))"
      using own that by (auto simp: propertiesForValueDefinitionPair_def parseValueDefinitionPair_def
          valueDescriptorForTokenAndType_def Let_def t_def split: sum.splits)
    obtain z where "z \<noteq> []" "camelize (dasherize t @ ''-value'') = z @ ''ue''"
      using camelize_value_end [of "dasherize t @ ''-va''"] by auto
    then show ?thesis using key capitalize_append [of z "''ue''"] by (auto simp: suffix_def)
  qed
  then show ?case using "2.IH" [OF own rest "2.prems"(2)] set_assign [of own properties] by auto
qed simp

section \<open>The targets of a blessed class\<close>

text \<open>The keys of a target with what they get.\<close>

definition target_keys :: "jsstr \<Rightarrow> (jsstr \<times> accessor) list" where
  "target_keys name =
     [(name @ ''Target'', TargetGet name), (name @ ''Targets'', TargetsGet name),
      (''has'' @ capitalize name @ ''Target'', TargetHas name)]"

lemma set_assign_new:
  "distinct (map_keys source) \<Longrightarrow> \<forall>k \<in> fst ` set source. \<not> map_has target k \<Longrightarrow>
   set (assign source target) = set source \<union> set target"
proof (induction source arbitrary: target)
  case (Cons p source)
  obtain k v where p: "p = (k, v)" by fastforce
  have new: "set_prop k v target = insert_prop k v target" using Cons.prems(2) by (simp add: set_prop_def p)
  have "assign (p # source) target = assign source (set_prop k v target)" by (simp add: assign_def p)
  moreover have "set (assign source (set_prop k v target)) = set source \<union> set (set_prop k v target)"
    by (rule Cons.IH) (use Cons.prems p in auto)
  ultimately show ?case by (simp add: new set_insert_prop p)
qed (simp add: assign_def)

lemma set_target_properties: "set (propertiesForTargetDefinition name) = (\<lambda>(k, f). (k, getter f)) ` set (target_keys name)"
proof -
  have "length (capitalize name) = length name" by (cases name) (simp_all add: capitalize_def)
  then have "name @ t \<noteq> ''has'' @ capitalize name @ t'" if "length t \<noteq> 3 + length t'" for t t'
    using that by (auto dest!: arg_cong [of _ _ length])
  from this [of "''Target''" "''Target''"] this [of "''Targets''" "''Target''"]
  have "distinct (map_keys (map (\<lambda>(k, f). (k, getter f)) (target_keys name)))"
    by (simp add: target_keys_def)
  from set_assign_new [OF this, of "[]"] show ?thesis
    by (simp add: propertiesForTargetDefinition_def target_keys_def)
qed

text \<open>No target is in the way of another.\<close>

definition targets_apart :: "jsstr list \<Rightarrow> bool" where
  "targets_apart names \<longleftrightarrow> distinct (map_keys (concat (map target_keys names)))"

lemma target_blessing:
  assumes "targets_apart (readInheritableStaticArrayValues ctor ''targets'')"
    and "name \<in> set (readInheritableStaticArrayValues ctor ''targets'')" and "(k, f) \<in> set (target_keys name)"
  shows "map_has (TargetPropertiesBlessing ctor) k"
    and "(k, d) \<in> set (TargetPropertiesBlessing ctor) \<Longrightarrow> d = getter f"
proof -
  let ?names = "readInheritableStaticArrayValues ctor ''targets''"
  have "k \<in> fst ` set (propertiesForTargetDefinition name)"
    using assms(3) unfolding set_target_properties by force
  then show "map_has (TargetPropertiesBlessing ctor) k"
    unfolding TargetPropertiesBlessing_def using assms(2) by (intro fold_assign_has) blast
  assume "(k, d) \<in> set (TargetPropertiesBlessing ctor)"
  then obtain name' f' where other: "name' \<in> set ?names" "(k, f') \<in> set (target_keys name')" "d = getter f'"
    using set_fold_assign [of propertiesForTargetDefinition ?names "[]"]
    unfolding TargetPropertiesBlessing_def by (auto simp: set_target_properties)
  then have "(k, f) \<in> set (concat (map target_keys ?names))" "(k, f') \<in> set (concat (map target_keys ?names))"
    using assms(2,3) by auto
  with assms(1) have "f = f'" unfolding targets_apart_def by (metis eq_key_imp_eq_value)
  then show "d = getter f" using other(3) by simp
qed

lemma target_suffix: "(k, f) \<in> set (target_keys name) \<Longrightarrow> suffix ''rget'' k \<or> suffix ''rgets'' k"
  by (auto simp: target_keys_def suffix_def)

lemma suffixes_apart:
  "suffix ''rget'' k \<or> suffix ''rgets'' k \<Longrightarrow> \<not> suffix ''lass'' k \<and> \<not> suffix ''ue'' k \<and> k \<noteq> ''valueDescriptorMap''"
  by (auto simp: suffix_def)

text \<open>The keys that no blessing makes.\<close>

definition unblessed :: "js_constructor \<Rightarrow> jsstr \<Rightarrow> bool" where
  "unblessed ctor k \<longleftrightarrow>
     \<not> suffix ''lass'' k \<and> \<not> suffix ''ue'' k \<and> k \<noteq> ''valueDescriptorMap'' \<and>
     k \<notin> set (map_keys (concat (map target_keys (readInheritableStaticArrayValues ctor ''targets''))))"

lemma class_free: "\<not> suffix ''lass'' k \<Longrightarrow> k \<notin> fst ` set (ClassPropertiesBlessing ctor)"
  using class_keys by force

lemma value_free:
  assumes "ValuePropertiesBlessing ctor = Inr ps" "\<not> suffix ''ue'' k" "k \<noteq> ''valueDescriptorMap''"
  shows "k \<notin> fst ` set ps"
  using assms value_keys unfolding ValuePropertiesBlessing_def Let_def by fastforce

lemma blessed_getter:
  assumes "getBlessedProperties ctor = Inr ps"
    and "targets_apart (readInheritableStaticArrayValues ctor ''targets'')"
    and "name \<in> set (readInheritableStaticArrayValues ctor ''targets'')" and "(k, f) \<in> set (target_keys name)"
  shows "map_get ps k = Some (getter f)"
proof -
  obtain vs where vals: "ValuePropertiesBlessing ctor = Inr vs"
      and ps: "ps = add_blessing vs
        (add_blessing (TargetPropertiesBlessing ctor) (add_blessing (ClassPropertiesBlessing ctor) []))"
    using assms(1) by (auto simp: getBlessedProperties_def split: sum.splits)
  note apart = suffixes_apart [OF target_suffix [OF assms(4)]]
  have "map_get (add_blessing (ClassPropertiesBlessing ctor) []) k = None"
    using add_blessing_other [OF class_free, of k ctor "[]"] apart by simp
  moreover have "k \<in> fst ` set (TargetPropertiesBlessing ctor)"
    using target_blessing(1) [OF assms(2-4)] by (simp add: map_of_eq_None_iff)
  ultimately have "map_get (add_blessing (TargetPropertiesBlessing ctor) (add_blessing (ClassPropertiesBlessing ctor) [])) k =
      Some (getter f)"
    by (intro add_blessing_getter target_blessing(2) [OF assms(2-4)]) simp_all
  then show ?thesis
    unfolding ps using add_blessing_other [OF value_free [OF vals]] apart by simp
qed

lemma blessed_other:
  assumes "getBlessedProperties ctor = Inr ps" and "unblessed ctor k"
  shows "map_get ps k = None"
proof -
  obtain vs where vals: "ValuePropertiesBlessing ctor = Inr vs"
      and ps: "ps = add_blessing vs
        (add_blessing (TargetPropertiesBlessing ctor) (add_blessing (ClassPropertiesBlessing ctor) []))"
    using assms(1) by (auto simp: getBlessedProperties_def split: sum.splits)
  have "k \<notin> fst ` set (TargetPropertiesBlessing ctor)"
    using set_fold_assign [of propertiesForTargetDefinition "readInheritableStaticArrayValues ctor ''targets''" "[]"]
      assms(2)
    unfolding TargetPropertiesBlessing_def unblessed_def set_target_properties by force
  then show ?thesis
    unfolding ps using assms(2) unfolding unblessed_def
    by (simp add: add_blessing_other value_free [OF vals] class_free)
qed

section \<open>The shadow\<close>

lemma distinct_blessed: "getBlessedProperties ctor = Inr ps \<Longrightarrow> distinct (map_keys ps)"
  by (auto simp: getBlessedProperties_def distinct_add_blessing split: sum.splits)

lemma shadow_get:
  assumes "distinct (map_keys ps)"
  shows "map_get (getShadowProperties prototype ps) k =
    (case map_get ps k of Some d \<Rightarrow> getShadowedDescriptor prototype (k, d) | None \<Rightarrow> None)"
proof -
  have "map_get (fold (\<lambda>p shadow. case getShadowedDescriptor prototype p of
          Some d \<Rightarrow> set_prop (fst p) d shadow | None \<Rightarrow> shadow) ps acc) k =
      (case map_get ps k of
         Some d \<Rightarrow> (case getShadowedDescriptor prototype (k, d) of Some d' \<Rightarrow> Some d' | None \<Rightarrow> map_get acc k)
       | None \<Rightarrow> map_get acc k)" for acc
    using assms
  proof (induction ps arbitrary: acc)
    case (Cons p ps)
    obtain k' d where p: "p = (k', d)" by fastforce
    then have "map_get ps k' = None" using Cons.prems by (simp add: map_of_eq_None_iff)
    then show ?case using Cons p by (auto split: option.splits)
  qed simp
  then show ?thesis by (simp add: getShadowProperties_def split: option.splits)
qed

text \<open>What a class itself defines under a name.\<close>

definition own_property :: "js_constructor \<Rightarrow> jsstr \<Rightarrow> descriptor option" where
  "own_property ctor k = (case ctor of c # _ \<Rightarrow> map_get (cl_prototype c) k | [] \<Rightarrow> None)"

lemma blessed_properties:
  assumes "bless ctor = Inr blessed"
  shows "\<And>name k f. targets_apart (readInheritableStaticArrayValues ctor ''targets'') \<Longrightarrow>
      name \<in> set (readInheritableStaticArrayValues ctor ''targets'') \<Longrightarrow> (k, f) \<in> set (target_keys name) \<Longrightarrow>
      property_of blessed k =
        (case own_property ctor k of
           None \<Rightarrow> Some (getter f)
         | Some own \<Rightarrow> Some (if d_value own \<noteq> None then own
             else \<lparr>d_value = None, d_get = (if d_get own = None then Some f else d_get own), d_set = d_set own\<rparr>))"
    and "\<And>k own. own_property ctor k = Some own \<Longrightarrow> d_value own \<noteq> None \<Longrightarrow> property_of blessed k = Some own"
    and "\<And>k. unblessed ctor k \<Longrightarrow> property_of blessed k = property_of ctor k"
proof -
  obtain ps where ps: "getBlessedProperties ctor = Inr ps" and blessed: "blessed = shadow ctor ps"
    using assms by (auto simp: bless_def split: sum.splits)
  define proto where "proto = (case ctor of c # _ \<Rightarrow> cl_prototype c | [] \<Rightarrow> [])"
  have own: "map_get proto k = own_property ctor k" for k
    by (simp add: proto_def own_property_def split: list.splits)
  have own_first: "own_property ctor k = Some d \<Longrightarrow> property_of ctor k = Some d" for k d
    by (cases ctor) (auto simp: own_property_def)
  have get: "property_of blessed k =
      (case map_get ps k of
         Some d \<Rightarrow> (case getShadowedDescriptor proto (k, d) of Some d' \<Rightarrow> Some d' | None \<Rightarrow> property_of ctor k)
       | None \<Rightarrow> property_of ctor k)" for k
    by (simp add: blessed shadow_def shadow_get [OF distinct_blessed [OF ps]] flip: proto_def split: option.splits)
  show "property_of blessed k =
        (case own_property ctor k of
           None \<Rightarrow> Some (getter f)
         | Some own \<Rightarrow> Some (if d_value own \<noteq> None then own
             else \<lparr>d_value = None, d_get = (if d_get own = None then Some f else d_get own), d_set = d_set own\<rparr>))"
    if "targets_apart (readInheritableStaticArrayValues ctor ''targets'')"
      "name \<in> set (readInheritableStaticArrayValues ctor ''targets'')" "(k, f) \<in> set (target_keys name)" for name k f
    using own_first [of k]
    by (auto simp: get blessed_getter [OF ps that] getShadowedDescriptor_def own getter_def split: option.splits)
  show "property_of blessed k = Some own" if "own_property ctor k = Some own" "d_value own \<noteq> None" for k own
    using that own_first [OF that(1)] by (auto simp: get getShadowedDescriptor_def own split: option.splits)
  show "property_of blessed k = property_of ctor k" if "unblessed ctor k" for k
    by (simp add: get blessed_other [OF ps that])
qed

text \<open>A class with a target of its own, an inherited one, and a method under the name of an accessor.\<close>

definition sample_class :: js_constructor where
  "sample_class =
     [\<lparr>cl_statics = [(''targets'', StaticArray [''name''])],
       cl_prototype = [(''hasNameTarget'', \<lparr>d_value = Some (OwnFunction ''hasNameTarget''), d_get = None, d_set = None\<rparr>)]\<rparr>,
      \<lparr>cl_statics = [(''targets'', StaticArray [''items''])],
       cl_prototype = [(''connect'', \<lparr>d_value = Some (OwnFunction ''connect''), d_get = None, d_set = None\<rparr>)]\<rparr>]"

lemma sample_class_facts:
  "getBlessedProperties sample_class \<noteq> Inl e"
  "readInheritableStaticArrayValues sample_class ''targets'' = [''items'', ''name'']"
  "targets_apart [''items'', ''name'']"
  "(''itemsTarget'', TargetGet ''items'') \<in> set (target_keys ''items'')"
  "own_property sample_class ''itemsTarget'' = None"
  "own_property sample_class ''hasNameTarget'' =
     Some \<lparr>d_value = Some (OwnFunction ''hasNameTarget''), d_get = None, d_set = None\<rparr>"
  "unblessed sample_class ''connect''"
  "property_of sample_class ''connect'' = Some \<lparr>d_value = Some (OwnFunction ''connect''), d_get = None, d_set = None\<rparr>"
  by code_simp+



end
