(* ===== verification/Gui_Classes.thy ===== *)
theory Gui_Classes
  imports Gui_World Stimulus_Blessed
begin

text \<open>
  The classes of main.js as stimulus.js gets them: their static targets, the methods and
  getters of their prototypes, and the base classes \<open>BaseElement\<close> and \<open>Controller\<close>. Blessing
  them gives each target its three properties and leaves the methods alone, so the
  properties \<open>this.xTarget\<close> that the methods read are those of the declared targets.
\<close>

section \<open>The classes\<close>

text \<open>A method is a property with a value, a getter one with a get function; the methods of every
  class include its constructor.\<close>

definition methods :: "jsstr list \<Rightarrow> properties" where
  "methods fs = map (\<lambda>f. (f, \<lparr>d_value = Some (OwnFunction f), d_get = None, d_set = None\<rparr>)) (''constructor'' # fs)"

definition getter_methods :: "jsstr list \<Rightarrow> properties" where
  "getter_methods = map (\<lambda>f. (f, getter (OwnFunction f)))"

definition Controller_class :: js_class where
  "Controller_class =
     \<lparr>cl_statics = [(''blessings'', StaticOther), (''targets'', StaticArray []), (''values'', StaticObject [])],
      cl_prototype = getter_methods [''application'', ''scope'', ''element'', ''identifier'', ''targets'',
         ''classes'', ''data''] @ methods [''initialize'', ''connect'', ''disconnect'']\<rparr>"

definition BaseElement_class :: js_class where
  "BaseElement_class =
     \<lparr>cl_statics = [], cl_prototype = methods [''checkInputs'', ''fetch''] @ getter_methods [''flash'', ''peerInfo'']\<rparr>"

definition Flash_class :: js_class where
  "Flash_class =
     \<lparr>cl_statics = [(''targets'', StaticArray
       [''wrapper''])],
      cl_prototype = methods [''printError'', ''printSuccess'', ''createFlash'']\<rparr>"

definition PeerInfo_class :: js_class where
  "PeerInfo_class =
     \<lparr>cl_statics = [(''targets'', StaticArray
       [''peerAddr'', ''socketAddr''])],
      cl_prototype = methods [''initialize'', ''getAPIURL'', ''getQueryArgs''] @ getter_methods [''flash'']\<rparr>"

definition Messaging_class :: js_class where
  "Messaging_class =
     \<lparr>cl_statics = [(''targets'', StaticArray
       [''holder'', ''messages''])],
      cl_prototype = methods [''addMsg'']\<rparr>"

definition Unicast_class :: js_class where
  "Unicast_class =
     \<lparr>cl_statics = [(''targets'', StaticArray
       [''message'', ''destination''])],
      cl_prototype = methods [''send''] @ getter_methods [''messagingController'']\<rparr>"

definition Routing_class :: js_class where
  "Routing_class =
     \<lparr>cl_statics = [(''targets'', StaticArray
       [''table'', ''graphviz'', ''peer'', ''origin'', ''relay''])],
      cl_prototype = methods [''initialize'', ''update'', ''addPeer'', ''setEntry'']\<rparr>"

definition Packets_class :: js_class where
  "Packets_class =
     \<lparr>cl_statics = [(''targets'', StaticArray
       [''follow'', ''holder'', ''scroll'', ''packets''])],
      cl_prototype = methods [''initialize'', ''packetMessage'', ''packetError'', ''packetsScroll''] @ getter_methods [''messagingController'']\<rparr>"

definition Broadcast_class :: js_class where
  "Broadcast_class =
     \<lparr>cl_statics = [(''targets'', StaticArray
       [''chatMessage'', ''privateMessage'', ''privateRecipients''])],
      cl_prototype = methods [''sendChat'', ''sendPrivate'']\<rparr>"

definition Catalog_class :: js_class where
  "Catalog_class =
     \<lparr>cl_statics = [(''targets'', StaticArray
       [''content'', ''key'', ''value''])],
      cl_prototype = methods [''initialize'', ''update'', ''add'']\<rparr>"

definition DataSharing_class :: js_class where
  "DataSharing_class =
     \<lparr>cl_statics = [(''targets'', StaticArray
       [''uploadResult'', ''fileUpload'', ''downloadMetahash''])],
      cl_prototype = methods [''upload'', ''download'', ''triggerDownload'']\<rparr>"

definition Search_class :: js_class where
  "Search_class =
     \<lparr>cl_statics = [(''targets'', StaticArray
       [''searchAllResult'', ''searchAllPattern'', ''searchAllBudget'',
       ''searchAllTimeout'', ''searchFirstResult'', ''searchFirstPattern'',
       ''searchFirstInitialBudget'', ''searchFirstFactor'', ''searchFirstRetry'',
       ''searchFirstTimeout''])],
      cl_prototype = methods [''searchAll'', ''searchFirst'']\<rparr>"

definition Naming_class :: js_class where
  "Naming_class =
     \<lparr>cl_statics = [(''targets'', StaticArray
       [''resolveResult'', ''resolveFilename'', ''tagFilename'', ''tagMetahash''])],
      cl_prototype = methods [''resolve'', ''tag'']\<rparr>"

text \<open>The controllers of \<open>main\<close>, each with the chain of its classes.\<close>

definition main_classes :: "(jsstr \<times> js_constructor) list" where
  "main_classes =
     [(''flash'', [Flash_class, Controller_class]),
      (''peerInfo'', [PeerInfo_class, Controller_class]),
      (''messaging'', [Messaging_class, BaseElement_class, Controller_class]),
      (''unicast'', [Unicast_class, BaseElement_class, Controller_class]),
      (''routing'', [Routing_class, BaseElement_class, Controller_class]),
      (''packets'', [Packets_class, BaseElement_class, Controller_class]),
      (''broadcast'', [Broadcast_class, BaseElement_class, Controller_class]),
      (''catalog'', [Catalog_class, BaseElement_class, Controller_class]),
      (''dataSharing'', [DataSharing_class, BaseElement_class, Controller_class]),
      (''search'', [Search_class, BaseElement_class, Controller_class]),
      (''naming'', [Naming_class, BaseElement_class, Controller_class])]"

lemmas class_defs = Controller_class_def BaseElement_class_def Flash_class_def PeerInfo_class_def Messaging_class_def Unicast_class_def Routing_class_def Packets_class_def Broadcast_class_def Catalog_class_def DataSharing_class_def Search_class_def Naming_class_def

section \<open>Their properties\<close>

text \<open>What keeps blessing from failing and the blessed properties out of each other's way.\<close>

definition plain_class :: "js_constructor \<Rightarrow> bool" where
  "plain_class ctor \<longleftrightarrow>
     readInheritableStaticObjectPairs ctor ''values'' = [] \<and>
     (let names = readInheritableStaticArrayValues ctor ''targets'';
          keys = map fst (concat (map target_keys names));
          members = concat (map (map fst \<circ> cl_prototype) ctor)
      in targets_apart names \<and>
         list_all (\<lambda>k. k \<notin> set keys \<and> \<not> suffix ''lass'' k \<and> \<not> suffix ''ue'' k \<and> k \<noteq> ''valueDescriptorMap'') members)"

lemma main_classes_plain: "list_all (\<lambda>(ident, ctor). plain_class ctor) main_classes"
  by code_simp

lemma main_classes_targets:
  "map (\<lambda>(ident, ctor). (ident, readInheritableStaticArrayValues ctor ''targets'')) main_classes = declared"
  by code_simp

text \<open>What holds of a class that was blessed well.\<close>

definition blessed_well :: "js_constructor \<Rightarrow> js_constructor \<Rightarrow> bool" where
  "blessed_well ctor blessed \<longleftrightarrow>
     list_all (\<lambda>name. list_all (\<lambda>(k, f). property_of blessed k = Some (getter f)) (target_keys name))
       (readInheritableStaticArrayValues ctor ''targets'') \<and>
     list_all (\<lambda>c. list_all (\<lambda>(k, d). property_of blessed k = property_of ctor k) (cl_prototype c)) ctor"

lemma plain_class_blessed:
  assumes "plain_class ctor"
  obtains blessed where "bless ctor = Inr blessed" "blessed_well ctor blessed"
proof -
  let ?names = "readInheritableStaticArrayValues ctor ''targets''"
  have no_values: "readInheritableStaticObjectPairs ctor ''values'' = []" and apart: "targets_apart ?names"
    and members: "\<And>c k d. c \<in> set ctor \<Longrightarrow> (k, d) \<in> set (cl_prototype c) \<Longrightarrow> unblessed ctor k"
    using assms by (force simp: plain_class_def Let_def list_all_iff unblessed_def)+
  have "\<exists>ps. getBlessedProperties ctor = Inr ps"
    by (simp add: getBlessedProperties_def ValuePropertiesBlessing_def no_values)
  then obtain blessed where blessed: "bless ctor = Inr blessed" by (auto simp: bless_def)
  have free: "own_property ctor k = None" if "name \<in> set ?names" "(k, f) \<in> set (target_keys name)" for name k f
  proof (rule ccontr)
    assume "own_property ctor k \<noteq> None"
    then obtain c d where "c \<in> set ctor" "(k, d) \<in> set (cl_prototype c)"
      by (auto simp: own_property_def dest: map_of_SomeD split: list.splits)
    from members [OF this] that show False by (force simp: unblessed_def)
  qed
  have "property_of blessed k = Some (getter f)" if "name \<in> set ?names" "(k, f) \<in> set (target_keys name)" for name k f
    using blessed_properties(1) [OF blessed apart that] free [OF that] by simp
  then have "blessed_well ctor blessed"
    using blessed_properties(3) [OF blessed members] by (fastforce simp: blessed_well_def list_all_iff)
  with blessed show thesis by (rule that)
qed

section \<open>Properties\<close>

text \<open>
  C26. The classes of main.js are blessed well. For each of the eleven controllers blessing its
  class succeeds; every declared target has the getters of its element, of all its elements
  and of whether there is one, and every method and getter of the class and of its base
  classes is still the one that an instance has. The targets are those that the model of
  the page provides (\<open>declared\<close>).
\<close>

theorem main_classes_blessed:
  "list_all (\<lambda>(ident, ctor). case bless ctor of Inl e \<Rightarrow> False | Inr blessed \<Rightarrow> blessed_well ctor blessed) main_classes \<and>
   map (\<lambda>(ident, ctor). (ident, readInheritableStaticArrayValues ctor ''targets'')) main_classes = declared"
proof
  have "case bless ctor of Inl e \<Rightarrow> False | Inr blessed \<Rightarrow> blessed_well ctor blessed" if "plain_class ctor" for ctor
    using plain_class_blessed [OF that] by (metis sum.simps(6))
  with main_classes_plain
  show "list_all (\<lambda>(ident, ctor). case bless ctor of Inl e \<Rightarrow> False | Inr blessed \<Rightarrow> blessed_well ctor blessed) main_classes"
    by (simp add: list_all_iff split_beta)
qed (rule main_classes_targets)

end
