(* ===== verification/Gui_Document.thy ===== *)
theory Gui_Document
  imports Stimulus_Action Gui_Classes
begin

text \<open>
  The page node.html on which main.js runs, as the browser parses it: its elements with the
  attributes that the scripts read (class, id and those of stimulus.js), attribute names
  in lower case and implied table elements included. It is checked against the classes of
  main.js: every declared target is there, every declared action names a method, and the
  page starts in a state that the properties of the controllers assume.
\<close>

section \<open>The document\<close>

type_synonym node = "Stimulus_Scope.element"

abbreviation node :: "nat \<Rightarrow> (jsstr \<times> jsstr) list \<Rightarrow> node list \<Rightarrow> node" where
  "node \<equiv> Stimulus_Scope.element.Element"

abbreviation node_id :: "node \<Rightarrow> nat" where
  "node_id \<equiv> Stimulus_Scope.element.el_id"

definition node_flash :: node where
  "node_flash =
    node 6 [(''data-controller'', ''flash''), (''id'', ''flash''), (''class'', ''flash'')]
     [node 7 [(''data-flash-target'', ''wrapper''), (''id'', ''flash-wrapper'')] []]"

definition node_peerInfo :: node where
  "node_peerInfo =
    node 10 [(''data-controller'', ''peerInfo''), (''id'', ''peerInfo''), (''class'', ''peer-info'')]
     [node 11 []
       [node 12 []
         [node 13 [] [],
          node 14 [(''data-peerinfo-target'', ''peerAddr'')] []],
        node 15 []
         [node 16 [] [],
          node 17 [(''data-peerinfo-target'', ''socketAddr'')] []]]]"

definition node_messaging :: node where
  "node_messaging =
    node 18 [(''data-controller'', ''messaging''), (''id'', ''messaging''), (''class'', ''messaging'')]
     [node 19 [(''class'', ''collapsible'')] [],
      node 20 [(''data-messaging-target'', ''holder''), (''class'', ''holder'')]
       [node 21 [(''data-messaging-target'', ''messages''), (''class'', ''chat-messages'')] []]]"

definition node_unicast :: node where
  "node_unicast =
    node 22 [(''class'', ''unicast''), (''data-controller'', ''unicast'')]
     [node 23 [(''class'', ''collapsible'')] [],
      node 24 []
       [node 25 [] [],
        node 26 [(''class'', ''unicast-chat-form'')]
         [node 27 [(''data-unicast-target'', ''message'')] [],
          node 28 [(''class'', ''message'')]
           [node 29 [(''data-unicast-target'', ''destination'')] [],
            node 30 [(''data-action'', ''click->unicast#send'')]
             [node 31 []
               [node 32 [] []]]]]]]"

definition node_broadcast :: node where
  "node_broadcast =
    node 33 [(''data-controller'', ''broadcast''), (''class'', ''broadcast'')]
     [node 34 [(''class'', ''collapsible'')] [],
      node 35 []
       [node 36 []
         [node 37 [] [],
          node 38 [(''class'', ''broadcast-chat-form'')]
           [node 39 [(''data-broadcast-target'', ''chatMessage'')] [],
            node 40 [(''data-action'', ''click->broadcast#sendChat'')]
             [node 41 []
               [node 42 [] []]]]],
        node 43 []
         [node 44 [] [],
          node 45 [(''class'', ''broadcast-chat-form'')]
           [node 46 [(''data-broadcast-target'', ''privateMessage'')] [],
            node 47 [(''class'', ''message'')]
             [node 48 [(''data-broadcast-target'', ''privateRecipients'')] [],
              node 49 [(''data-action'', ''click->broadcast#sendPrivate'')]
               [node 50 []
                 [node 51 [] []]]]]]]]"

definition node_routing :: node where
  "node_routing =
    node 52 [(''data-controller'', ''routing''), (''class'', ''routing'')]
     [node 53 [(''class'', ''collapsible'')] [],
      node 54 []
       [node 55 []
         [node 56 []
           [node 57 []
             [node 58 [] [],
              node 59 [] []]],
          node 60 [(''data-routing-target'', ''table'')] []],
        node 61 [(''class'', ''collapsible sub'')] [],
        node 62 [(''data-routing-target'', ''graphviz''), (''class'', ''graphviz'')] [],
        node 63 [(''data-action'', ''click->routing#update'')]
         [node 64 []
           [node 65 [] []]],
        node 66 [] [],
        node 67 [(''class'', ''add-peer'')]
         [node 68 [(''data-routing-target'', ''peer'')] [],
          node 69 [(''data-action'', ''click->routing#addPeer'')]
           [node 70 []
             [node 71 [] []]]],
        node 72 [] [],
        node 73 [(''class'', ''set-entry'')]
         [node 74 [(''data-routing-target'', ''origin'')] [],
          node 75 [(''data-routing-target'', ''relay'')] [],
          node 76 [(''data-action'', ''click->routing#setEntry'')]
           [node 77 []
             [node 78 [] []]]]]]"

definition node_catalog :: node where
  "node_catalog =
    node 79 [(''data-controller'', ''catalog''), (''class'', ''catalog'')]
     [node 80 [(''class'', ''collapsible'')] [],
      node 81 []
       [node 82 [(''data-catalog-target'', ''content''), (''class'', ''content'')] [],
        node 83 [(''data-action'', ''click->catalog#update'')]
         [node 84 []
           [node 85 [] []]],
        node 86 [] [],
        node 87 [(''class'', ''add-catalog-entry'')]
         [node 88 [(''data-catalog-target'', ''key'')] [],
          node 89 [(''data-catalog-target'', ''value'')] [],
          node 90 [(''data-action'', ''click->catalog#add'')]
           [node 91 []
             [node 92 [] []]]]]]"

definition node_dataSharing :: node where
  "node_dataSharing =
    node 93 [(''data-controller'', ''dataSharing''), (''class'', ''data'')]
     [node 94 [(''class'', ''collapsible'')] [],
      node 95 []
       [node 96 [] [],
        node 97 [(''data-datasharing-target'', ''uploadResult''), (''class'', ''upload-result'')] [],
        node 98 [(''data-datasharing-target'', ''fileUpload'')] [],
        node 99 [(''data-action'', ''click->dataSharing#upload'')]
         [node 100 []
           [node 101 [] []]],
        node 102 [] [],
        node 103 [(''data-datasharing-target'', ''downloadMetahash'')] [],
        node 104 [(''data-action'', ''click->dataSharing#download'')]
         [node 105 []
           [node 106 [] []]]]]"

definition node_search :: node where
  "node_search =
    node 107 [(''data-controller'', ''search''), (''class'', ''search'')]
     [node 108 [(''class'', ''collapsible'')] [],
      node 109 []
       [node 110 [] [],
        node 111 [(''data-search-target'', ''searchAllResult''), (''class'', ''search-all-result'')] [],
        node 112 [(''data-search-target'', ''searchAllPattern'')] [],
        node 113 [(''data-search-target'', ''searchAllBudget'')] [],
        node 114 [(''data-search-target'', ''searchAllTimeout'')] [],
        node 115 [(''data-action'', ''click->search#searchAll'')]
         [node 116 []
           [node 117 [] []]],
        node 118 [] [],
        node 119 [(''data-search-target'', ''searchFirstResult''), (''class'', ''search-first-result'')] [],
        node 120 [(''data-search-target'', ''searchFirstPattern'')] [],
        node 121 [(''data-search-target'', ''searchFirstInitialBudget'')] [],
        node 122 [(''data-search-target'', ''searchFirstFactor'')] [],
        node 123 [(''data-search-target'', ''searchFirstRetry'')] [],
        node 124 [(''data-search-target'', ''searchFirstTimeout'')] [],
        node 125 [(''data-action'', ''click->search#searchFirst'')]
         [node 126 []
           [node 127 [] []]]]]"

definition node_naming :: node where
  "node_naming =
    node 128 [(''data-controller'', ''naming''), (''class'', ''naming'')]
     [node 129 [(''class'', ''collapsible'')] [],
      node 130 []
       [node 131 [] [],
        node 132 [(''data-naming-target'', ''resolveResult''), (''class'', ''result'')] [],
        node 133 [(''data-naming-target'', ''resolveFilename'')] [],
        node 134 [(''data-action'', ''click->naming#resolve'')]
         [node 135 []
           [node 136 [] []]],
        node 137 [] [],
        node 138 [(''data-naming-target'', ''tagFilename'')] [],
        node 139 [(''data-naming-target'', ''tagMetahash'')] [],
        node 140 [(''data-action'', ''click->naming#tag'')]
         [node 141 []
           [node 142 [] []]]]]"

definition node_packets :: node where
  "node_packets =
    node 143 [(''data-controller'', ''packets''), (''class'', ''packets-holder'')]
     [node 144 [(''class'', ''active collapsible'')] [],
      node 145 [(''class'', ''checkbox'')]
       [node 146 [(''data-packets-target'', ''follow''), (''id'', ''follow-checkbox'')] [],
        node 147 [] []],
      node 148 []
       [node 149 [(''data-packets-target'', ''holder''), (''class'', ''packets-top-scroll-holder'')]
         [node 150 [(''data-packets-target'', ''scroll'')] []],
        node 151 [(''data-packets-target'', ''packets''), (''class'', ''packets'')] []]]"

definition node_page :: node where
  "node_page =
    node 0 []
     [node 1 []
      [node 2 [] [],
       node 3 [] [],
       node 4 [] []],
      node 5 []
       [node_flash,
        node 8 []
         [node 9 [] []],
        node_peerInfo,
        node_messaging,
        node_unicast,
        node_broadcast,
        node_routing,
        node_catalog,
        node_dataSharing,
        node_search,
        node_naming,
        node_packets,
        node 152 [] [],
        node 153 [] [],
        node 154 [] [],
        node 155 [] [],
        node 156 [] []]]"

section \<open>What the scripts find in it\<close>

text \<open>The scope of a controller on an element, and exactly one element for a target.\<close>

definition one_target :: "node \<Rightarrow> nat \<Rightarrow> jsstr \<Rightarrow> jsstr \<Rightarrow> bool" where
  "one_target doc holder ident name =
     (case fst (ts_findAll defaultSchema doc \<lparr>sc_element = holder, sc_identifier = ident\<rparr> [name] new_guide) of
        Inr [e] \<Rightarrow> True
      | _ \<Rightarrow> False)"

text \<open>The elements on which a controller is connected.\<close>

definition controller_elements :: "node \<Rightarrow> jsstr \<Rightarrow> node list" where
  "controller_elements doc ident = filter (has_token ''data-controller'' ident) (elements doc)"

definition targets_complete :: "node \<Rightarrow> jsstr \<times> js_constructor \<Rightarrow> bool" where
  "targets_complete doc = (\<lambda>(ident, ctor).
     case controller_elements doc ident of
       [holder] \<Rightarrow> list_all (one_target doc (node_id holder) ident) (readInheritableStaticArrayValues ctor ''targets'')
     | _ \<Rightarrow> False)"

text \<open>The descriptors of the actions, with their elements.\<close>

definition descriptors :: "jsstr \<Rightarrow> action_descriptor list" where
  "descriptors v = map parseActionDescriptorString (filter (\<lambda>w. w \<noteq> []) (split_when is_css_ws v))"

definition page_actions :: "node \<Rightarrow> (node \<times> action_descriptor) list" where
  "page_actions doc = concat (map (\<lambda>e.
     case Stimulus_Scope.getAttribute ''data-action'' e of
       Some v \<Rightarrow> map (Pair e) (descriptors v)
     | None \<Rightarrow> []) (elements doc))"

text \<open>
  A descriptor of a click that names a method of the class of its controller in main.js, and an
  action with such a descriptor below the element of that controller.
\<close>

definition descriptor_fits :: "jsstr \<Rightarrow> action_descriptor \<Rightarrow> bool" where
  "descriptor_fits ident d \<longleftrightarrow>
     d_eventName d = Some ''click'' \<and> d_eventTarget d = None \<and> d_identifier d = Some ident \<and>
     (case (map_get main_classes ident, d_methodName d) of
        (Some ctor, Some m) \<Rightarrow> (case own_property ctor m of Some p \<Rightarrow> d_value p \<noteq> None | None \<Rightarrow> False)
      | _ \<Rightarrow> False)"

definition action_fits :: "node \<Rightarrow> node \<times> action_descriptor \<Rightarrow> bool" where
  "action_fits doc = (\<lambda>(e, d).
     case d_identifier d of
       Some ident \<Rightarrow> descriptor_fits ident d \<and> closest (has_token ''data-controller'' ident) doc (node_id e) \<noteq> None
     | None \<Rightarrow> False)"

text \<open>The handlers that a click starts, in the order of the page, and what their actions name.\<close>

definition click_handlers :: "(handler \<times> jsstr \<times> jsstr) list" where
  "click_handlers =
     [(UnicastSend, ''unicast'', ''send''),
      (BroadcastSendChat, ''broadcast'', ''sendChat''),
      (BroadcastSendPrivate, ''broadcast'', ''sendPrivate''),
      (RoutingUpdate, ''routing'', ''update''),
      (RoutingAddPeer, ''routing'', ''addPeer''),
      (RoutingSetEntry, ''routing'', ''setEntry''),
      (CatalogUpdate, ''catalog'', ''update''),
      (CatalogAdd, ''catalog'', ''add''),
      (DataSharingUpload, ''dataSharing'', ''upload''),
      (DataSharingDownload, ''dataSharing'', ''download''),
      (SearchAll, ''search'', ''searchAll''),
      (SearchFirst, ''search'', ''searchFirst''),
      (NamingResolve, ''naming'', ''resolve''),
      (NamingTag, ''naming'', ''tag'')]"

fun next_pairs :: "node list \<Rightarrow> (nat \<times> nat option) list" where
  "next_pairs [] = []"
| "next_pairs [x] = [(node_id x, None)]"
| "next_pairs (x # y # zs) = (node_id x, Some (node_id y)) # next_pairs (y # zs)"

text \<open>\<open>nextElementSibling\<close>, and the sections that \<open>initCollapsible\<close> finds.\<close>

definition siblings :: "node \<Rightarrow> (nat \<times> nat option) list" where
  "siblings r = concat (map (next_pairs \<circ> el_children) (elements r))"

definition nextElementSibling :: "node \<Rightarrow> nat \<Rightarrow> nat option" where
  "nextElementSibling doc n = (case map_get (siblings doc) n of Some nx \<Rightarrow> nx | None \<Rightarrow> None)"

definition class_tokens :: "jsstr \<Rightarrow> jsstr list" where
  "class_tokens v = fold set_add (filter (\<lambda>w. w \<noteq> []) (split_when is_css_ws v)) []"

definition class_list :: "node \<Rightarrow> jsstr jsset" where
  "class_list e = (case Stimulus_Scope.getAttribute ''class'' e of Some v \<Rightarrow> class_tokens v | None \<Rightarrow> [])"

definition page_sections :: "node \<Rightarrow> sections" where
  "page_sections doc =
     \<lparr>sc_coll = map (\<lambda>e. \<lparr>cl_classes = class_list e, cl_next = nextElementSibling doc (node_id e), cl_listeners = 0\<rparr>)
        (filter (\<lambda>e. ''collapsible'' \<in> set (class_list e)) (elements doc)),
      sc_display = (\<lambda>_. [])\<rparr>"

text \<open>\<open>document.getElementById\<close>, and whether the controller is on the element with its name as id.\<close>

definition getElementById :: "node \<Rightarrow> jsstr \<Rightarrow> node option" where
  "getElementById doc i = find (\<lambda>e. Stimulus_Scope.getAttribute ''id'' e = Some i) (elements doc)"

definition named_controller :: "node \<Rightarrow> jsstr \<Rightarrow> bool" where
  "named_controller doc i =
     (case getElementById doc i of Some e \<Rightarrow> has_token ''data-controller'' i e | None \<Rightarrow> False)"

text \<open>
  The page when \<open>main\<close> starts: the targets that the controllers find, seen with \<open>view\<close> (their
  values and what else the browser has of them), and no message, request or timer yet.
\<close>

definition document_targets :: "node \<Rightarrow> (target \<times> node) list" where
  "document_targets doc = concat (map (\<lambda>(ident, ctor).
     case controller_elements doc ident of
       holder # _ \<Rightarrow> concat (map (\<lambda>name.
         case fst (ts_findAll defaultSchema doc \<lparr>sc_element = node_id holder, sc_identifier = ident\<rparr> [name] new_guide) of
           Inr (e # _) \<Rightarrow> [((ident, name), e)]
         | _ \<Rightarrow> []) (readInheritableStaticArrayValues ctor ''targets''))
     | [] \<Rightarrow> []) main_classes)"

definition start_page :: "(node \<Rightarrow> target_element) \<Rightarrow> jsstr \<Rightarrow> nat \<Rightarrow> node \<Rightarrow> page" where
  "start_page view search now doc =
     \<lparr>pg_targets = map (\<lambda>(t, e). (t, view e)) (document_targets doc),
      pg_controllers = filter (named_controller doc) (map fst main_classes),
      pg_search = search, pg_endpoint = None, pg_socketAddr = None, pg_now = now,
      pg_flashes = [], pg_timers = [], pg_next = 0, pg_shown = [], pg_requests = [],
      pg_sources = [], pg_downloads = [], pg_unhandled = []\<rparr>"

section \<open>Evaluation\<close>

definition values_of :: "jsstr \<Rightarrow> node \<Rightarrow> jsstr list" where
  "values_of name r = List.map_filter (Stimulus_Scope.getAttribute name) (elements r)"

lemma lower_names:
  "lower ''data-controller'' = ''data-controller''"
  "lower ''data-action'' = ''data-action''"
  "lower ''data-target'' = ''data-target''"
  "lower ''class'' = ''class''"
  "lower ''id'' = ''id''"
  "lower ''data-flash-target'' = ''data-flash-target''"
  "lower ''data-peerInfo-target'' = ''data-peerinfo-target''"
  "lower ''data-messaging-target'' = ''data-messaging-target''"
  "lower ''data-unicast-target'' = ''data-unicast-target''"
  "lower ''data-broadcast-target'' = ''data-broadcast-target''"
  "lower ''data-routing-target'' = ''data-routing-target''"
  "lower ''data-catalog-target'' = ''data-catalog-target''"
  "lower ''data-dataSharing-target'' = ''data-datasharing-target''"
  "lower ''data-search-target'' = ''data-search-target''"
  "lower ''data-naming-target'' = ''data-naming-target''"
  "lower ''data-packets-target'' = ''data-packets-target''"
  by code_simp+

lemmas attribute_simps = Stimulus_Scope.getAttribute_def lower_names values_of_def List.map_filter_simps

lemma values_node:
  "values_of a (node i as cs) = (case map_get as (lower a) of Some v \<Rightarrow> [v] | None \<Rightarrow> []) @ concat (map (values_of a) cs)"
proof -
  have append: "List.map_filter f (concat (map elements cs)) = concat (map (List.map_filter f \<circ> elements) cs)"
    for f :: "node \<Rightarrow> jsstr option"
    by (induction cs) (simp_all add: List.map_filter_def)
  show ?thesis
    by (simp add: values_of_def [abs_def] Stimulus_Scope.getAttribute_def List.map_filter_simps append comp_def
        split: option.splits)
qed

lemma values_flash:
  "values_of ''data-flash-target'' node_flash = [''wrapper'']"
  "values_of ''data-action'' node_flash = []"
  by (simp_all add: values_node lower_names node_flash_def)

lemma values_peerInfo:
  "values_of ''data-peerInfo-target'' node_peerInfo = [''peerAddr'', ''socketAddr'']"
  "values_of ''data-action'' node_peerInfo = []"
  by (simp_all add: values_node lower_names node_peerInfo_def)

lemma values_messaging:
  "values_of ''data-messaging-target'' node_messaging = [''holder'', ''messages'']"
  "values_of ''data-action'' node_messaging = []"
  by (simp_all add: values_node lower_names node_messaging_def)

lemma values_unicast:
  "values_of ''data-unicast-target'' node_unicast = [''message'', ''destination'']"
  "values_of ''data-action'' node_unicast = [''click->unicast#send'']"
  by (simp_all add: values_node lower_names node_unicast_def)

lemma values_broadcast:
  "values_of ''data-broadcast-target'' node_broadcast = [''chatMessage'', ''privateMessage'', ''privateRecipients'']"
  "values_of ''data-action'' node_broadcast = [''click->broadcast#sendChat'', ''click->broadcast#sendPrivate'']"
  by (simp_all add: values_node lower_names node_broadcast_def)

lemma values_routing:
  "values_of ''data-routing-target'' node_routing = [''table'', ''graphviz'', ''peer'', ''origin'', ''relay'']"
  "values_of ''data-action'' node_routing = [''click->routing#update'', ''click->routing#addPeer'', ''click->routing#setEntry'']"
  by (simp_all add: values_node lower_names node_routing_def)

lemma values_catalog:
  "values_of ''data-catalog-target'' node_catalog = [''content'', ''key'', ''value'']"
  "values_of ''data-action'' node_catalog = [''click->catalog#update'', ''click->catalog#add'']"
  by (simp_all add: values_node lower_names node_catalog_def)

lemma values_dataSharing:
  "values_of ''data-dataSharing-target'' node_dataSharing = [''uploadResult'', ''fileUpload'', ''downloadMetahash'']"
  "values_of ''data-action'' node_dataSharing = [''click->dataSharing#upload'', ''click->dataSharing#download'']"
  by (simp_all add: values_node lower_names node_dataSharing_def)

lemma values_search:
  "values_of ''data-search-target'' node_search = [''searchAllResult'', ''searchAllPattern'', ''searchAllBudget'', ''searchAllTimeout'', ''searchFirstResult'', ''searchFirstPattern'', ''searchFirstInitialBudget'', ''searchFirstFactor'', ''searchFirstRetry'', ''searchFirstTimeout'']"
  "values_of ''data-action'' node_search = [''click->search#searchAll'', ''click->search#searchFirst'']"
  by (simp_all add: values_node lower_names node_search_def)

lemma values_naming:
  "values_of ''data-naming-target'' node_naming = [''resolveResult'', ''resolveFilename'', ''tagFilename'', ''tagMetahash'']"
  "values_of ''data-action'' node_naming = [''click->naming#resolve'', ''click->naming#tag'']"
  by (simp_all add: values_node lower_names node_naming_def)

lemma values_packets:
  "values_of ''data-packets-target'' node_packets = [''follow'', ''holder'', ''scroll'', ''packets'']"
  "values_of ''data-action'' node_packets = []"
  by (simp_all add: values_node lower_names node_packets_def)

lemmas node_defs = node_page_def node_flash_def node_peerInfo_def node_messaging_def node_unicast_def
  node_broadcast_def node_routing_def node_catalog_def node_dataSharing_def node_search_def node_naming_def
  node_packets_def

lemma parts_flash: "values_of ''data-controller'' node_flash = [''flash'']" "values_of ''data-target'' node_flash = []"
  by (simp_all add: values_node lower_names node_flash_def)

lemma parts_peerInfo: "values_of ''data-controller'' node_peerInfo = [''peerInfo'']" "values_of ''data-target'' node_peerInfo = []"
  by (simp_all add: values_node lower_names node_peerInfo_def)

lemma parts_messaging: "values_of ''data-controller'' node_messaging = [''messaging'']" "values_of ''data-target'' node_messaging = []"
  by (simp_all add: values_node lower_names node_messaging_def)

lemma parts_unicast: "values_of ''data-controller'' node_unicast = [''unicast'']" "values_of ''data-target'' node_unicast = []"
  by (simp_all add: values_node lower_names node_unicast_def)

lemma parts_broadcast: "values_of ''data-controller'' node_broadcast = [''broadcast'']" "values_of ''data-target'' node_broadcast = []"
  by (simp_all add: values_node lower_names node_broadcast_def)

lemma parts_routing: "values_of ''data-controller'' node_routing = [''routing'']" "values_of ''data-target'' node_routing = []"
  by (simp_all add: values_node lower_names node_routing_def)

lemma parts_catalog: "values_of ''data-controller'' node_catalog = [''catalog'']" "values_of ''data-target'' node_catalog = []"
  by (simp_all add: values_node lower_names node_catalog_def)

lemma parts_dataSharing: "values_of ''data-controller'' node_dataSharing = [''dataSharing'']" "values_of ''data-target'' node_dataSharing = []"
  by (simp_all add: values_node lower_names node_dataSharing_def)

lemma parts_search: "values_of ''data-controller'' node_search = [''search'']" "values_of ''data-target'' node_search = []"
  by (simp_all add: values_node lower_names node_search_def)

lemma parts_naming: "values_of ''data-controller'' node_naming = [''naming'']" "values_of ''data-target'' node_naming = []"
  by (simp_all add: values_node lower_names node_naming_def)

lemma parts_packets: "values_of ''data-controller'' node_packets = [''packets'']" "values_of ''data-target'' node_packets = []"
  by (simp_all add: values_node lower_names node_packets_def)

lemmas parts = parts_flash parts_peerInfo parts_messaging parts_unicast parts_broadcast parts_routing parts_catalog parts_dataSharing parts_search parts_naming parts_packets

lemma values_page:
  "values_of ''data-controller'' node_page =
     [''flash'', ''peerInfo'', ''messaging'', ''unicast'', ''broadcast'', ''routing'', ''catalog'', ''dataSharing'',
      ''search'', ''naming'', ''packets'']"
  "values_of ''data-target'' node_page = []"
  by (simp_all add: node_page_def values_node lower_names parts)

lemma ids_node: "map node_id (elements (node i as cs)) = i # concat (map (\<lambda>c. map node_id (elements c)) cs)"
  by (simp add: map_concat comp_def)

lemma ids_page: "map node_id (elements node_page) = [0..<157]"
proof -
  have "map node_id (elements node_page) = [0..<157] \<longleftrightarrow> True"
    by (simp add: node_defs ids_node upt_rec del: elements.simps)
  then show ?thesis by simp
qed

lemma node_page_ok: "document_ok node_page"
  by (simp add: document_ok_def ids_page)

end
