(* ===== verification/Gui_Document_Fit.thy ===== *)
theory Gui_Document_Fit
  imports Gui_Document
begin

text \<open>
  The page node.html fits the classes of main.js: evaluated over the tree of Gui_Document,
  with the lemmas of Stimulus_Scope on what \<open>TargetSet\<close> finds in any document. An attribute
  whose values are plain words, each once, has one element for each of them; the only
  element of a controller is the closest one for all that is below it; so its targets are
  the elements below it with the value, and the model of a lookup finds exactly them.
\<close>

section \<open>One element for each value\<close>

lemma set_map_filter: "v \<in> set (List.map_filter f es) \<longleftrightarrow> (\<exists>x \<in> set es. f x = Some v)"
  by (induction es) (auto split: option.splits)

definition plain_word :: "jsstr \<Rightarrow> bool" where
  "plain_word w \<longleftrightarrow> w \<noteq> [] \<and> list_all (\<lambda>c. \<not> is_css_ws c) w"

lemma split_plain: "list_all (\<lambda>c. \<not> is_css_ws c) w \<Longrightarrow> split_when is_css_ws w = [w]"
  by (induction w) auto

lemma filter_one:
  assumes "distinct (List.map_filter f es)" and "v \<in> set (List.map_filter f es)"
  shows "\<exists>e. filter (\<lambda>e. f e = Some v) es = [e] \<and> e \<in> set es"
  using assms
proof (induction es)
  case (Cons e es)
  then show ?case by (cases "f e") (auto simp: set_map_filter filter_empty_conv split: if_splits)
qed simp

lemma token_of_value:
  assumes "list_all plain_word (values_of a r)" and "e \<in> set (elements r)" and "w \<noteq> []"
  shows "has_token a w e \<longleftrightarrow> Stimulus_Scope.getAttribute a e = Some w"
proof (cases "Stimulus_Scope.getAttribute a e")
  case (Some v)
  with assms(1,2) have "plain_word v" by (auto simp: values_of_def list_all_iff set_map_filter)
  with Some assms(3) show ?thesis by (auto simp: has_token_def plain_word_def split_plain)
qed (simp add: has_token_def)

lemma one_value:
  assumes "list_all plain_word (values_of a r)" and "distinct (values_of a r)" and "w \<in> set (values_of a r)"
  shows "\<exists>e. filter (has_token a w) (elements r) = [e] \<and> e \<in> set (elements r)"
proof -
  have "w \<noteq> []" using assms(1,3) by (auto simp: list_all_iff plain_word_def)
  then have "filter (has_token a w) (elements r) = filter (\<lambda>e. Stimulus_Scope.getAttribute a e = Some w) (elements r)"
    by (intro filter_cong refl token_of_value [OF assms(1)])
  with filter_one [OF assms(2,3) [unfolded values_of_def]] show ?thesis by simp
qed

section \<open>The only element of a controller\<close>

lemma ancestors_child:
  assumes "document_ok (node i as cs)" and "c \<in> set cs" and "e \<in> set (elements c)"
  shows "ancestors (node_id e) (node i as cs) = ancestors (node_id e) c @ [node i as cs]"
proof -
  obtain cs1 cs2 where cs: "cs = cs1 @ c # cs2" using assms(2) by (metis split_list)
  have here: "node_id e \<in> set (map node_id (elements c))" using assms(3) by simp
  have "set (map node_id (concat (map elements cs1))) \<inter> set (map node_id (elements c)) = {}"
    using assms(1) by (simp add: document_ok_def cs map_concat) blast
  moreover have "i \<notin> set (map node_id (elements c))"
    using assms(1) by (simp add: document_ok_def cs map_concat)
  ultimately have apart: "node_id e \<notin> set (map node_id (concat (map elements cs1)))" "node_id e \<noteq> i" using here by blast+
  have "ancestors (node_id e) d = []" if "d \<in> set cs1" for d
    using apart(1) that by (intro ancestors_absent) auto
  then have "find (\<lambda>p. p \<noteq> []) (map (ancestors (node_id e)) cs1) = None" by (auto simp: find_None_iff)
  moreover have "ancestors (node_id e) c \<noteq> []"
    using ancestors_sound [OF document_ok_child [OF assms(1,2)] assms(3)] by blast
  ultimately show ?thesis using apart(2) by (simp add: cs find_append)
qed

lemma ancestors_complete:
  assumes "document_ok doc" and "r \<in> set (elements doc)" and "e \<in> set (elements r)"
  shows "r \<in> set (ancestors (node_id e) doc)"
  using assms
proof (induction doc rule: elements.induct)
  case (1 i as cs)
  show ?case
  proof (cases "r = node i as cs")
    case True
    show ?thesis
    proof (cases "e = node i as cs")
      case False
      with True "1.prems"(3) obtain c where "c \<in> set cs" "e \<in> set (elements c)" by auto
      from ancestors_child [OF "1.prems"(1) this] True show ?thesis by simp
    qed (simp add: True)
  next
    case False
    with "1.prems"(2) obtain c where c: "c \<in> set cs" "r \<in> set (elements c)" by auto
    obtain xs ys where "elements c = xs @ elements r @ ys" using elements_split [OF c(2)] by blast
    then have "e \<in> set (elements c)" using "1.prems"(3) by simp
    with "1.IH" [OF c(1) document_ok_child [OF "1.prems"(1) c(1)] c(2) "1.prems"(3)]
      ancestors_child [OF "1.prems"(1) c(1)] show ?thesis by simp
  qed
qed

lemma closest_only:
  assumes "document_ok doc" and "filter P (elements doc) = [r]" and "e \<in> set (elements r)"
  shows "closest P doc (node_id e) = Some r"
proof -
  have all: "set (filter P (elements doc)) = {r}" using assms(2) by simp
  then have r: "r \<in> set (elements doc)" "P r" by auto
  have only: "x = r" if "x \<in> set (elements doc)" "P x" for x
  proof -
    have "x \<in> set (filter P (elements doc))" using that by simp
    then show ?thesis unfolding all by simp
  qed
  obtain xs ys where "elements doc = xs @ elements r @ ys" using elements_split [OF r(1)] by blast
  then have e: "e \<in> set (elements doc)" using assms(3) by simp
  have "r \<in> set (ancestors (node_id e) doc)" by (rule ancestors_complete [OF assms(1) r(1) assms(3)])
  with r(2) obtain x where x: "closest P doc (node_id e) = Some x"
    by (cases "closest P doc (node_id e)") (auto simp: closest_def find_None_iff)
  from closest_sound [OF assms(1) e this] only show ?thesis using x by blast
qed

section \<open>Targets\<close>

lemma controller_facts:
  assumes "controller_elements doc ident = [r]"
  shows "r \<in> set (elements doc)" and "has_token ''data-controller'' ident r"
  using arg_cong [OF assms, of set] by (auto simp: controller_elements_def)

lemma owned_below:
  assumes "document_ok doc" and "controller_elements doc (sc_identifier sc) = [r]" and "node_id r = sc_element sc"
  shows "filter (\<lambda>e. m e \<and> containsElement defaultSchema doc sc (controls defaultSchema sc) e) (elements doc) =
    filter m (elements r)"
proof -
  have only: "filter (controls defaultSchema sc) (elements doc) = [r]"
    using assms(2) by (simp add: controller_elements_def controls_def [abs_def] defaultSchema_def)
  from arg_cong [OF this, of set] have r: "r \<in> set (elements doc)" by auto
  have "containsElement defaultSchema doc sc (controls defaultSchema sc) e" if "e \<in> set (elements r)" for e
    using closest_only [OF assms(1) only that] assms(3) by (simp add: containsElement_def)
  then show ?thesis
    unfolding filter_owned [OF assms(1) r assms(3)] by (intro filter_cong refl) auto
qed

text \<open>Words of a controller and of its targets that need no quoting and occur once.\<close>

definition words_ok :: "jsstr \<Rightarrow> jsstr list \<Rightarrow> bool" where
  "words_ok ident names \<longleftrightarrow>
     list_all name_char ident \<and> list_all (\<lambda>n. list_all name_char n \<and> plain_word n) names \<and> distinct names"

lemma no_values: "values_of a r = [] \<Longrightarrow> filter (has_token a w) (elements r) = []"
  unfolding filter_empty_conv using set_map_filter [of _ "Stimulus_Scope.getAttribute a" "elements r"]
  by (auto simp: values_of_def has_token_def split: option.splits)

lemma attributes_ok:
  "attribute_name_ok (controllerAttribute defaultSchema)" "attribute_name_ok (targetAttribute defaultSchema)"
  by code_simp+

lemma part_target:
  assumes "document_ok doc" and "controller_elements doc ident = [r]" and "values_of ''data-target'' r = []"
    and "values_of (''data-'' @ ident @ ''-target'') r = names" and "words_ok ident names" and "name \<in> set names"
  shows "one_target doc (node_id r) ident name"
proof -
  let ?sc = "\<lparr>sc_element = node_id r, sc_identifier = ident\<rparr>" and ?a = "''data-'' @ ident @ ''-target''"
  note words = assms(5) [unfolded words_ok_def]
  note r = controller_facts [OF assms(2)]
  have "scope_ok defaultSchema doc ?sc"
    using assms(1) r by (auto simp: scope_ok_def controls_def defaultSchema_def)
  moreover have "names_ok defaultSchema ?sc [name]"
    using words assms(6) list_all_name_char_plain [of name] by (auto simp: names_ok_def attributes_ok list_all_iff)
  ultimately have found: "fst (ts_findAll defaultSchema doc ?sc [name] new_guide) = Inr (owned_targets defaultSchema doc ?sc name)"
    using findAll_reduce_spec [of defaultSchema doc ?sc "[name]" "[]" new_guide] by (simp add: ts_findAll_def)
  have "sc_identifier ?sc = ident" and "sc_element ?sc = node_id r" by simp_all
  with assms(2) have below: "filter (\<lambda>e. m e \<and> owned defaultSchema doc ?sc e) (elements doc) = filter m (elements r)" for m
    by (intro owned_below [OF assms(1)]) simp_all
  have attributes: "target_attribute ?sc = ?a" "targetAttribute defaultSchema = ''data-target''"
    by (simp_all add: target_attribute_def defaultSchema_def)
  have "owned_targets defaultSchema doc ?sc name = filter (has_token ?a name) (elements r)"
    unfolding owned_targets_def below attributes no_values [OF assms(3)] by simp
  moreover obtain e where "filter (has_token ?a name) (elements r) = [e]"
    using one_value [of ?a r name] words assms(4,6) by (auto simp: list_all_iff)
  ultimately show ?thesis using found by (simp add: one_target_def)
qed

section \<open>The controllers of node.html\<close>

definition page_parts :: "(jsstr \<times> node) list" where
  "page_parts =
     [(''flash'', node_flash), (''peerInfo'', node_peerInfo), (''messaging'', node_messaging), (''unicast'', node_unicast),
      (''broadcast'', node_broadcast), (''routing'', node_routing), (''catalog'', node_catalog),
      (''dataSharing'', node_dataSharing), (''search'', node_search), (''naming'', node_naming),
      (''packets'', node_packets)]"

lemma self_element: "e \<in> set (elements e)"
  by (cases e) simp

lemma part_elements: "(ident, r) \<in> set page_parts \<Longrightarrow> r \<in> set (elements node_page)"
  unfolding page_parts_def by (auto simp: node_page_def self_element)

lemma part_attribute: "(ident, r) \<in> set page_parts \<Longrightarrow> Stimulus_Scope.getAttribute ''data-controller'' r = Some ident"
  unfolding page_parts_def by (auto simp: node_defs Stimulus_Scope.getAttribute_def lower_names)

lemma controller_words: "list_all plain_word (values_of ''data-controller'' node_page)"
  "distinct (values_of ''data-controller'' node_page)"
  unfolding values_page by code_simp+

lemma part_controller:
  assumes "(ident, r) \<in> set page_parts"
  shows "controller_elements node_page ident = [r]"
proof -
  have ident: "ident \<in> set (values_of ''data-controller'' node_page)"
    using assms unfolding values_page page_parts_def by auto
  obtain e where e: "controller_elements node_page ident = [e]"
    using one_value [OF controller_words ident] by (auto simp: controller_elements_def)
  have "ident \<noteq> []" using controller_words(1) ident by (auto simp: list_all_iff plain_word_def)
  then have "has_token ''data-controller'' ident r"
    using token_of_value [OF controller_words(1) part_elements [OF assms]] part_attribute [OF assms] by simp
  then have "r \<in> set (controller_elements node_page ident)"
    using part_elements [OF assms] by (simp add: controller_elements_def)
  with e show ?thesis by simp
qed

lemmas part_values = values_flash values_peerInfo values_messaging values_unicast values_broadcast values_routing
  values_catalog values_dataSharing values_search values_naming values_packets

lemma part_old_targets: "(ident, r) \<in> set page_parts \<Longrightarrow> values_of ''data-target'' r = []"
  unfolding page_parts_def by (auto simp: parts)

lemma declared_values:
  "list_all (\<lambda>d. d \<in> set (map (\<lambda>(ident, r). (ident, values_of (''data-'' @ ident @ ''-target'') r)) page_parts)) declared"
  apply (simp only: page_parts_def list.map case_prod_conv append.simps part_values)
  apply code_simp
  done

lemma declared_part:
  assumes "(ident, names) \<in> set declared"
  obtains r where "(ident, r) \<in> set page_parts" "values_of (''data-'' @ ident @ ''-target'') r = names"
proof -
  have "(ident, names) \<in> set (map (\<lambda>(ident, r). (ident, values_of (''data-'' @ ident @ ''-target'') r)) page_parts)"
    using declared_values assms unfolding list_all_iff by blast
  then show thesis using that by (auto simp del: append.simps)
qed

lemma letters_ok: "list_all (\<lambda>c. name_char c \<and> \<not> is_css_ws c) ''abcdefghijklmnopqrstuvwxyzABCDEFGHIJKLMNOPQRSTUVWXYZ''"
  by code_simp

lemma declared_words: "list_all (\<lambda>(ident, names). words_ok ident names) declared"
  by (simp add: declared_def words_ok_def plain_word_def letters_ok [unfolded list.pred_inject])

lemma declared_target:
  assumes "(ident, names) \<in> set declared" and "name \<in> set names"
  shows "\<exists>r. controller_elements node_page ident = [r] \<and> one_target node_page (node_id r) ident name"
proof -
  obtain r where r: "(ident, r) \<in> set page_parts" "values_of (''data-'' @ ident @ ''-target'') r = names"
    using declared_part [OF assms(1)] by blast
  have "words_ok ident names" using declared_words assms(1) by (auto simp: list_all_iff)
  with part_target [OF node_page_ok part_controller [OF r(1)] part_old_targets [OF r(1)] r(2)] assms(2)
    part_controller [OF r(1)]
  show ?thesis by blast
qed

lemma class_declared:
  assumes "(ident, ctor) \<in> set main_classes"
  shows "(ident, readInheritableStaticArrayValues ctor ''targets'') \<in> set declared"
  unfolding main_classes_targets [symmetric] using assms by force

lemma page_targets: "list_all (targets_complete node_page) main_classes"
proof -
  have "targets_complete node_page (ident, ctor)" if c: "(ident, ctor) \<in> set main_classes" for ident ctor
  proof -
    obtain r where r: "(ident, r) \<in> set page_parts" using declared_part [OF class_declared [OF c]] by blast
    with declared_target [OF class_declared [OF c]] show ?thesis
      by (force simp: targets_complete_def part_controller [OF r] list_all_iff)
  qed
  then show ?thesis by (auto simp: list_all_iff)
qed

section \<open>Actions\<close>

lemma actions_node:
  "page_actions (node i as cs) =
     (case Stimulus_Scope.getAttribute ''data-action'' (node i as cs) of
        Some v \<Rightarrow> map (Pair (node i as cs)) (descriptors v) | None \<Rightarrow> []) @ concat (map page_actions cs)"
proof -
  have flat: "concat (map f (concat xss)) = concat (map (\<lambda>xs. concat (map f xs)) xss)" for f :: "node \<Rightarrow> 'b list" and xss
    by (induction xss) simp_all
  show ?thesis by (simp add: page_actions_def [abs_def] flat comp_def)
qed

lemma actions_plain: "page_actions (node i [] cs) = concat (map page_actions cs)"
  unfolding actions_node by (simp add: Stimulus_Scope.getAttribute_def)

lemma actions_page: "page_actions node_page = concat (map (page_actions \<circ> snd) page_parts)"
  unfolding node_page_def page_parts_def by (simp add: actions_plain)

lemma page_actions_element: "(e, d) \<in> set (page_actions r) \<Longrightarrow> e \<in> set (elements r)"
  by (auto simp: page_actions_def split: option.splits)

lemma page_actions_descriptors:
  "map snd (page_actions r) = concat (map descriptors (values_of ''data-action'' r))"
proof -
  have "map snd (concat (map (\<lambda>e. case f e of Some v \<Rightarrow> map (Pair e) (g v) | None \<Rightarrow> []) es)) =
    concat (map g (List.map_filter f es))" for f :: "node \<Rightarrow> jsstr option" and g :: "jsstr \<Rightarrow> action_descriptor list" and es
    by (induction es) (auto simp: List.map_filter_simps comp_def split: option.splits)
  then show ?thesis unfolding page_actions_def values_of_def .
qed

lemma part_descriptors:
  "list_all (\<lambda>(ident, r). list_all (descriptor_fits ident) (map snd (page_actions r))) page_parts"
  unfolding page_actions_descriptors
  apply (simp only: page_parts_def list.map case_prod_conv part_values list.pred_inject)
  apply code_simp
  done

lemma page_actions_fit: "list_all (action_fits node_page) (page_actions node_page)"
proof -
  have "action_fits node_page (e, d)" if r: "(ident, r) \<in> set page_parts" and d: "(e, d) \<in> set (page_actions r)" for ident r e d
  proof -
    have "d \<in> set (map snd (page_actions r))" using d by force
    then have "descriptor_fits ident d" using part_descriptors r unfolding list_all_iff by fastforce
    moreover from part_controller [OF r] have "closest (has_token ''data-controller'' ident) node_page (node_id e) = Some r"
      using closest_only [OF node_page_ok _ page_actions_element [OF d]] by (simp add: controller_elements_def)
    ultimately show ?thesis by (simp add: action_fits_def descriptor_fits_def)
  qed
  then show ?thesis by (fastforce simp: actions_page list_all_iff)
qed

lemma click_actions:
  "map (\<lambda>(e, d). (d_identifier d, d_methodName d)) (page_actions node_page) =
   map (\<lambda>(h, ident, m). (Some ident, Some m)) click_handlers"
proof -
  have "map (\<lambda>(e, d). (d_identifier d, d_methodName d)) (page_actions node_page) =
    map (\<lambda>d. (d_identifier d, d_methodName d)) (map snd (page_actions node_page))" by auto
  also have "map snd (page_actions node_page) =
    concat (map (\<lambda>p. concat (map descriptors (values_of ''data-action'' (snd p)))) page_parts)"
    unfolding actions_page by (simp add: map_concat page_actions_descriptors comp_def)
  also have "map (\<lambda>d. (d_identifier d, d_methodName d)) \<dots> = map (\<lambda>(h, ident, m). (Some ident, Some m)) click_handlers"
    apply (simp only: page_parts_def list.map snd_conv part_values)
    apply code_simp
    done
  finally show ?thesis .
qed

section \<open>Sections\<close>

lemma tokens_page:
  "class_tokens ''flash'' = [''flash'']"
  "class_tokens ''peer-info'' = [''peer-info'']"
  "class_tokens ''messaging'' = [''messaging'']"
  "class_tokens ''collapsible'' = [''collapsible'']"
  "class_tokens ''holder'' = [''holder'']"
  "class_tokens ''chat-messages'' = [''chat-messages'']"
  "class_tokens ''unicast'' = [''unicast'']"
  "class_tokens ''unicast-chat-form'' = [''unicast-chat-form'']"
  "class_tokens ''message'' = [''message'']"
  "class_tokens ''broadcast'' = [''broadcast'']"
  "class_tokens ''broadcast-chat-form'' = [''broadcast-chat-form'']"
  "class_tokens ''routing'' = [''routing'']"
  "class_tokens ''collapsible sub'' = [''collapsible'', ''sub'']"
  "class_tokens ''graphviz'' = [''graphviz'']"
  "class_tokens ''add-peer'' = [''add-peer'']"
  "class_tokens ''set-entry'' = [''set-entry'']"
  "class_tokens ''catalog'' = [''catalog'']"
  "class_tokens ''content'' = [''content'']"
  "class_tokens ''add-catalog-entry'' = [''add-catalog-entry'']"
  "class_tokens ''data'' = [''data'']"
  "class_tokens ''upload-result'' = [''upload-result'']"
  "class_tokens ''search'' = [''search'']"
  "class_tokens ''search-all-result'' = [''search-all-result'']"
  "class_tokens ''search-first-result'' = [''search-first-result'']"
  "class_tokens ''naming'' = [''naming'']"
  "class_tokens ''result'' = [''result'']"
  "class_tokens ''packets-holder'' = [''packets-holder'']"
  "class_tokens ''active collapsible'' = [''active'', ''collapsible'']"
  "class_tokens ''checkbox'' = [''checkbox'']"
  "class_tokens ''packets-top-scroll-holder'' = [''packets-top-scroll-holder'']"
  "class_tokens ''packets'' = [''packets'']"
  by code_simp+

lemma class_node:
  "class_list (node i as cs) = (case map_get as ''class'' of Some v \<Rightarrow> class_tokens v | None \<Rightarrow> [])"
  by (simp add: class_list_def Stimulus_Scope.getAttribute_def lower_names split: option.splits)

definition found_sections :: "node \<Rightarrow> (nat \<times> jsstr list) list" where
  "found_sections r = map (\<lambda>e. (node_id e, class_list e)) (filter (\<lambda>e. ''collapsible'' \<in> set (class_list e)) (elements r))"

lemma found_node:
  "found_sections (node i as cs) =
     (let cl = class_list (node i as cs) in if ''collapsible'' \<in> set cl then [(i, cl)] else []) @ concat (map found_sections cs)"
  by (simp add: found_sections_def [abs_def] filter_concat map_concat comp_def Let_def)

lemma found_page:
  "found_sections node_page =
     [(19, [''collapsible'']), (23, [''collapsible'']), (34, [''collapsible'']), (53, [''collapsible'']),
      (61, [''collapsible'', ''sub'']), (80, [''collapsible'']), (94, [''collapsible'']), (108, [''collapsible'']),
      (129, [''collapsible'']), (144, [''active'', ''collapsible''])]"
  by (simp add: node_defs found_node class_node tokens_page)

lemma next_page:
  "map (nextElementSibling node_page) [19, 23, 34, 53, 61, 80, 94, 108, 129, 144] =
   map Some [20, 24, 35, 54, 62, 81, 95, 109, 130, 145]"
proof -
  have "\<exists>s. siblings node_page = s \<and>
    map (map_get s) [19, 23, 34, 53, 61, 80, 94, 108, 129, 144] =
    map (Some \<circ> Some) [20, 24, 35, 54, 62, 81, 95, 109, 130, 145]"
    apply (rule exI, rule conjI)
     apply (simp add: siblings_def node_defs)
    apply simp
    done
  then show ?thesis by (simp add: nextElementSibling_def)
qed

lemma coll_page:
  "page_sections node_page =
     \<lparr>sc_coll = map (\<lambda>(cs, nx). \<lparr>cl_classes = cs, cl_next = Some nx, cl_listeners = 0\<rparr>)
        [([''collapsible''], 20), ([''collapsible''], 24), ([''collapsible''], 35), ([''collapsible''], 54),
         ([''collapsible'', ''sub''], 62), ([''collapsible''], 81), ([''collapsible''], 95), ([''collapsible''], 109),
         ([''collapsible''], 130), ([''active'', ''collapsible''], 145)],
      sc_display = (\<lambda>_. [])\<rparr>"
proof -
  have "page_sections node_page =
     \<lparr>sc_coll = map (\<lambda>(i, cl). \<lparr>cl_classes = cl, cl_next = nextElementSibling node_page i, cl_listeners = 0\<rparr>) (found_sections node_page),
      sc_display = (\<lambda>_. [])\<rparr>"
    by (simp add: page_sections_def found_sections_def comp_def)
  with next_page show ?thesis unfolding found_page by simp
qed

lemma page_sections_ok: "sections_ok (page_sections node_page)"
  unfolding coll_page sections_ok_def by simp

section \<open>The controllers that others look up\<close>

lemma ids_values:
  "values_of ''id'' node_page = [''flash'', ''flash-wrapper'', ''peerInfo'', ''messaging'', ''follow-checkbox'']"
  by (simp add: node_defs values_node lower_names)

lemma find_value:
  assumes "distinct (List.map_filter f es)" and "x \<in> set es" and "f x = Some v"
  shows "find (\<lambda>e. f e = Some v) es = Some x"
  using assms
proof (induction es)
  case (Cons e es)
  then show ?case by (auto simp: set_map_filter split: option.splits if_splits)
qed simp

lemma page_named:
  assumes "(i, r) \<in> set page_parts" and "Stimulus_Scope.getAttribute ''id'' r = Some i"
  shows "named_controller node_page i"
proof -
  have "distinct (values_of ''id'' node_page)" unfolding ids_values by simp
  then have "getElementById node_page i = Some r"
    unfolding getElementById_def values_of_def by (intro find_value part_elements [OF assms(1)] assms(2))
  moreover have "has_token ''data-controller'' i r" by (rule controller_facts [OF part_controller [OF assms(1)]])
  ultimately show ?thesis by (simp add: named_controller_def)
qed

lemma page_names: "list_all (named_controller node_page) [''flash'', ''peerInfo'', ''messaging'']"
proof -
  have "named_controller node_page ''flash''" "named_controller node_page ''peerInfo''" "named_controller node_page ''messaging''"
    by (rule page_named, simp add: page_parts_def,
        simp add: node_flash_def node_peerInfo_def node_messaging_def Stimulus_Scope.getAttribute_def lower_names)+
  then show ?thesis by simp
qed

section \<open>The page when the program starts\<close>

lemma map_get_mapped: "map_get (map (\<lambda>(t, e). (t, f e)) m) t = map_option f (map_get m t)"
  by (induction m) (auto)

lemma document_target_found:
  assumes "(ident, ctor) \<in> set main_classes" and "name \<in> set (readInheritableStaticArrayValues ctor ''targets'')"
  shows "\<exists>e. ((ident, name), e) \<in> set (document_targets node_page)"
proof -
  have "targets_complete node_page (ident, ctor)" using page_targets assms(1) unfolding list_all_iff by blast
  then obtain h where h: "controller_elements node_page ident = [h]"
    and all: "list_all (one_target node_page (node_id h) ident) (readInheritableStaticArrayValues ctor ''targets'')"
    by (auto simp: targets_complete_def split: list.splits)
  have "one_target node_page (node_id h) ident name" using all assms(2) unfolding list_all_iff by blast
  then obtain e where
    "fst (ts_findAll defaultSchema node_page \<lparr>sc_element = node_id h, sc_identifier = ident\<rparr> [name] new_guide) = Inr [e]"
    by (auto simp: one_target_def split: sum.splits list.splits)
  with h assms show ?thesis unfolding document_targets_def by (force intro!: exI [of _ e])
qed

lemma start_page_ok: "page_ok (start_page view search now node_page)"
proof -
  have "get_target (start_page view search now node_page) (ident, name) \<noteq> None"
    if d: "(ident, names) \<in> set declared" and n: "name \<in> set names" for ident names name
  proof -
    obtain ctor where c: "(ident, ctor) \<in> set main_classes" "names = readInheritableStaticArrayValues ctor ''targets''"
      using d unfolding main_classes_targets [symmetric] by auto
    with document_target_found n obtain e where e: "((ident, name), e) \<in> set (document_targets node_page)" by blast
    have "map_get m t \<noteq> None" if "(t, x) \<in> set m" for t :: target and x :: node and m
      using that by (induction m) auto
    with e show ?thesis by (simp add: get_target_def start_page_def map_get_mapped)
  qed
  moreover have "{''flash'', ''peerInfo'', ''messaging''} \<subseteq> set (pg_controllers (start_page view search now node_page))"
    using page_names by (simp add: start_page_def main_classes_def)
  ultimately show ?thesis by (auto simp: page_ok_def declared_targets_def)
qed

section \<open>Properties\<close>

text \<open>
  C27. The page node.html fits main.js. Its elements are distinct; each of the eleven controllers
  is connected on exactly one element, below which the lookup of stimulus.js finds exactly one
  element for each target that the class declares; every declared action is a click
  that names a method of the class of its controller, below an element of that controller, and
  the actions are, in order, those of the fourteen handlers that a click starts. So the page
  on which \<open>main\<close> starts has every target and the three controllers that others look up, as
  the properties of the interleavings assume, and its sections are as \<open>initCollapsible\<close>
  needs them: each has a following element of its own.
\<close>

theorem node_page_fits_main:
  "document_ok node_page \<and>
   list_all (targets_complete node_page) main_classes \<and>
   list_all (action_fits node_page) (page_actions node_page) \<and>
   map (\<lambda>(e, d). (d_identifier d, d_methodName d)) (page_actions node_page) =
     map (\<lambda>(h, ident, m). (Some ident, Some m)) click_handlers \<and>
   page_ok (start_page view search now node_page) \<and>
   sections_ok (page_sections node_page)"
  by (intro conjI node_page_ok page_targets page_actions_fit click_actions start_page_ok page_sections_ok)

end
