(* ===== verification/Stimulus_Classes.thy ===== *)
theory Stimulus_Classes
  imports Stimulus_Blessed
begin

text \<open>
  Classes as the objects they are: constructors and prototypes with their prototype links, and
  the helpers that build them (\<open>__extends\<close>, \<open>extend\<close>, \<open>shadow\<close>). The chains of classes of
  Stimulus\_Blessings are an abstraction of these objects: whatever is read from a
  constructor or an instance through the links is what the chain says, and blessing on
  objects yields the blessed chain.
\<close>

section \<open>Objects\<close>

text \<open>
  An own property holds a static definition, another object, or a member of a class (with its
  descriptor); the built-in prototypes have properties of their own. An address is an index
  of the heap. The own properties \<open>name\<close> and \<open>length\<close> of functions are left out.
\<close>

datatype js_property = Static static_value | Ref nat | Member descriptor | Builtin

record class_object =
  ob_proto :: "nat option"
  ob_props :: "(jsstr \<times> js_property) list"

type_synonym heap = "class_object list"

definition object_at :: "heap \<Rightarrow> nat \<Rightarrow> class_object option" where
  "object_at h a = (if a < length h then Some (h ! a) else None)"

definition own_at :: "heap \<Rightarrow> nat \<Rightarrow> jsstr \<Rightarrow> js_property option" where
  "own_at h a k = (case object_at h a of Some ob \<Rightarrow> map_get (ob_props ob) k | None \<Rightarrow> None)"

definition proto_at :: "heap \<Rightarrow> nat \<Rightarrow> nat option" where
  "proto_at h a = (case object_at h a of Some ob \<Rightarrow> ob_proto ob | None \<Rightarrow> None)"

text \<open>\<open>object[key]\<close>, with as many steps as there are objects.\<close>

fun get_along :: "nat \<Rightarrow> heap \<Rightarrow> nat \<Rightarrow> jsstr \<Rightarrow> js_property option" where
  "get_along 0 h a k = None"
| "get_along (Suc n) h a k =
     (case own_at h a k of
        Some p \<Rightarrow> Some p
      | None \<Rightarrow> (case proto_at h a of Some b \<Rightarrow> get_along n h b k | None \<Rightarrow> None))"

definition js_get :: "heap \<Rightarrow> nat \<Rightarrow> jsstr \<Rightarrow> js_property option" where
  "js_get h a k = get_along (length h) h a k"

definition set_own :: "nat \<Rightarrow> jsstr \<Rightarrow> js_property \<Rightarrow> heap \<Rightarrow> heap" where
  "set_own a k p h = h[a := (h ! a)\<lparr>ob_props := set_prop k p (ob_props (h ! a))\<rparr>]"

definition setPrototypeOf :: "nat \<Rightarrow> nat option \<Rightarrow> heap \<Rightarrow> heap" where
  "setPrototypeOf a b h = h[a := (h ! a)\<lparr>ob_proto := b\<rparr>]"

text \<open>\<open>Object.prototype\<close> is at 0, \<open>Function.prototype\<close> at 1.\<close>

definition base_heap :: "jsstr list \<Rightarrow> jsstr list \<Rightarrow> heap" where
  "base_heap object_names function_names =
     [\<lparr>ob_proto = None, ob_props = map (\<lambda>k. (k, Builtin)) object_names\<rparr>,
      \<lparr>ob_proto = Some 0, ob_props = map (\<lambda>k. (k, Builtin)) function_names\<rparr>]"

text \<open>A new function gets a prototype that refers back to it.\<close>

definition new_function :: "heap \<Rightarrow> heap \<times> nat" where
  "new_function h =
     ((h @ [\<lparr>ob_proto = Some 1, ob_props = [(''prototype'', Ref (length h + 1))]\<rparr>])
         @ [\<lparr>ob_proto = Some 0, ob_props = [(''constructor'', Ref (length h))]\<rparr>], length h)"

section \<open>The helpers\<close>

text \<open>How an engine lets \<open>__extends\<close> inherit statics, and whether it has \<open>Reflect\<close>.\<close>

datatype statics_method = SetPrototypeOf | ProtoField | CopyStatics

record js_engine =
  en_statics :: statics_method
  en_reflect :: bool

definition extendStatics :: "statics_method \<Rightarrow> nat \<Rightarrow> nat option \<Rightarrow> heap \<Rightarrow> heap" where
  "extendStatics m d b h =
     (case m of
        CopyStatics \<Rightarrow>
          (case b of
             None \<Rightarrow> h
           | Some b \<Rightarrow> fold (\<lambda>(k, p) h. if k = ''prototype'' then h else set_own d k p h) (ob_props (h ! b)) h)
      | _ \<Rightarrow> setPrototypeOf d b h)"

definition js_extends :: "statics_method \<Rightarrow> nat \<Rightarrow> nat option \<Rightarrow> heap \<Rightarrow> heap" where
  "js_extends m d b h =
     (let h1 = extendStatics m d b h;
          made = (case b of
             None \<Rightarrow> \<lparr>ob_proto = None, ob_props = []\<rparr>
           | Some b \<Rightarrow> \<lparr>ob_proto = Some (case js_get h1 b ''prototype'' of Some (Ref q) \<Rightarrow> q | _ \<Rightarrow> 0),
                        ob_props = [(''constructor'', Ref d)]\<rparr>)
      in set_own d ''prototype'' (Ref (length h1)) (h1 @ [made]))"

definition no_prototype_error :: js_error where
  "no_prototype_error = ErrorObject ''TypeError'' ''Object prototype may only be an Object or null''"

definition extendWithReflect :: "nat \<Rightarrow> heap \<Rightarrow> js_error + heap \<times> nat" where
  "extendWithReflect a h =
     (let (h1, extended) = new_function h
      in case js_get h1 a ''prototype'' of
           Some (Ref q) \<Rightarrow>
             Inr (setPrototypeOf extended (Some a)
               (set_own extended ''prototype'' (Ref (length h1))
                 (h1 @ [\<lparr>ob_proto = Some q, ob_props = [(''constructor'', Ref extended)]\<rparr>])), extended)
         | _ \<Rightarrow> Inl no_prototype_error)"

definition js_extend :: "js_engine \<Rightarrow> nat \<Rightarrow> heap \<Rightarrow> js_error + heap \<times> nat" where
  "js_extend en a h =
     (if en_reflect en then extendWithReflect a h
      else let (h1, extended) = new_function h
           in Inr (js_extends (en_statics en) extended (Some a) h1, extended))"

text \<open>
  \<open>__spreadArrays\<close> copies its arguments one element after the other into an array of the
  total length, whose slots are empty at first.
\<close>

definition spread_one :: "'a list \<Rightarrow> 'a option list \<times> nat \<Rightarrow> 'a option list \<times> nat" where
  "spread_one a = fold (\<lambda>x (r, k). (r[k := Some x], k + 1)) a"

definition spreadArrays :: "'a list list \<Rightarrow> 'a option list" where
  "spreadArrays arrays = fst (fold spread_one arrays (replicate (sum_list (map length arrays)) None, 0))"

lemma spread_one_spec:
  "spread_one a (ys @ replicate (length a + n) None, length ys) =
     (ys @ map Some a @ replicate n None, length ys + length a)"
proof (induction a arbitrary: ys)
  case (Cons x a)
  from Cons.IH [of "ys @ [Some x]"] show ?case by (simp add: spread_one_def list_update_append)
qed (simp add: spread_one_def)

lemma spreadArrays_concat: "spreadArrays arrays = map Some (concat arrays)"
proof -
  have "fst (fold spread_one arrays (ys @ replicate (sum_list (map length arrays)) None, length ys)) =
      ys @ map Some (concat arrays)" for ys :: "'a option list"
  proof (induction arrays arbitrary: ys)
    case (Cons a arrays)
    from Cons.IH [of "ys @ map Some a"] show ?case
      by (simp add: spread_one_spec [where n = "sum_list (map length arrays)"] add.commute)
  qed simp
  from this [of "[]"] show ?thesis by (simp add: spreadArrays_def)
qed

text \<open>
  A class as the compiled code makes it: a function, \<open>__extends\<close> when it has a base class, then
  its members on the prototype and its statics on the function.
\<close>

definition define_class :: "js_engine \<Rightarrow> nat option \<Rightarrow> js_class \<Rightarrow> heap \<Rightarrow> heap \<times> nat" where
  "define_class en b c h =
     (let (h1, d) = new_function h;
          h2 = (case b of None \<Rightarrow> h1 | Some b \<Rightarrow> js_extends (en_statics en) d (Some b) h1);
          p = (case own_at h2 d ''prototype'' of Some (Ref p) \<Rightarrow> p | _ \<Rightarrow> 0);
          h3 = fold (\<lambda>(k, m) h. set_own p k (Member m) h) (cl_prototype c) h2
      in (fold (\<lambda>(k, v) h. set_own d k (Static v) h) (cl_statics c) h3, d))"

section \<open>Blessing on objects\<close>

fun ancestors_along :: "nat \<Rightarrow> heap \<Rightarrow> nat \<Rightarrow> nat list" where
  "ancestors_along 0 h a = []"
| "ancestors_along (Suc n) h a =
     a # (case proto_at h a of Some b \<Rightarrow> ancestors_along n h b | None \<Rightarrow> [])"

definition ancestors_at :: "heap \<Rightarrow> nat \<Rightarrow> nat list" where
  "ancestors_at h a = rev (ancestors_along (length h) h a)"

definition static_array_at :: "heap \<Rightarrow> jsstr \<Rightarrow> nat \<Rightarrow> jsstr list" where
  "static_array_at h k a = (case js_get h a k of Some (Static (StaticArray xs)) \<Rightarrow> xs | _ \<Rightarrow> [])"

definition static_pairs_at :: "heap \<Rightarrow> jsstr \<Rightarrow> nat \<Rightarrow> (jsstr \<times> type_constant) list" where
  "static_pairs_at h k a = (case js_get h a k of Some (Static (StaticObject ps)) \<Rightarrow> ps | _ \<Rightarrow> [])"

definition inherited_array_at :: "heap \<Rightarrow> jsstr \<Rightarrow> nat \<Rightarrow> jsstr list" where
  "inherited_array_at h k a = fold (\<lambda>c values. fold set_add (static_array_at h k c) values) (ancestors_at h a) []"

definition inherited_pairs_at :: "heap \<Rightarrow> jsstr \<Rightarrow> nat \<Rightarrow> (jsstr \<times> type_constant) list" where
  "inherited_pairs_at h k a = fold (\<lambda>c pairs. pairs @ static_pairs_at h k c) (ancestors_at h a) []"

definition class_blessing_at :: "heap \<Rightarrow> nat \<Rightarrow> properties" where
  "class_blessing_at h a = fold (\<lambda>key. assign (propertiesForClassDefinition key)) (inherited_array_at h ''classes'' a) []"

definition target_blessing_at :: "heap \<Rightarrow> nat \<Rightarrow> properties" where
  "target_blessing_at h a = fold (\<lambda>name. assign (propertiesForTargetDefinition name)) (inherited_array_at h ''targets'' a) []"

definition value_blessing_at :: "heap \<Rightarrow> nat \<Rightarrow> js_error + properties" where
  "value_blessing_at h a =
     (let pairs = inherited_pairs_at h ''values'' a;
          ds = (case descriptors_of pairs of Inr ds \<Rightarrow> ds | Inl _ \<Rightarrow> [])
      in value_properties pairs [(''valueDescriptorMap'', getter (DescriptorMapGet ds))])"

definition blessed_properties_at :: "heap \<Rightarrow> nat \<Rightarrow> js_error + properties" where
  "blessed_properties_at h a =
     (case value_blessing_at h a of
        Inl e \<Rightarrow> Inl e
      | Inr values \<Rightarrow>
          Inr (add_blessing values (add_blessing (target_blessing_at h a) (add_blessing (class_blessing_at h a) []))))"

text \<open>The members that a prototype owns; one that refers to an object has a value.\<close>

definition members_at :: "heap \<Rightarrow> nat \<Rightarrow> properties" where
  "members_at h p =
     map (\<lambda>(k, x). (k, case x of Member d \<Rightarrow> d
         | _ \<Rightarrow> \<lparr>d_value = Some (OwnFunction k), d_get = None, d_set = None\<rparr>)) (ob_props (h ! p))"

definition shadow_at :: "js_engine \<Rightarrow> nat \<Rightarrow> properties \<Rightarrow> heap \<Rightarrow> js_error + heap \<times> nat" where
  "shadow_at en a properties h =
     (case js_extend en a h of
        Inl e \<Rightarrow> Inl e
      | Inr (h1, s) \<Rightarrow>
          (case (js_get h1 a ''prototype'', js_get h1 s ''prototype'') of
             (Some (Ref p), Some (Ref sp)) \<Rightarrow>
               Inr (fold (\<lambda>(k, d) h. set_own sp k (Member d) h) (getShadowProperties (members_at h1 p) properties) h1, s)
           | _ \<Rightarrow> Inl no_prototype_error))"

definition bless_at :: "js_engine \<Rightarrow> nat \<Rightarrow> heap \<Rightarrow> js_error + heap \<times> nat" where
  "bless_at en a h =
     (case blessed_properties_at h a of Inl e \<Rightarrow> Inl e | Inr properties \<Rightarrow> shadow_at en a properties h)"

text \<open>\<open>new constructor(context)\<close>: an object below the prototype of the constructor, with its own context.\<close>

definition construct :: "nat \<Rightarrow> heap \<Rightarrow> heap \<times> nat" where
  "construct a h =
     (h @ [\<lparr>ob_proto = Some (case js_get h a ''prototype'' of Some (Ref p) \<Rightarrow> p | _ \<Rightarrow> 0),
            ob_props = [(''context'', Builtin)]\<rparr>], length h)"

section \<open>Reading the heap\<close>

lemma own_at_simps [simp]:
  "own_at (set_own a k p h) b k' = (if b = a \<and> k' = k \<and> a < length h then Some p else own_at h b k')"
  "own_at (setPrototypeOf a c h) b k' = own_at h b k'"
  "own_at (h @ [ob]) b k' = (if b = length h then map_get (ob_props ob) k' else own_at h b k')"
  by (cases "a = b"; auto simp: own_at_def object_at_def set_own_def setPrototypeOf_def nth_append)+

lemma proto_at_simps [simp]:
  "proto_at (set_own a k p h) b = proto_at h b"
  "proto_at (setPrototypeOf a c h) b = (if b = a \<and> a < length h then c else proto_at h b)"
  "proto_at (h @ [ob]) b = (if b = length h then ob_proto ob else proto_at h b)"
  by (cases "a = b"; auto simp: proto_at_def object_at_def set_own_def setPrototypeOf_def nth_append)+

lemma length_heap_simps [simp]:
  "length (set_own a k p h) = length h" "length (setPrototypeOf a c h) = length h"
  by (simp_all add: set_own_def setPrototypeOf_def)

lemma at_allocated: "own_at h a k = Some p \<Longrightarrow> a < length h" "proto_at h a = Some b \<Longrightarrow> a < length h"
  by (auto simp: own_at_def proto_at_def object_at_def split: if_splits)

lemma not_allocated: "length h \<le> a \<Longrightarrow> own_at h a k = None" "length h \<le> a \<Longrightarrow> proto_at h a = None"
  by (simp_all add: own_at_def proto_at_def object_at_def)

lemma fold_set_own [simp]:
  "length (fold (\<lambda>(k, m) h. set_own p k (f m) h) ms h) = length h"
  "proto_at (fold (\<lambda>(k, m) h. set_own p k (f m) h) ms h) a = proto_at h a"
  "own_at (fold (\<lambda>(k, m) h. set_own p k (f m) h) ms h) a k =
     (case (if a = p \<and> p < length h then map_get (rev ms) k else None) of Some m \<Rightarrow> Some (f m) | None \<Rightarrow> own_at h a k)"
  by (induction ms arbitrary: h) (auto simp: map_of_append map_add_def split: option.splits)

lemma map_get_rev: "distinct (map_keys ms) \<Longrightarrow> map_get (rev ms) k = map_get ms k"
proof (induction ms)
  case (Cons p ms)
  obtain k' m where p: "p = (k', m)" by fastforce
  then have "map_get ms k' = None" using Cons.prems by (simp add: map_of_eq_None_iff)
  then show ?case using Cons p by (auto simp: map_of_append map_add_def split: option.splits)
qed simp

section \<open>Prototype links lead downwards\<close>

definition heap_ok :: "heap \<Rightarrow> bool" where
  "heap_ok h \<longleftrightarrow> 2 \<le> length h \<and> proto_at h 0 = None \<and> proto_at h 1 = Some 0 \<and>
     own_at h 1 ''prototype'' = None \<and> (\<forall>a b. proto_at h a = Some b \<longrightarrow> b < a)"

lemma heap_okD:
  assumes "heap_ok h"
  shows "2 \<le> length h" "proto_at h 0 = None" "proto_at h 1 = Some 0" "own_at h 1 ''prototype'' = None"
    and "\<And>a b. proto_at h a = Some b \<Longrightarrow> b < a"
  using assms by (simp_all add: heap_ok_def)

lemma get_along_enough: "heap_ok h \<Longrightarrow> a < n \<Longrightarrow> a < m \<Longrightarrow> get_along n h a k = get_along m h a k"
proof (induction n arbitrary: a m)
  case (Suc n)
  then obtain m' where m: "m = Suc m'" by (cases m) simp_all
  have "get_along n h b k = get_along m' h b k" if "proto_at h a = Some b" for b
    using heap_okD(5) [OF Suc.prems(1) that] Suc.prems(2,3) m by (intro Suc.IH [OF Suc.prems(1)]) simp_all
  then show ?case by (auto simp: m split: option.splits)
qed simp

lemma js_get_step:
  assumes "heap_ok h"
  shows "js_get h a k = (case own_at h a k of
      Some p \<Rightarrow> Some p
    | None \<Rightarrow> (case proto_at h a of Some b \<Rightarrow> js_get h b k | None \<Rightarrow> None))"
proof -
  obtain n where n: "length h = Suc n" using heap_okD(1) [OF assms] by (cases "length h") simp_all
  have "get_along n h b k = js_get h b k" if "proto_at h a = Some b" for b
    unfolding js_get_def using heap_okD(5) [OF assms that] at_allocated(2) [OF that] n
    by (intro get_along_enough [OF assms]) simp_all
  then show ?thesis by (simp add: js_get_def n split: option.splits)
qed

lemma js_get_own: "own_at h a k = Some p \<Longrightarrow> js_get h a k = Some p"
  by (cases "length h") (auto simp: js_get_def dest: at_allocated(1))

lemma ancestors_enough: "heap_ok h \<Longrightarrow> a < n \<Longrightarrow> a < m \<Longrightarrow> ancestors_along n h a = ancestors_along m h a"
proof (induction n arbitrary: a m)
  case (Suc n)
  then obtain m' where m: "m = Suc m'" by (cases m) simp_all
  have "ancestors_along n h b = ancestors_along m' h b" if "proto_at h a = Some b" for b
    using heap_okD(5) [OF Suc.prems(1) that] Suc.prems(2,3) m by (intro Suc.IH [OF Suc.prems(1)]) simp_all
  then show ?case by (auto simp: m split: option.splits)
qed simp

lemma ancestors_step:
  assumes "heap_ok h"
  shows "ancestors_at h a = (case proto_at h a of Some b \<Rightarrow> ancestors_at h b | None \<Rightarrow> []) @ [a]"
proof -
  obtain n where n: "length h = Suc n" using heap_okD(1) [OF assms] by (cases "length h") simp_all
  have "rev (ancestors_along n h b) = ancestors_at h b" if "proto_at h a = Some b" for b
    unfolding ancestors_at_def using heap_okD(5) [OF assms that] at_allocated(2) [OF that] n
    by (intro arg_cong [of _ _ rev] ancestors_enough [OF assms]) simp_all
  then show ?thesis by (simp add: ancestors_at_def n split: option.splits)
qed

section \<open>The chain of a constructor\<close>

definition prototype_at :: "heap \<Rightarrow> nat \<Rightarrow> nat" where
  "prototype_at h a = (case own_at h a ''prototype'' of Some (Ref p) \<Rightarrow> p | _ \<Rightarrow> 0)"

text \<open>
  A constructor stands for a chain of classes when each class's statics and members are the own
  properties of the function and its prototype, and both are linked to those of the rest.
\<close>

fun represents :: "heap \<Rightarrow> nat \<Rightarrow> js_constructor \<Rightarrow> bool" where
  "represents h a [] \<longleftrightarrow> a = 1"
| "represents h a (c # cs) \<longleftrightarrow>
     (\<exists>b. proto_at h a = Some b \<and> represents h b cs \<and> proto_at h (prototype_at h a) = Some (prototype_at h b)) \<and>
     own_at h a ''prototype'' = Some (Ref (prototype_at h a)) \<and>
     (\<forall>k. k \<noteq> ''prototype'' \<longrightarrow> own_at h a k = map_option Static (map_get (cl_statics c) k)) \<and>
     (\<forall>k. k \<noteq> ''constructor'' \<longrightarrow> own_at h (prototype_at h a) k = map_option Member (map_get (cl_prototype c) k))"

text \<open>A heap that another extends is a part of it.\<close>

definition heap_part :: "heap \<Rightarrow> heap \<Rightarrow> bool" where
  "heap_part h h' \<longleftrightarrow> length h \<le> length h' \<and>
     (\<forall>a < length h. own_at h' a = own_at h a \<and> proto_at h' a = proto_at h a)"

lemma heap_part_builtin:
  assumes "heap_ok h" "heap_part h h'"
  shows "own_at h' 0 k = own_at h 0 k"
proof -
  have "0 < length h" using heap_okD(1) [OF assms(1)] by linarith
  then show ?thesis using assms(2) by (simp add: heap_part_def)
qed

lemma heap_partD:
  assumes "heap_part h h'"
  shows "a < length h \<Longrightarrow> own_at h' a k = own_at h a k" "a < length h \<Longrightarrow> proto_at h' a = proto_at h a"
    "length h \<le> length h'" "a < length h \<Longrightarrow> prototype_at h' a = prototype_at h a"
  using assms by (simp_all add: heap_part_def prototype_at_def)

lemma represents_allocated: "heap_ok h \<Longrightarrow> represents h a cs \<Longrightarrow> a < length h"
  by (cases cs) (auto dest: at_allocated(2) heap_okD(1))

lemma represents_part: "heap_ok h \<Longrightarrow> heap_part h h' \<Longrightarrow> represents h a cs \<Longrightarrow> represents h' a cs"
proof (induction cs arbitrary: a)
  case (Cons c cs)
  from Cons.prems(3) obtain b where b: "proto_at h a = Some b" "represents h b cs"
      "proto_at h (prototype_at h a) = Some (prototype_at h b)"
    by auto
  note bounds = at_allocated(2) [OF b(1)] at_allocated(2) [OF b(3)] represents_allocated [OF Cons.prems(1) b(2)]
  show ?case
    using Cons.prems(3) b Cons.IH [OF Cons.prems(1,2) b(2)] by (simp add: heap_partD [OF Cons.prems(2)] bounds)
qed simp

section \<open>Lookups\<close>

lemma static_lookup:
  assumes "heap_ok h" "k \<noteq> ''prototype''" "own_at h 0 k = None" "own_at h 1 k = None"
  shows "represents h a cs \<Longrightarrow> js_get h a k = map_option Static (static_get cs k)"
proof (induction cs arbitrary: a)
  case Nil
  then show ?case
    using assms(3,4) heap_okD(2,3) [OF assms(1)] by (simp add: js_get_step [OF assms(1)] del: One_nat_def)
next
  case (Cons c cs)
  then show ?case using assms(2) by (auto simp: js_get_step [OF assms(1), of a] split: option.splits)
qed

lemma member_lookup:
  assumes "heap_ok h" "k \<noteq> ''constructor''" "own_at h 0 k = None"
  shows "represents h a cs \<Longrightarrow> js_get h (prototype_at h a) k = map_option Member (property_of cs k)"
proof (induction cs arbitrary: a)
  case Nil
  then show ?case
    using assms(3) heap_okD(2,4) [OF assms(1)]
    by (simp add: prototype_at_def js_get_step [OF assms(1)] del: One_nat_def)
next
  case (Cons c cs)
  then show ?case using assms(2) by (auto simp: js_get_step [OF assms(1), of "prototype_at h a"] split: option.splits)
qed

text \<open>Names that the built-in objects do not have.\<close>

definition not_builtin :: "heap \<Rightarrow> jsstr \<Rightarrow> bool" where
  "not_builtin h k \<longleftrightarrow> own_at h 0 k = None \<and> own_at h 1 k = None"

lemma not_builtin_part:
  assumes "heap_ok h" "heap_part h h'"
  shows "not_builtin h' k = not_builtin h k"
proof -
  have "1 < length h" using heap_okD(1) [OF assms(1)] by linarith
  then show ?thesis by (simp add: not_builtin_def heap_part_builtin [OF assms] heap_partD(1) [OF assms(2)])
qed

lemma inherited_lookup:
  assumes "heap_ok h" "k \<noteq> ''prototype''" "not_builtin h k" "represents h a cs"
  shows "inherited_array_at h k a = readInheritableStaticArrayValues cs k"
    and "inherited_pairs_at h k a = readInheritableStaticObjectPairs cs k"
proof -
  note none = assms(3) [unfolded not_builtin_def]
  have own: "static_array_at h k a = getOwnStaticArrayValues cs k" "static_pairs_at h k a = getOwnStaticObjectPairs cs k"
    if "represents h a cs" for a cs
    using static_lookup [OF assms(1,2) conjunct1 [OF none] conjunct2 [OF none] that]
    by (auto simp: static_array_at_def static_pairs_at_def getOwnStaticArrayValues_def getOwnStaticObjectPairs_def
        split: option.splits static_value.splits)
  have builtin: "js_get h 0 k = None" using none heap_okD(2) [OF assms(1)] by (simp add: js_get_step [OF assms(1)])
  have builtins: "ancestors_at h 1 = [0, 1]"
    using heap_okD(2,3) [OF assms(1)] by (simp add: ancestors_step [OF assms(1)] del: One_nat_def)
  show "inherited_array_at h k a = readInheritableStaticArrayValues cs k" using assms(4)
  proof (induction cs arbitrary: a)
    case Nil
    then show ?case
      using own(1) [of 1 "[]"] builtin
      by (simp add: inherited_array_at_def builtins static_array_at_def readInheritableStaticArrayValues_def
          getAncestorsForConstructor_def getOwnStaticArrayValues_def del: One_nat_def)
  next
    case (Cons c cs)
    then obtain b where "proto_at h a = Some b" "represents h b cs" by auto
    with Cons.IH [of b] own(1) [OF Cons.prems] show ?case
      by (simp add: inherited_array_at_def ancestors_step [OF assms(1), of a] readInheritableStaticArrayValues_def
          getAncestorsForConstructor_def)
  qed
  show "inherited_pairs_at h k a = readInheritableStaticObjectPairs cs k" using assms(4)
  proof (induction cs arbitrary: a)
    case Nil
    then show ?case
      using own(2) [of 1 "[]"] builtin
      by (simp add: inherited_pairs_at_def builtins static_pairs_at_def readInheritableStaticObjectPairs_def
          getAncestorsForConstructor_def getOwnStaticObjectPairs_def del: One_nat_def)
  next
    case (Cons c cs)
    then obtain b where "proto_at h a = Some b" "represents h b cs" by auto
    with Cons.IH [of b] own(2) [OF Cons.prems] show ?case
      by (simp add: inherited_pairs_at_def ancestors_step [OF assms(1), of a] readInheritableStaticObjectPairs_def
          getAncestorsForConstructor_def)
  qed
qed

section \<open>New constructors\<close>

lemma represents_new:
  assumes "heap_ok h" "heap_part h h'" "represents h b cs"
    and "proto_at h' d = Some b" "own_at h' d ''prototype'' = Some (Ref p)" "proto_at h' p = Some (prototype_at h b)"
    and "\<And>k. k \<noteq> ''prototype'' \<Longrightarrow> own_at h' d k = map_option Static (map_get (cl_statics c) k)"
    and "\<And>k. k \<noteq> ''constructor'' \<Longrightarrow> own_at h' p k = map_option Member (map_get (cl_prototype c) k)"
  shows "represents h' d (c # cs)"
proof -
  have "prototype_at h' d = p" by (simp add: prototype_at_def assms(5))
  moreover have "represents h' b cs" by (rule represents_part [OF assms(1-3)])
  moreover have "prototype_at h' b = prototype_at h b"
    using heap_partD(4) [OF assms(2)] represents_allocated [OF assms(1,3)] by simp
  ultimately show ?thesis using assms(4-8) by simp
qed

lemma heap_ok_new:
  assumes "heap_ok h" "heap_part h h'" and "\<And>a b. length h \<le> a \<Longrightarrow> proto_at h' a = Some b \<Longrightarrow> b < a"
  shows "heap_ok h'"
proof -
  have "b < a" if "proto_at h' a = Some b" for a b
    using that assms(3) heap_okD(5) [OF assms(1)] heap_partD(2) [OF assms(2), of a] by (cases "a < length h") auto
  then show ?thesis
    using heap_okD(1-4) [OF assms(1)] heap_partD(1-3) [OF assms(2)] unfolding heap_ok_def by force
qed

lemma links_below:
  assumes "heap_ok h" "represents h a cs" "cs \<noteq> []"
  shows "a < length h" "prototype_at h a < length h" "own_at h a ''prototype'' = Some (Ref (prototype_at h a))"
  using assms represents_allocated [OF assms(1,2)] by (cases cs; auto dest: at_allocated(2))+

text \<open>Both ways of extending a class make a constructor without statics or members below it.\<close>

definition extended_by :: "heap \<Rightarrow> nat \<Rightarrow> heap \<Rightarrow> nat \<Rightarrow> bool" where
  "extended_by h a h' s \<longleftrightarrow> heap_ok h' \<and> heap_part h h' \<and> proto_at h' s = Some a \<and> s = length h \<and>
     (\<forall>k. own_at h' s k = (if k = ''prototype'' then Some (Ref (s + 2)) else None)) \<and>
     proto_at h' (s + 2) = Some (prototype_at h a) \<and>
     (\<forall>k. own_at h' (s + 2) k = (if k = ''constructor'' then Some (Ref s) else None)) \<and> length h' = s + 3"

lemma extended_byI:
  assumes "heap_ok h" "represents h a cs" "cs \<noteq> []" and "length h' = length h + 3"
    and "\<And>b k. own_at h' b k = (if b < length h then own_at h b k
      else if b = length h then (if k = ''prototype'' then Some (Ref (length h + 2)) else None)
      else if b \<le> length h + 2 \<and> k = ''constructor'' then Some (Ref (length h)) else None)"
    and "\<And>b. proto_at h' b = (if b < length h then proto_at h b else if b = length h then Some a
      else if b = length h + 1 then Some 0 else if b = length h + 2 then Some (prototype_at h a) else None)"
  shows "extended_by h a h' (length h)"
proof -
  note below = links_below [OF assms(1-3)]
  have part: "heap_part h h'" by (simp add: heap_part_def assms(4-6) fun_eq_iff)
  moreover have "heap_ok h'"
    by (rule heap_ok_new [OF assms(1) part]) (use below in \<open>auto simp: assms(6) split: if_splits\<close>)
  ultimately show ?thesis by (simp add: extended_by_def assms(4-6))
qed

lemma js_extends_new:
  assumes "heap_ok h" "represents h a cs" "cs \<noteq> []" "m \<noteq> CopyStatics"
  shows "extended_by h a (js_extends m (length h) (Some a) (fst (new_function h))) (length h)"
proof -
  note below = links_below [OF assms(1-3)]
  let ?h' = "js_extends m (length h) (Some a) (fst (new_function h))"
  have get: "js_get (extendStatics m (length h) (Some a) (fst (new_function h))) a ''prototype'' = Some (Ref (prototype_at h a))"
    using assms(4) below by (intro js_get_own) (cases m; simp add: extendStatics_def new_function_def del: append_assoc)
  have own: "own_at ?h' b k = (if b < length h then own_at h b k
      else if b = length h then (if k = ''prototype'' then Some (Ref (length h + 2)) else None)
      else if b \<le> length h + 2 \<and> k = ''constructor'' then Some (Ref (length h)) else None)" for b k
    using assms(4) unfolding js_extends_def Let_def option.case get js_property.case
    by (cases m; auto simp: extendStatics_def new_function_def not_allocated simp del: append_assoc)
  have proto: "proto_at ?h' b = (if b < length h then proto_at h b else if b = length h then Some a
      else if b = length h + 1 then Some 0 else if b = length h + 2 then Some (prototype_at h a) else None)" for b
    using assms(4) unfolding js_extends_def Let_def option.case get js_property.case
    by (cases m; auto simp: extendStatics_def new_function_def not_allocated simp del: append_assoc)
  have size: "length ?h' = length h + 3"
    using assms(4) unfolding js_extends_def Let_def option.case get js_property.case
    by (cases m; simp add: extendStatics_def new_function_def del: append_assoc)
  show ?thesis by (rule extended_byI [OF assms(1-3) size own proto])
qed

lemma extendWithReflect_new:
  assumes "heap_ok h" "represents h a cs" "cs \<noteq> []"
  shows "\<exists>h'. extendWithReflect a h = Inr (h', length h) \<and> extended_by h a h' (length h)"
proof -
  note below = links_below [OF assms(1-3)]
  have get: "js_get (fst (new_function h)) a ''prototype'' = Some (Ref (prototype_at h a))"
    using below by (intro js_get_own) (simp add: new_function_def del: append_assoc)
  define h' where "h' = setPrototypeOf (length h) (Some a) (set_own (length h) ''prototype'' (Ref (length h + 2))
    (fst (new_function h) @ [\<lparr>ob_proto = Some (prototype_at h a), ob_props = [(''constructor'', Ref (length h))]\<rparr>]))"
  have run: "extendWithReflect a h = Inr (h', length h)"
    using get by (simp add: extendWithReflect_def new_function_def h'_def del: append_assoc)
  have own: "own_at h' b k = (if b < length h then own_at h b k
      else if b = length h then (if k = ''prototype'' then Some (Ref (length h + 2)) else None)
      else if b \<le> length h + 2 \<and> k = ''constructor'' then Some (Ref (length h)) else None)" for b k
    by (auto simp: h'_def new_function_def not_allocated simp del: append_assoc)
  have proto: "proto_at h' b = (if b < length h then proto_at h b else if b = length h then Some a
      else if b = length h + 1 then Some 0 else if b = length h + 2 then Some (prototype_at h a) else None)" for b
    by (auto simp: h'_def new_function_def not_allocated simp del: append_assoc)
  have size: "length h' = length h + 3" by (simp add: h'_def new_function_def)
  show ?thesis using run extended_byI [OF assms(1-3) size own proto] by blast
qed

text \<open>An engine on which \<open>extend\<close> links the statics.\<close>

definition links_statics :: "js_engine \<Rightarrow> bool" where
  "links_statics en \<longleftrightarrow> en_reflect en \<or> en_statics en \<noteq> CopyStatics"

lemma js_extend_new:
  assumes "heap_ok h" "represents h a cs" "cs \<noteq> []" "links_statics en"
  obtains h' s where "js_extend en a h = Inr (h', s)" "extended_by h a h' s"
proof (cases "en_reflect en")
  case True
  with extendWithReflect_new [OF assms(1-3)] that show thesis by (auto simp: js_extend_def)
next
  case False
  then have "en_statics en \<noteq> CopyStatics" using assms(4) by (simp add: links_statics_def)
  from js_extends_new [OF assms(1-3) this] False show thesis
    by (intro that [of "js_extends (en_statics en) (length h) (Some a) (fst (new_function h))" "length h"])
      (simp_all add: js_extend_def new_function_def)
qed

section \<open>Blessing an object\<close>

lemma extended_byD:
  assumes "extended_by h a h' s"
  shows "heap_ok h'" "heap_part h h'" "proto_at h' s = Some a" "s = length h" "proto_at h' (s + 2) = Some (prototype_at h a)"
    "own_at h' s k = (if k = ''prototype'' then Some (Ref (s + 2)) else None)"
    "own_at h' (s + 2) k = (if k = ''constructor'' then Some (Ref s) else None)" "length h' = s + 3"
  using assms unfolding extended_by_def by blast+

lemma blessed_properties_refine:
  assumes "heap_ok h" "represents h a cs" "list_all (not_builtin h) [''classes'', ''targets'', ''values'']"
  shows "blessed_properties_at h a = getBlessedProperties cs"
proof -
  note read = inherited_lookup [OF assms(1) _ _ assms(2)]
  have "value_blessing_at h a = ValuePropertiesBlessing cs" "target_blessing_at h a = TargetPropertiesBlessing cs"
    "class_blessing_at h a = ClassPropertiesBlessing cs"
    using assms(3)
    by (simp_all add: value_blessing_at_def target_blessing_at_def class_blessing_at_def
        ValuePropertiesBlessing_def TargetPropertiesBlessing_def ClassPropertiesBlessing_def read)
  then show ?thesis by (simp add: blessed_properties_at_def getBlessedProperties_def split: sum.split)
qed

lemma shadow_cong:
  assumes "\<And>k. k \<in> fst ` set ps \<Longrightarrow> map_get prototype k = map_get prototype' k"
  shows "getShadowProperties prototype ps = getShadowProperties prototype' ps"
  unfolding getShadowProperties_def
  using assms by (intro fold_cong refl) (auto simp: getShadowedDescriptor_def cong: option.case_cong)

lemma distinct_shadow: "distinct (map_keys (getShadowProperties prototype ps))"
proof -
  have "distinct (map_keys (fold (\<lambda>p shadow. case getShadowedDescriptor prototype p of
      Some d \<Rightarrow> set_prop (fst p) d shadow | None \<Rightarrow> shadow) ps acc))" if "distinct (map_keys acc)" for acc
    using that
  proof (induction ps arbitrary: acc)
    case (Cons p ps)
    then show ?case by (cases "getShadowedDescriptor prototype p") (simp_all add: distinct_set_prop)
  qed simp
  then show ?thesis by (simp add: getShadowProperties_def)
qed

lemma members_lookup:
  "map_get (members_at h p) k = (if p < length h then map_option (\<lambda>x. case x of Member d \<Rightarrow> d
     | _ \<Rightarrow> \<lparr>d_value = Some (OwnFunction k), d_get = None, d_set = None\<rparr>) (own_at h p k) else map_get (members_at h p) k)"
proof -
  let ?f = "\<lambda>k x. case x of Member d \<Rightarrow> d | _ \<Rightarrow> \<lparr>d_value = Some (OwnFunction k), d_get = None, d_set = None\<rparr>"
  have "map_get (map (\<lambda>(k, x). (k, ?f k x)) ps) k = map_option (?f k) (map_get ps k)" for ps
    by (induction ps) (auto split: js_property.split)
  from this [of "ob_props (h ! p)"] show ?thesis by (simp add: members_at_def own_at_def object_at_def)
qed

lemma constructor_unblessed:
  assumes "getBlessedProperties cs = Inr ps"
  shows "''constructor'' \<notin> fst ` set ps"
proof -
  have "''constructor'' \<notin> set (map_keys (concat (map target_keys names)))" for names
    using target_suffix by (fastforce simp: suffix_def)
  then have "unblessed cs ''constructor''" by (simp add: unblessed_def suffix_def)
  from blessed_other [OF assms this] show ?thesis by (simp add: map_of_eq_None_iff)
qed

lemma shadow_refines:
  assumes "heap_ok h" "represents h a cs" "cs \<noteq> []" "links_statics en" "getBlessedProperties cs = Inr ps"
  obtains h' s where "shadow_at en a ps h = Inr (h', s)" "represents h' s (shadow cs ps)" "heap_ok h'" "heap_part h h'"
proof -
  obtain h1 s where ext: "js_extend en a h = Inr (h1, s)" "extended_by h a h1 s" using js_extend_new [OF assms(1-4)] .
  obtain c cs' where cs: "cs = c # cs'" using assms(3) by (cases cs) simp_all
  note ex = extended_byD [OF ext(2)] and below = links_below [OF assms(1-3)]
  let ?props = "getShadowProperties (members_at h1 (prototype_at h a)) ps"
  let ?h' = "fold (\<lambda>(k, d) h. set_own (s + 2) k (Member d) h) ?props h1"
  have get: "js_get h1 a ''prototype'' = Some (Ref (prototype_at h a))" "js_get h1 s ''prototype'' = Some (Ref (s + 2))"
    using below ex(6) heap_partD(1) [OF ex(2)] by (auto intro!: js_get_own)
  have run: "shadow_at en a ps h = Inr (?h', s)" by (simp add: shadow_at_def ext(1) get)
  have "map_get (members_at h1 (prototype_at h a)) k = map_get (cl_prototype c) k" if "k \<in> fst ` set ps" for k
  proof -
    have "k \<noteq> ''constructor''" using constructor_unblessed [OF assms(5)] that by blast
    then have "own_at h1 (prototype_at h a) k = map_option Member (map_get (cl_prototype c) k)"
      using assms(2) heap_partD(1) [OF ex(2) below(2)] by (simp add: cs)
    then show ?thesis
      using below(2) ex(4,8) by (simp add: members_lookup [of _ _ k] option.map_comp comp_def option.map_ident)
  qed
  then have props: "?props = getShadowProperties (cl_prototype c) ps" by (rule shadow_cong)
  have proto: "proto_at ?h' b = proto_at h1 b" for b by simp
  have own: "own_at ?h' b k = (if b = s + 2 then (case map_get ?props k of Some d \<Rightarrow> Some (Member d)
      | None \<Rightarrow> own_at h1 b k) else own_at h1 b k)" for b k
    by (simp add: ex(8) map_get_rev [OF distinct_shadow])
  have part: "heap_part h ?h'"
    using heap_partD(1-3) [OF ex(2)] ex(4) unfolding heap_part_def own proto by (simp add: fun_eq_iff own)
  have "represents ?h' s (\<lparr>cl_statics = [], cl_prototype = getShadowProperties (cl_prototype c) ps\<rparr> # cs)"
  proof (rule represents_new [OF assms(1) part assms(2), where p = "s + 2"])
    show "proto_at ?h' s = Some a" "proto_at ?h' (s + 2) = Some (prototype_at h a)" using ex(3,5) by simp_all
    show "own_at ?h' s ''prototype'' = Some (Ref (s + 2))" unfolding own by (simp add: ex(6))
    show "own_at ?h' s k = map_option Static (map_get (cl_statics \<lparr>cl_statics = [],
        cl_prototype = getShadowProperties (cl_prototype c) ps\<rparr>) k)" if "k \<noteq> ''prototype''" for k
      unfolding own using that by (simp add: ex(6))
    show "own_at ?h' (s + 2) k = map_option Member (map_get (cl_prototype \<lparr>cl_statics = [],
        cl_prototype = getShadowProperties (cl_prototype c) ps\<rparr>) k)" if "k \<noteq> ''constructor''" for k
      unfolding own using that ex(7) [of k] by (simp add: props split: option.splits)
  qed
  then have "represents ?h' s (shadow cs ps)" by (simp add: shadow_def cs)
  moreover have "heap_ok ?h'"
    by (rule heap_ok_new [OF assms(1) part]) (use proto heap_okD(5) [OF ex(1)] in simp)
  ultimately show thesis by (intro that [OF run _ _ part])
qed

text \<open>What an instance has.\<close>

lemma construct_lookup:
  assumes "heap_ok h" "represents h a cs" "cs \<noteq> []" "own_at h 0 k = None" "k \<notin> {''constructor'', ''context''}"
  shows "(case construct a h of (h', i) \<Rightarrow> js_get h' i k) = map_option Member (property_of cs k)"
proof -
  note below = links_below [OF assms(1-3)]
  have get: "js_get h a ''prototype'' = Some (Ref (prototype_at h a))" by (rule js_get_own [OF below(3)])
  define h' where "h' = h @ [\<lparr>ob_proto = Some (prototype_at h a), ob_props = [(''context'', Builtin)]\<rparr>]"
  have part: "heap_part h h'" by (simp add: heap_part_def h'_def fun_eq_iff)
  have ok: "heap_ok h'"
    by (rule heap_ok_new [OF assms(1) part]) (use below not_allocated in \<open>auto simp: h'_def split: if_splits\<close>)
  have "js_get h' (length h) k = js_get h' (prototype_at h a) k"
    using assms(5) not_allocated [of h "length h"] by (simp add: js_get_step [OF ok, of "length h"]) (simp add: h'_def)
  also have "\<dots> = js_get h' (prototype_at h' a) k" using heap_partD(4) [OF part below(1)] by simp
  also have "\<dots> = map_option Member (property_of cs k)"
    using member_lookup [OF ok _ _ represents_part [OF assms(1) part assms(2)]] assms(4,5)
      heap_part_builtin [OF assms(1) part, of k] by simp
  finally show ?thesis by (simp add: construct_def get h'_def)
qed

section \<open>Defining a class\<close>

definition class_ok :: "js_class \<Rightarrow> bool" where
  "class_ok c \<longleftrightarrow> distinct (map_keys (cl_statics c)) \<and> distinct (map_keys (cl_prototype c)) \<and>
     ''prototype'' \<notin> set (map_keys (cl_statics c))"

lemma filled_class:
  assumes "heap_ok h" "heap_ok h'" "heap_part h h'" "represents h b cs" "class_ok c"
    and "proto_at h' d = Some b" "proto_at h' p = Some (prototype_at h b)" "length h \<le> d" "length h \<le> p" "d \<noteq> p"
    and "\<And>k. own_at h' d k = (if k = ''prototype'' then Some (Ref p) else None)"
    and "\<And>k. own_at h' p k = (if k = ''constructor'' then Some (Ref d) else None)"
  defines "h2 \<equiv> fold (\<lambda>(k, v) h. set_own d k (Static v) h) (cl_statics c)
      (fold (\<lambda>(k, m) h. set_own p k (Member m) h) (cl_prototype c) h')"
  shows "represents h2 d (c # cs)" "heap_ok h2" "heap_part h h2"
proof -
  have bounds: "d < length h'" "p < length h'" using assms(6,7) by (auto dest: at_allocated(2))
  have proto: "proto_at h2 a = proto_at h' a" for a by (simp add: h2_def)
  have own: "own_at h2 a k =
      (if a = d then (case map_get (cl_statics c) k of Some v \<Rightarrow> Some (Static v) | None \<Rightarrow> own_at h' a k)
       else if a = p then (case map_get (cl_prototype c) k of Some m \<Rightarrow> Some (Member m) | None \<Rightarrow> own_at h' a k)
       else own_at h' a k)" for a k
    using assms(5,10) bounds by (auto simp: h2_def class_ok_def map_get_rev split: option.splits)
  have "length h2 = length h'" by (simp add: h2_def)
  then show part: "heap_part h h2"
    using heap_partD(1-3) [OF assms(3)] assms(8,9) unfolding heap_part_def by (auto simp: own proto fun_eq_iff)
  show "heap_ok h2" by (rule heap_ok_new [OF assms(1) part]) (use proto heap_okD(5) [OF assms(2)] in simp)
  have "map_get (cl_statics c) ''prototype'' = None" using assms(5) by (simp add: class_ok_def map_of_eq_None_iff)
  then show "represents h2 d (c # cs)"
    using assms(6,7,10)
    by (intro represents_new [OF assms(1) part assms(4), where p = p])
      (auto simp: own proto assms(11,12) split: option.splits)
qed

lemma new_pair: "new_function h = (fst (new_function h), length h)"
  by (simp add: new_function_def)

lemma define_class_represents:
  assumes "heap_ok h" "class_ok c"
    and "if b = None then cs = [] else represents h (the b) cs \<and> cs \<noteq> [] \<and> en_statics en \<noteq> CopyStatics"
  obtains h' d where "define_class en b c h = (h', d)" "represents h' d (c # cs)" "heap_ok h'" "heap_part h h'"
proof -
  let ?filled = "\<lambda>p h'. fold (\<lambda>(k, v). set_own (length h) k (Static v)) (cl_statics c)
      (fold (\<lambda>(k, m). set_own p k (Member m)) (cl_prototype c) h')"
  show thesis
  proof (cases b)
    case None
    let ?h' = "fst (new_function h)"
    have own: "own_at ?h' a k = (if a < length h then own_at h a k
        else if a = length h \<and> k = ''prototype'' then Some (Ref (length h + 1))
        else if a = length h + 1 \<and> k = ''constructor'' then Some (Ref (length h)) else None)" for a k
      by (auto simp: new_function_def not_allocated simp del: append_assoc)
    have proto: "proto_at ?h' a = (if a < length h then proto_at h a else if a = length h then Some 1
        else if a = length h + 1 then Some 0 else None)" for a
      by (auto simp: new_function_def not_allocated simp del: append_assoc)
    have part: "heap_part h ?h'" by (simp add: heap_part_def own proto fun_eq_iff) (simp add: new_function_def)
    have ok: "heap_ok ?h'"
      by (rule heap_ok_new [OF assms(1) part]) (use heap_okD(1) [OF assms(1)] in \<open>auto simp: proto split: if_splits\<close>)
    have base: "represents h 1 []" "prototype_at h 1 = 0"
      using heap_okD(4) [OF assms(1)] by (simp_all add: prototype_at_def)
    have filled: "represents (?filled (length h + 1) ?h') (length h) [c]" "heap_ok (?filled (length h + 1) ?h')"
        "heap_part h (?filled (length h + 1) ?h')"
      by (rule filled_class [OF assms(1) ok part base(1) assms(2)]; simp add: own proto base(2) [simplified])+
    have run: "define_class en b c h = (?filled (length h + 1) ?h', length h)"
      using own [of "length h" "''prototype''"] unfolding define_class_def None
      by (subst new_pair) simp
    have "cs = []" using assms(3) None by simp
    with filled(1) have "represents (?filled (length h + 1) ?h') (length h) (c # cs)" by (simp only:)
    from that [OF run this filled(2,3)] show thesis .
  next
    case (Some a)
    then have a: "represents h a cs" "cs \<noteq> []" "en_statics en \<noteq> CopyStatics" using assms(3) by simp_all
    let ?h' = "js_extends (en_statics en) (length h) (Some a) (fst (new_function h))"
    note ex = extended_byD [OF js_extends_new [OF assms(1) a]]
    have filled: "represents (?filled (length h + 2) ?h') (length h) (c # cs)" "heap_ok (?filled (length h + 2) ?h')"
        "heap_part h (?filled (length h + 2) ?h')"
      by (rule filled_class [OF assms(1) ex(1,2) a(1) assms(2) ex(3,5) _ _ _ ex(6,7)]; simp)+
    have run: "define_class en b c h = (?filled (length h + 2) ?h', length h)"
      using ex(6) [of "''prototype''"] unfolding define_class_def Some
      by (subst new_pair) simp
    from that [OF run filled] show thesis .
  qed
qed

text \<open>
  C24. Classes are objects, and blessing them does what the chains of classes say. Let a
  constructor, an object with its prototype and the links of both, stand for a chain of
  classes; blessing it fails exactly when blessing the chain fails, with the same error.
  Otherwise it makes new objects only, every constructor keeps standing for its chain, and
  the new one stands for the blessed chain: an instance made by it finds under every
  name what the chain has, provided that the built-in objects do not have the name. This
  holds with \<open>Reflect\<close> and with the fallback \<open>__extends\<close>, as long as prototypes can be set.
\<close>

theorem bless_at_refines_bless:
  assumes "heap_ok h" "represents h a cs" "cs \<noteq> []" "links_statics en"
    and "list_all (not_builtin h) [''classes'', ''targets'', ''values'']"
  shows "case bless cs of
      Inl e \<Rightarrow> bless_at en a h = Inl e
    | Inr blessed \<Rightarrow> (\<exists>h' s. bless_at en a h = Inr (h', s) \<and> represents h' s blessed \<and> heap_ok h' \<and>
        (\<forall>a' cs'. represents h a' cs' \<longrightarrow> represents h' a' cs') \<and>
        (\<forall>k. not_builtin h k \<and> k \<notin> {''constructor'', ''context''} \<longrightarrow>
           (case construct s h' of (h'', i) \<Rightarrow> js_get h'' i k) = map_option Member (property_of blessed k)))"
proof (cases "getBlessedProperties cs")
  case (Inl e)
  then show ?thesis by (simp add: bless_def bless_at_def blessed_properties_refine [OF assms(1,2,5)])
next
  case (Inr ps)
  from shadow_refines [OF assms(1-4) Inr] obtain h' s where run: "shadow_at en a ps h = Inr (h', s)"
      "represents h' s (shadow cs ps)" "heap_ok h'" "heap_part h h'" .
  have "(case construct s h' of (h'', i) \<Rightarrow> js_get h'' i k) = map_option Member (property_of (shadow cs ps) k)"
    if "not_builtin h k" "k \<notin> {''constructor'', ''context''}" for k
    using that heap_part_builtin [OF assms(1) run(4), of k]
    by (intro construct_lookup [OF run(3,2)]) (auto simp: shadow_def not_builtin_def)
  with run show ?thesis
    by (auto simp: bless_def bless_at_def blessed_properties_refine [OF assms(1,2,5)] Inr
        intro: represents_part [OF assms(1) run(4)])
qed

lemma base_heap_ok:
  assumes "''prototype'' \<notin> set function_names"
  shows "heap_ok (base_heap object_names function_names)"
    "not_builtin (base_heap object_names function_names) k \<longleftrightarrow> k \<notin> set object_names \<union> set function_names"
proof -
  have proto: "proto_at (base_heap object_names function_names) a = (if a = 1 then Some 0 else None)" for a
    by (auto simp: proto_at_def object_at_def base_heap_def less_Suc_eq)
  have own: "own_at (base_heap object_names function_names) 0 k = (if k \<in> set object_names then Some Builtin else None)"
    "own_at (base_heap object_names function_names) 1 k = (if k \<in> set function_names then Some Builtin else None)" for k
    by (auto simp: own_at_def object_at_def base_heap_def map_of_eq_None_iff map_of_map_restrict restrict_map_def)
  show "not_builtin (base_heap object_names function_names) k \<longleftrightarrow> k \<notin> set object_names \<union> set function_names"
    unfolding not_builtin_def own by simp
  show "heap_ok (base_heap object_names function_names)"
    using assms unfolding heap_ok_def proto own by (simp add: base_heap_def)
qed

theorem bless_at_refines_bless_witness:
  "\<exists>h a h' s. represents h a sample_class \<and>
     bless_at \<lparr>en_statics = ProtoField, en_reflect = False\<rparr> a h = Inr (h', s) \<and>
     (case construct s h' of (h'', i) \<Rightarrow> js_get h'' i ''itemsTarget'') = Some (Member (getter (TargetGet ''items'')))"
proof -
  let ?en = "\<lparr>en_statics = ProtoField, en_reflect = False\<rparr>" and ?h = "base_heap [''toString''] [''call'']"
  have ok: "heap_ok ?h" and free: "not_builtin ?h k \<longleftrightarrow> k \<notin> {''toString'', ''call''}" for k
    using base_heap_ok [of "[''call'']" "[''toString'']"] by auto
  define c1 c2 where c: "c1 = sample_class ! 0" "c2 = sample_class ! 1"
  have classes: "sample_class = [c1, c2]" "class_ok c1" "class_ok c2" unfolding c by code_simp+
  obtain h1 d1 where "define_class ?en None c2 ?h = (h1, d1)"
      and one: "represents h1 d1 [c2]" "heap_ok h1" "heap_part ?h h1"
    by (rule define_class_represents [OF ok classes(3), of None "[]" ?en]) simp
  obtain h2 d2 where "define_class ?en (Some d1) c1 h1 = (h2, d2)"
      and two: "represents h2 d2 [c1, c2]" "heap_ok h2" "heap_part h1 h2"
    by (rule define_class_represents [OF one(2) classes(2), of "Some d1" "[c2]" ?en]) (simp add: one(1) del: represents.simps)
  have builtin: "not_builtin h2 k \<longleftrightarrow> k \<notin> {''toString'', ''call''}" for k
    using free [of k] not_builtin_part [OF ok one(3)] not_builtin_part [OF one(2) two(3)] by simp
  obtain blessed where blessed: "bless sample_class = Inr blessed"
    using sample_class_facts(1) by (cases "getBlessedProperties sample_class") (auto simp: bless_def)
  have items: "property_of blessed ''itemsTarget'' = Some (getter (TargetGet ''items''))"
    using blessed_properties(1) [OF blessed, of "''items''"] sample_class_facts(2-5) by simp
  have rep: "represents h2 d2 sample_class" using two(1) classes(1) by (simp only:)
  have "sample_class \<noteq> []" "links_statics ?en" "list_all (not_builtin h2) [''classes'', ''targets'', ''values'']"
    by (simp_all add: sample_class_def links_statics_def builtin)
  from bless_at_refines_bless [OF two(2) rep this, unfolded blessed sum.case]
  obtain h' s where run: "bless_at ?en d2 h2 = Inr (h', s)"
      and read: "not_builtin h2 k \<and> k \<notin> {''constructor'', ''context''} \<longrightarrow>
        (case construct s h' of (h'', i) \<Rightarrow> js_get h'' i k) = map_option Member (property_of blessed k)" for k
    by blast
  have "(case construct s h' of (h'', i) \<Rightarrow> js_get h'' i ''itemsTarget'') = Some (Member (getter (TargetGet ''items'')))"
    using read [of "''itemsTarget''"] builtin items by simp
  with rep run show ?thesis by (intro exI conjI)
qed

end
