(* ===== verification/Stimulus_Wiring.thy ===== *)
theory Stimulus_Wiring
  imports Js_Prelude "HOL-Library.Monad_Syntax" "HOL-Library.Sublist"
begin

text \<open>
  How the objects of stimulus.js refer to each other: the constructors in the order in which
  they set their fields, and the getters that forward a field of another object. The state
  records of the other theories share the element, the schema and the dispatcher; here it is
  shown that this is what the objects do, and that no constructor reads a field too early.
\<close>

section \<open>Objects and their getters\<close>

datatype kind =
    KSchema | KApplication | KDispatcher | KRouter | KScopeObserver | KValueListObserver | KTokenListObserver
  | KAttributeObserver | KElementObserver | KStringMapObserver | KDefinition | KModule | KScope | KTargetSet
  | KClassMap | KDataMap | KGuide | KContext | KController | KBindingObserver | KValueObserver | KAction | KBinding

text \<open>A field holds an object, an element, a text, a flag, or something from outside.\<close>

datatype js_field = FObj nat | FElem nat | FText jsstr | FFlag bool | FExternal jsstr | FUndef

record instance_object =
  in_kind :: kind
  in_fields :: "(jsstr \<times> js_field) list"

type_synonym object_store = "instance_object list"

text \<open>A getter is the path that it follows from \<open>this\<close>.\<close>

type_synonym getter_table = "(jsstr \<times> jsstr list) list"

definition Binding_action_getters :: getter_table where
  "Binding_action_getters =
     [(''index'', [''action'', ''index'']), (''eventTarget'', [''action'', ''eventTarget'']),
      (''eventOptions'', [''action'', ''eventOptions'']), (''identifier'', [''context'', ''identifier''])]"

definition Binding_eventName_getter :: getter_table where
  "Binding_eventName_getter = [(''eventName'', [''action'', ''eventName''])]"

definition Binding_context_getters :: getter_table where
  "Binding_context_getters =
     [(''controller'', [''context'', ''controller'']), (''methodName'', [''action'', ''methodName'']),
      (''element'', [''scope'', ''element'']), (''scope'', [''context'', ''scope''])]"

definition AttributeObserver_element_getter :: getter_table where
  "AttributeObserver_element_getter = [(''element'', [''elementObserver'', ''element''])]"

definition AttributeObserver_started_getter :: getter_table where
  "AttributeObserver_started_getter = [(''started'', [''elementObserver'', ''started''])]"

definition TokenListObserver_started_getter :: getter_table where
  "TokenListObserver_started_getter = [(''started'', [''attributeObserver'', ''started''])]"

definition TokenListObserver_getters :: getter_table where
  "TokenListObserver_getters =
     [(''element'', [''attributeObserver'', ''element'']), (''attributeName'', [''attributeObserver'', ''attributeName''])]"

definition ValueListObserver_started_getter :: getter_table where
  "ValueListObserver_started_getter = [(''started'', [''tokenListObserver'', ''started''])]"

definition ValueListObserver_getters :: getter_table where
  "ValueListObserver_getters =
     [(''element'', [''tokenListObserver'', ''element'']), (''attributeName'', [''tokenListObserver'', ''attributeName''])]"

definition BindingObserver_getters :: getter_table where
  "BindingObserver_getters =
     [(''element'', [''context'', ''element'']), (''identifier'', [''context'', ''identifier'']),
      (''actionAttribute'', [''schema'', ''actionAttribute'']), (''schema'', [''context'', ''schema''])]"

definition ValueObserver_getters :: getter_table where
  "ValueObserver_getters = [(''element'', [''context'', ''element'']), (''controller'', [''context'', ''controller''])]"

definition Context_getters :: getter_table where
  "Context_getters =
     [(''application'', [''module'', ''application'']), (''identifier'', [''module'', ''identifier'']),
      (''schema'', [''application'', ''schema'']), (''dispatcher'', [''application'', ''dispatcher'']),
      (''element'', [''scope'', ''element''])]"

definition Module_getters :: getter_table where
  "Module_getters =
     [(''identifier'', [''definition'', ''identifier'']),
      (''controllerConstructor'', [''definition'', ''controllerConstructor''])]"

definition ClassMap_getters :: getter_table where
  "ClassMap_getters = [(''data'', [''scope'', ''data''])]"

definition DataMap_getters :: getter_table where
  "DataMap_getters = [(''element'', [''scope'', ''element'']), (''identifier'', [''scope'', ''identifier''])]"

definition TargetSet_getters :: getter_table where
  "TargetSet_getters =
     [(''element'', [''scope'', ''element'']), (''identifier'', [''scope'', ''identifier'']),
      (''schema'', [''scope'', ''schema''])]"

definition TargetSet_guide_getter :: getter_table where
  "TargetSet_guide_getter = [(''guide'', [''scope'', ''guide''])]"

definition ScopeObserver_getters :: getter_table where
  "ScopeObserver_getters = [(''controllerAttribute'', [''schema'', ''controllerAttribute''])]"

definition Router_getters :: getter_table where
  "Router_getters =
     [(''element'', [''application'', ''element'']), (''schema'', [''application'', ''schema'']),
      (''logger'', [''application'', ''logger'']), (''controllerAttribute'', [''schema'', ''controllerAttribute''])]"

definition Controller_getters :: getter_table where
  "Controller_getters =
     [(''application'', [''context'', ''application'']), (''scope'', [''context'', ''scope'']),
      (''element'', [''scope'', ''element'']), (''identifier'', [''scope'', ''identifier'']),
      (''targets'', [''scope'', ''targets'']), (''classes'', [''scope'', ''classes'']), (''data'', [''scope'', ''data''])]"

fun getters_of :: "kind \<Rightarrow> getter_table" where
  "getters_of KBinding = Binding_action_getters @ Binding_eventName_getter @ Binding_context_getters"
| "getters_of KAttributeObserver = AttributeObserver_element_getter @ AttributeObserver_started_getter"
| "getters_of KTokenListObserver = TokenListObserver_started_getter @ TokenListObserver_getters"
| "getters_of KValueListObserver = ValueListObserver_started_getter @ ValueListObserver_getters"
| "getters_of KBindingObserver = BindingObserver_getters"
| "getters_of KValueObserver = ValueObserver_getters"
| "getters_of KContext = Context_getters"
| "getters_of KModule = Module_getters"
| "getters_of KClassMap = ClassMap_getters"
| "getters_of KDataMap = DataMap_getters"
| "getters_of KTargetSet = TargetSet_getters @ TargetSet_guide_getter"
| "getters_of KScopeObserver = ScopeObserver_getters"
| "getters_of KRouter = Router_getters"
| "getters_of KController = Controller_getters"
| "getters_of _ = []"

text \<open>
  Reading \<open>v.k.l\<close>: own fields come first, a getter is replaced by its path, a name that is
  neither gives undefined, and reading a property of undefined fails. The fuel bounds the
  steps; forty are more than any path of the program takes.
\<close>

fun read_path :: "nat \<Rightarrow> object_store \<Rightarrow> js_field \<Rightarrow> jsstr list \<Rightarrow> js_field option" where
  "read_path n st v [] = Some v"
| "read_path 0 st v (k # ks) = None"
| "read_path (Suc n) st v (k # ks) =
     (case v of
        FObj a \<Rightarrow>
          (if a < length st
           then (case map_get (in_fields (st ! a)) k of
                   Some w \<Rightarrow> read_path n st w ks
                 | None \<Rightarrow>
                     (case map_get (getters_of (in_kind (st ! a))) k of
                        Some path \<Rightarrow> read_path n st (FObj a) (path @ ks)
                      | None \<Rightarrow> read_path n st FUndef ks))
           else None)
      | _ \<Rightarrow> None)"

definition js_read :: "object_store \<Rightarrow> js_field \<Rightarrow> jsstr list \<Rightarrow> js_field option" where
  "js_read st v ks = read_path 40 st v ks"

definition set_field :: "nat \<Rightarrow> jsstr \<Rightarrow> js_field \<Rightarrow> object_store \<Rightarrow> object_store" where
  "set_field a k v st = st[a := (st ! a)\<lparr>in_fields := map_set k v (in_fields (st ! a))\<rparr>]"

definition new_object :: "kind \<Rightarrow> (jsstr \<times> js_field) list \<Rightarrow> object_store \<Rightarrow> (nat \<times> object_store) option" where
  "new_object k fs st = Some (length st, st @ [\<lparr>in_kind = k, in_fields = fs\<rparr>])"

section \<open>Constructors\<close>

text \<open>The collections that the objects own are the subject of the other theories.\<close>

definition make_ElementObserver :: "js_field \<Rightarrow> js_field \<Rightarrow> object_store \<Rightarrow> (nat \<times> object_store) option" where
  "make_ElementObserver element delegate =
     new_object KElementObserver [(''element'', element), (''started'', FFlag False), (''delegate'', delegate)]"

definition make_AttributeObserver :: "js_field \<Rightarrow> js_field \<Rightarrow> js_field \<Rightarrow> object_store \<Rightarrow> (nat \<times> object_store) option" where
  "make_AttributeObserver element attributeName delegate st =
     do {
       (this, st) \<leftarrow> new_object KAttributeObserver [(''attributeName'', attributeName), (''delegate'', delegate)] st;
       (ob, st) \<leftarrow> make_ElementObserver element (FObj this) st;
       Some (this, set_field this ''elementObserver'' (FObj ob) st)
     }"

definition make_TokenListObserver :: "js_field \<Rightarrow> js_field \<Rightarrow> js_field \<Rightarrow> object_store \<Rightarrow> (nat \<times> object_store) option" where
  "make_TokenListObserver element attributeName delegate st =
     do {
       (this, st) \<leftarrow> new_object KTokenListObserver [] st;
       (ob, st) \<leftarrow> make_AttributeObserver element attributeName (FObj this) st;
       Some (this, set_field this ''delegate'' delegate (set_field this ''attributeObserver'' (FObj ob) st))
     }"

definition make_ValueListObserver :: "js_field \<Rightarrow> js_field \<Rightarrow> js_field \<Rightarrow> object_store \<Rightarrow> (nat \<times> object_store) option" where
  "make_ValueListObserver element attributeName delegate st =
     do {
       (this, st) \<leftarrow> new_object KValueListObserver [] st;
       (ob, st) \<leftarrow> make_TokenListObserver element attributeName (FObj this) st;
       Some (this, set_field this ''delegate'' delegate (set_field this ''tokenListObserver'' (FObj ob) st))
     }"

definition make_ScopeObserver :: "js_field \<Rightarrow> js_field \<Rightarrow> js_field \<Rightarrow> object_store \<Rightarrow> (nat \<times> object_store) option" where
  "make_ScopeObserver element schema delegate st =
     do {
       (this, st) \<leftarrow> new_object KScopeObserver [(''element'', element), (''schema'', schema), (''delegate'', delegate)] st;
       e \<leftarrow> js_read st (FObj this) [''element''];
       n \<leftarrow> js_read st (FObj this) [''controllerAttribute''];
       (ob, st) \<leftarrow> make_ValueListObserver e n (FObj this) st;
       Some (this, set_field this ''valueListObserver'' (FObj ob) st)
     }"

definition make_Router :: "js_field \<Rightarrow> object_store \<Rightarrow> (nat \<times> object_store) option" where
  "make_Router application st =
     do {
       (this, st) \<leftarrow> new_object KRouter [(''application'', application)] st;
       e \<leftarrow> js_read st (FObj this) [''element''];
       s \<leftarrow> js_read st (FObj this) [''schema''];
       (ob, st) \<leftarrow> make_ScopeObserver e s (FObj this) st;
       Some (this, set_field this ''scopeObserver'' (FObj ob) st)
     }"

definition make_Dispatcher :: "js_field \<Rightarrow> object_store \<Rightarrow> (nat \<times> object_store) option" where
  "make_Dispatcher application = new_object KDispatcher [(''application'', application), (''started'', FFlag False)]"

definition make_Application :: "js_field \<Rightarrow> js_field \<Rightarrow> object_store \<Rightarrow> (nat \<times> object_store) option" where
  "make_Application element schema st =
     do {
       (this, st) \<leftarrow> new_object KApplication
          [(''logger'', FExternal ''console''), (''element'', element), (''schema'', schema)] st;
       (d, st) \<leftarrow> make_Dispatcher (FObj this) st;
       let st = set_field this ''dispatcher'' (FObj d) st;
       (r, st) \<leftarrow> make_Router (FObj this) st;
       Some (this, set_field this ''router'' (FObj r) st)
     }"

definition make_Module :: "js_field \<Rightarrow> jsstr \<Rightarrow> jsstr \<Rightarrow> object_store \<Rightarrow> (nat \<times> object_store) option" where
  "make_Module application ident ctor st =
     do {
       (this, st) \<leftarrow> new_object KModule [(''application'', application)] st;
       (df, st) \<leftarrow> new_object KDefinition [(''identifier'', FText ident), (''controllerConstructor'', FExternal ctor)] st;
       Some (this, set_field this ''definition'' (FObj df) st)
     }"

definition make_TargetSet :: "js_field \<Rightarrow> object_store \<Rightarrow> (nat \<times> object_store) option" where
  "make_TargetSet sc = new_object KTargetSet [(''scope'', sc)]"

definition make_ClassMap :: "js_field \<Rightarrow> object_store \<Rightarrow> (nat \<times> object_store) option" where
  "make_ClassMap sc = new_object KClassMap [(''scope'', sc)]"

definition make_DataMap :: "js_field \<Rightarrow> object_store \<Rightarrow> (nat \<times> object_store) option" where
  "make_DataMap sc = new_object KDataMap [(''scope'', sc)]"

definition make_Guide :: "js_field \<Rightarrow> object_store \<Rightarrow> (nat \<times> object_store) option" where
  "make_Guide logger = new_object KGuide [(''logger'', logger)]"

definition make_Scope :: "js_field \<Rightarrow> js_field \<Rightarrow> js_field \<Rightarrow> js_field \<Rightarrow> object_store \<Rightarrow> (nat \<times> object_store) option" where
  "make_Scope schema element identifier logger st =
     do {
       (this, st) \<leftarrow> new_object KScope [] st;
       (t, st) \<leftarrow> make_TargetSet (FObj this) st;
       let st = set_field this ''targets'' (FObj t) st;
       (c, st) \<leftarrow> make_ClassMap (FObj this) st;
       let st = set_field this ''classes'' (FObj c) st;
       (d, st) \<leftarrow> make_DataMap (FObj this) st;
       let st = set_field this ''identifier'' identifier (set_field this ''element'' element
         (set_field this ''schema'' schema (set_field this ''data'' (FObj d) st)));
       (g, st) \<leftarrow> make_Guide logger st;
       Some (this, set_field this ''guide'' (FObj g) st)
     }"

definition make_Controller :: "js_field \<Rightarrow> object_store \<Rightarrow> (nat \<times> object_store) option" where
  "make_Controller context = new_object KController [(''context'', context)]"

definition make_BindingObserver :: "js_field \<Rightarrow> js_field \<Rightarrow> object_store \<Rightarrow> (nat \<times> object_store) option" where
  "make_BindingObserver context delegate = new_object KBindingObserver [(''context'', context), (''delegate'', delegate)]"

definition make_StringMapObserver :: "js_field \<Rightarrow> js_field \<Rightarrow> object_store \<Rightarrow> (nat \<times> object_store) option" where
  "make_StringMapObserver element delegate =
     new_object KStringMapObserver [(''element'', element), (''delegate'', delegate), (''started'', FFlag False)]"

text \<open>
  The callbacks for default values that \<open>ValueObserver\<close> makes at its end, in
  Stimulus\_Context, read \<open>this.controller.data\<close>; that it can be read is part of the constructor.
  The blessed getter \<open>valueDescriptorMap\<close> is no field of this store and reads as undefined; the
  map it gives is in Stimulus\_Context.
\<close>

definition make_ValueObserver :: "js_field \<Rightarrow> js_field \<Rightarrow> object_store \<Rightarrow> (nat \<times> object_store) option" where
  "make_ValueObserver context receiver st =
     do {
       (this, st) \<leftarrow> new_object KValueObserver [(''context'', context), (''receiver'', receiver)] st;
       e \<leftarrow> js_read st (FObj this) [''element''];
       (ob, st) \<leftarrow> make_StringMapObserver e (FObj this) st;
       let st = set_field this ''stringMapObserver'' (FObj ob) st;
       m \<leftarrow> js_read st (FObj this) [''controller'', ''valueDescriptorMap''];
       let st = set_field this ''valueDescriptorMap'' m st;
       d \<leftarrow> js_read st (FObj this) [''controller'', ''data'', ''identifier''];
       Some (this, st)
     }"

definition make_Context :: "nat \<Rightarrow> nat \<Rightarrow> object_store \<Rightarrow> (nat \<times> object_store) option" where
  "make_Context module scope st =
     do {
       (this, st) \<leftarrow> new_object KContext [(''module'', FObj module), (''scope'', FObj scope)] st;
       ctor \<leftarrow> js_read st (FObj module) [''controllerConstructor''];
       (c, st) \<leftarrow> make_Controller (FObj this) st;
       let st = set_field this ''controller'' (FObj c) st;
       d \<leftarrow> js_read st (FObj this) [''dispatcher''];
       (b, st) \<leftarrow> make_BindingObserver (FObj this) d st;
       let st = set_field this ''bindingObserver'' (FObj b) st;
       r \<leftarrow> js_read st (FObj this) [''controller''];
       (v, st) \<leftarrow> make_ValueObserver (FObj this) r st;
       Some (this, set_field this ''valueObserver'' (FObj v) st)
     }"

definition make_Binding :: "js_field \<Rightarrow> js_field \<Rightarrow> object_store \<Rightarrow> (nat \<times> object_store) option" where
  "make_Binding context action = new_object KBinding [(''context'', context), (''action'', action)]"

section \<open>The objects of a page\<close>

text \<open>
  What makes objects after the application: loading a definition, a new scope, the context of
  a scope in the module with its identifier, and an action,
  with any fields, that a binding observer connects. A call for objects
  that do not exist is not made.
\<close>

datatype wiring_call =
    LoadModule jsstr jsstr
  | CreateScope nat jsstr
  | CreateContext nat nat
  | ConnectAction nat "(jsstr \<times> js_field) list"

definition is_kind :: "object_store \<Rightarrow> kind \<Rightarrow> nat \<Rightarrow> bool" where
  "is_kind st k a \<longleftrightarrow> a < length st \<and> in_kind (st ! a) = k"

fun wiring_step :: "nat \<Rightarrow> wiring_call \<Rightarrow> object_store \<Rightarrow> (nat \<times> object_store) option" where
  "wiring_step app (LoadModule ident ctor) st = make_Module (FObj app) ident ctor st"
| "wiring_step app (CreateScope element ident) st =
     do {
       r \<leftarrow> js_read st (FObj app) [''router''];
       s \<leftarrow> js_read st r [''schema''];
       l \<leftarrow> js_read st r [''logger''];
       make_Scope s (FElem element) (FText ident) l st
     }"
| "wiring_step app (CreateContext m s) st =
     (if is_kind st KModule m \<and> is_kind st KScope s \<and>
         js_read st (FObj m) [''identifier''] = js_read st (FObj s) [''identifier'']
      then make_Context m s st else Some (app, st))"
| "wiring_step app (ConnectAction c fs) st =
     (if is_kind st KContext c
      then do {
        b \<leftarrow> js_read st (FObj c) [''bindingObserver''];
        (x, st) \<leftarrow> new_object KAction fs st;
        ctx \<leftarrow> js_read st b [''context''];
        make_Binding ctx (FObj x) st
      }
      else Some (app, st))"

fun wiring_run :: "nat \<Rightarrow> wiring_call list \<Rightarrow> object_store \<Rightarrow> object_store option" where
  "wiring_run app [] st = Some st"
| "wiring_run app (call # calls) st = do { (a, st) \<leftarrow> wiring_step app call st; wiring_run app calls st }"

definition schema_object :: "jsstr \<Rightarrow> jsstr \<Rightarrow> jsstr \<Rightarrow> instance_object" where
  "schema_object controllerAttribute actionAttribute targetAttribute =
     \<lparr>in_kind = KSchema, in_fields = [(''controllerAttribute'', FText controllerAttribute),
        (''actionAttribute'', FText actionAttribute), (''targetAttribute'', FText targetAttribute)]\<rparr>"

section \<open>What the constructors make\<close>

text \<open>The objects of an application on the element \<open>el\<close>, the schema being at 0.\<close>

definition page_objects :: "nat \<Rightarrow> jsstr \<Rightarrow> jsstr \<Rightarrow> jsstr \<Rightarrow> object_store" where
  "page_objects el controllers actions targets =
     [schema_object controllers actions targets,
      \<lparr>in_kind = KApplication, in_fields = [(''logger'', FExternal ''console''), (''element'', FElem el),
         (''schema'', FObj 0), (''dispatcher'', FObj 2), (''router'', FObj 3)]\<rparr>,
      \<lparr>in_kind = KDispatcher, in_fields = [(''application'', FObj 1), (''started'', FFlag False)]\<rparr>,
      \<lparr>in_kind = KRouter, in_fields = [(''application'', FObj 1), (''scopeObserver'', FObj 4)]\<rparr>,
      \<lparr>in_kind = KScopeObserver, in_fields = [(''element'', FElem el), (''schema'', FObj 0), (''delegate'', FObj 3),
         (''valueListObserver'', FObj 5)]\<rparr>,
      \<lparr>in_kind = KValueListObserver, in_fields = [(''tokenListObserver'', FObj 6), (''delegate'', FObj 4)]\<rparr>,
      \<lparr>in_kind = KTokenListObserver, in_fields = [(''attributeObserver'', FObj 7), (''delegate'', FObj 5)]\<rparr>,
      \<lparr>in_kind = KAttributeObserver, in_fields = [(''attributeName'', FText controllers), (''delegate'', FObj 6),
         (''elementObserver'', FObj 8)]\<rparr>,
      \<lparr>in_kind = KElementObserver, in_fields = [(''element'', FElem el), (''started'', FFlag False), (''delegate'', FObj 7)]\<rparr>]"

definition module_objects :: "nat \<Rightarrow> jsstr \<Rightarrow> jsstr \<Rightarrow> object_store" where
  "module_objects a ident ctor =
     [\<lparr>in_kind = KModule, in_fields = [(''application'', FObj 1), (''definition'', FObj (a + 1))]\<rparr>,
      \<lparr>in_kind = KDefinition, in_fields = [(''identifier'', FText ident), (''controllerConstructor'', FExternal ctor)]\<rparr>]"

definition scope_objects :: "nat \<Rightarrow> nat \<Rightarrow> jsstr \<Rightarrow> object_store" where
  "scope_objects a e ident =
     [\<lparr>in_kind = KScope, in_fields = [(''targets'', FObj (a + 1)), (''classes'', FObj (a + 2)), (''data'', FObj (a + 3)),
         (''schema'', FObj 0), (''element'', FElem e), (''identifier'', FText ident), (''guide'', FObj (a + 4))]\<rparr>,
      \<lparr>in_kind = KTargetSet, in_fields = [(''scope'', FObj a)]\<rparr>,
      \<lparr>in_kind = KClassMap, in_fields = [(''scope'', FObj a)]\<rparr>,
      \<lparr>in_kind = KDataMap, in_fields = [(''scope'', FObj a)]\<rparr>,
      \<lparr>in_kind = KGuide, in_fields = [(''logger'', FExternal ''console'')]\<rparr>]"

definition context_objects :: "nat \<Rightarrow> nat \<Rightarrow> nat \<Rightarrow> nat \<Rightarrow> object_store" where
  "context_objects a m s e =
     [\<lparr>in_kind = KContext, in_fields = [(''module'', FObj m), (''scope'', FObj s), (''controller'', FObj (a + 1)),
         (''bindingObserver'', FObj (a + 2)), (''valueObserver'', FObj (a + 3))]\<rparr>,
      \<lparr>in_kind = KController, in_fields = [(''context'', FObj a)]\<rparr>,
      \<lparr>in_kind = KBindingObserver, in_fields = [(''context'', FObj a), (''delegate'', FObj 2)]\<rparr>,
      \<lparr>in_kind = KValueObserver, in_fields = [(''context'', FObj a), (''receiver'', FObj (a + 1)),
         (''stringMapObserver'', FObj (a + 4)), (''valueDescriptorMap'', FUndef)]\<rparr>,
      \<lparr>in_kind = KStringMapObserver, in_fields = [(''element'', FElem e), (''delegate'', FObj (a + 3)), (''started'', FFlag False)]\<rparr>]"

definition binding_objects :: "nat \<Rightarrow> nat \<Rightarrow> (jsstr \<times> js_field) list \<Rightarrow> object_store" where
  "binding_objects a c fs =
     [\<lparr>in_kind = KAction, in_fields = fs\<rparr>,
      \<lparr>in_kind = KBinding, in_fields = [(''context'', FObj c), (''action'', FObj a)]\<rparr>]"

text \<open>Objects that stand one after the other in the store.\<close>

fun block_at :: "object_store \<Rightarrow> nat \<Rightarrow> object_store \<Rightarrow> bool" where
  "block_at st a [] \<longleftrightarrow> True"
| "block_at st a (ob # obs) \<longleftrightarrow> a < length st \<and> st ! a = ob \<and> block_at st (Suc a) obs"

lemma block_at_append: "block_at st a obs \<Longrightarrow> block_at (st @ more_objects) a obs"
  by (induction obs arbitrary: a) (auto simp: nth_append)

lemma block_at_new: "block_at (st @ obs) (length st) obs"
proof -
  have "block_at (pre @ obs) (length pre) obs" for pre
  proof (induction obs arbitrary: pre)
    case (Cons ob obs)
    from Cons.IH [of "pre @ [ob]"] show ?case by simp
  qed simp
  then show ?thesis .
qed

lemmas getter_defs = Binding_action_getters_def Binding_eventName_getter_def Binding_context_getters_def
  AttributeObserver_element_getter_def AttributeObserver_started_getter_def TokenListObserver_started_getter_def
  TokenListObserver_getters_def ValueListObserver_started_getter_def ValueListObserver_getters_def
  BindingObserver_getters_def ValueObserver_getters_def Context_getters_def Module_getters_def ClassMap_getters_def
  DataMap_getters_def TargetSet_getters_def TargetSet_guide_getter_def ScopeObserver_getters_def Router_getters_def
  Controller_getters_def

lemmas object_defs = page_objects_def module_objects_def scope_objects_def context_objects_def binding_objects_def
  schema_object_def

lemmas make_defs = new_object_def make_ElementObserver_def make_AttributeObserver_def
  make_TokenListObserver_def make_ValueListObserver_def make_ScopeObserver_def make_Router_def make_Dispatcher_def
  make_Application_def make_Module_def make_TargetSet_def make_ClassMap_def make_DataMap_def make_Guide_def
  make_Scope_def make_Controller_def make_BindingObserver_def make_StringMapObserver_def make_ValueObserver_def
  make_Context_def make_Binding_def

lemma read_path_numeral [simp]:
  "read_path (numeral n) st v (k # ks) =
     (case v of
        FObj a \<Rightarrow>
          (if a < length st
           then (case map_get (in_fields (st ! a)) k of
                   Some w \<Rightarrow> read_path (pred_numeral n) st w ks
                 | None \<Rightarrow>
                     (case map_get (getters_of (in_kind (st ! a))) k of
                        Some path \<Rightarrow> read_path (pred_numeral n) st (FObj a) (path @ ks)
                      | None \<Rightarrow> read_path (pred_numeral n) st FUndef ks))
           else None)
      | _ \<Rightarrow> None)"
  by (simp add: numeral_eq_Suc)

lemma make_Application_objects:
  "make_Application (FElem el) (FObj 0) [schema_object controllers actions targets] =
     Some (1, page_objects el controllers actions targets)"
  by (simp add: make_defs set_field_def object_defs getter_defs js_read_def numeral_nat)

text \<open>Fields of the objects that were just made.\<close>

lemma set_field_new [simp]:
  "set_field (length st) k v (st @ ob # obs) = st @ ob\<lparr>in_fields := map_set k v (in_fields ob)\<rparr> # obs"
  "set_field (Suc (length st)) k v (st @ o1 # ob # obs) = st @ o1 # ob\<lparr>in_fields := map_set k v (in_fields ob)\<rparr> # obs"
  "set_field (Suc (Suc (Suc (length st)))) k v (st @ o1 # o2 # o3 # ob # obs) =
     st @ o1 # o2 # o3 # ob\<lparr>in_fields := map_set k v (in_fields ob)\<rparr> # obs"
  by (simp_all add: set_field_def list_update_append nth_append)

lemma js_read_new: "js_read (st @ ob # obs) v ks = read_path 40 (st @ ob # obs) v ks"
  by (simp add: js_read_def)

lemma add_small: "(a::nat) + 2 = Suc (Suc a)" "a + 3 = Suc (Suc (Suc a))" "a + 4 = Suc (Suc (Suc (Suc a)))"
  by simp_all

lemma make_Module_objects: "make_Module (FObj 1) ident ctor st = Some (length st, st @ module_objects (length st) ident ctor)"
  by (simp add: make_defs object_defs)

lemma make_Scope_objects:
  "make_Scope (FObj 0) (FElem e) (FText ident) (FExternal ''console'') st =
     Some (length st, st @ scope_objects (length st) e ident)"
  by (simp add: make_defs object_defs add_small)

lemma make_Context_objects:
  assumes "block_at st 0 (page_objects el controllers actions targets)"
    and "block_at st m (module_objects m ident ctor)" "block_at st s (scope_objects s e ident)"
  shows "make_Context m s st = Some (length st, st @ context_objects (length st) m s e)"
proof -
  have page: "st ! 1 = \<lparr>in_kind = KApplication, in_fields = [(''logger'', FExternal ''console''), (''element'', FElem el),
         (''schema'', FObj 0), (''dispatcher'', FObj 2), (''router'', FObj 3)]\<rparr>" "1 < length st"
    using assms(1) by (simp_all add: page_objects_def)
  note module = assms(2) [unfolded module_objects_def, simplified]
    and scope = assms(3) [unfolded scope_objects_def add_small, simplified]
  show ?thesis
    by (simp add: make_defs js_read_new nth_append page [simplified] module scope context_objects_def add_small
        getter_defs less_SucI)
qed

section \<open>Every object of a page is wired\<close>

definition object_wired :: "object_store \<Rightarrow> nat \<Rightarrow> bool" where
  "object_wired st a \<longleftrightarrow>
     (is_kind st KModule a \<longrightarrow> (\<exists>ident ctor. block_at st a (module_objects a ident ctor))) \<and>
     (is_kind st KScope a \<longrightarrow> (\<exists>e ident. block_at st a (scope_objects a e ident))) \<and>
     (is_kind st KContext a \<longrightarrow> (\<exists>m s e ident ctor. block_at st m (module_objects m ident ctor) \<and>
        block_at st s (scope_objects s e ident) \<and> block_at st a (context_objects a m s e))) \<and>
     (is_kind st KBinding a \<longrightarrow> (\<exists>c x fs. a = Suc x \<and> is_kind st KContext c \<and>
        block_at st x (binding_objects x c fs)))"

definition page_wired :: "nat \<Rightarrow> jsstr \<Rightarrow> jsstr \<Rightarrow> jsstr \<Rightarrow> object_store \<Rightarrow> bool" where
  "page_wired el controllers actions targets st \<longleftrightarrow>
     block_at st 0 (page_objects el controllers actions targets) \<and> (\<forall>a. object_wired st a)"

lemma is_kind_append:
  "is_kind (st @ obs) k a \<longleftrightarrow> is_kind st k a \<or> (\<exists>i < length obs. a = length st + i \<and> in_kind (obs ! i) = k)"
proof (cases "a < length st")
  case False
  then obtain i where "a = length st + i" using le_Suc_ex not_less by blast
  then show ?thesis by (simp add: is_kind_def)
qed (auto simp: is_kind_def nth_append)

lemma is_kind_block: "block_at st a (ob # obs) \<Longrightarrow> is_kind st (in_kind ob) a"
  by (simp add: is_kind_def)

lemma object_wired_append: "a < length st \<Longrightarrow> object_wired st a \<Longrightarrow> object_wired (st @ obs) a"
  unfolding object_wired_def is_kind_append by (auto intro: block_at_append simp: is_kind_append) (metis block_at_append)+

lemma page_wired_append:
  assumes "page_wired el controllers actions targets st"
    and "\<And>i. i < length obs \<Longrightarrow> object_wired (st @ obs) (length st + i)"
  shows "page_wired el controllers actions targets (st @ obs)"
proof -
  have "object_wired (st @ obs) a" for a
  proof -
    consider "a < length st" | i where "i < length obs" "a = length st + i" | "length (st @ obs) \<le> a"
      by (metis add_diff_inverse_nat le_add_diff_inverse length_append nat_add_left_cancel_less not_le)
    then show ?thesis
    proof cases
      case 1
      then show ?thesis using assms(1) by (intro object_wired_append) (auto simp: page_wired_def)
    next
      case 2
      then show ?thesis using assms(2) by simp
    next
      case 3
      then show ?thesis by (simp add: object_wired_def is_kind_def)
    qed
  qed
  then show ?thesis using assms(1) block_at_append unfolding page_wired_def by blast
qed

lemma object_wiredD:
  assumes "object_wired st a"
  shows "is_kind st KModule a \<Longrightarrow> \<exists>ident ctor. block_at st a (module_objects a ident ctor)"
    and "is_kind st KScope a \<Longrightarrow> \<exists>e ident. block_at st a (scope_objects a e ident)"
    and "is_kind st KContext a \<Longrightarrow> \<exists>m s e ident ctor. block_at st m (module_objects m ident ctor) \<and>
        block_at st s (scope_objects s e ident) \<and> block_at st a (context_objects a m s e)"
    and "is_kind st KBinding a \<Longrightarrow> \<exists>c x fs. a = Suc x \<and> is_kind st KContext c \<and>
        block_at st x (binding_objects x c fs)"
  using assms by (simp_all add: object_wired_def)

lemma untracked:
  "i < length obs \<Longrightarrow> in_kind (obs ! i) \<notin> {KModule, KScope, KContext, KBinding} \<Longrightarrow>
   object_wired (st @ obs) (length st + i)"
  by (auto simp: object_wired_def is_kind_def)

lemma new_module_wired:
  "page_wired el controllers actions targets st \<Longrightarrow>
   page_wired el controllers actions targets (st @ module_objects (length st) ident ctor)"
proof (rule page_wired_append, assumption)
  fix i assume "i < length (module_objects (length st) ident ctor)"
  then have "i = 0 \<or> i = 1" by (auto simp: module_objects_def)
  with block_at_new [of st "module_objects (length st) ident ctor"]
  show "object_wired (st @ module_objects (length st) ident ctor) (length st + i)"
    by (auto simp: object_wired_def is_kind_def module_objects_def)
qed

lemma new_scope_wired:
  assumes "page_wired el controllers actions targets st"
  shows "page_wired el controllers actions targets (st @ scope_objects (length st) e ident)"
proof (rule page_wired_append [OF assms(1)])
  let ?obs = "scope_objects (length st) e ident"
  fix i assume "i < length ?obs"
  then have "i = 0 \<or> i = 1 \<or> i = 2 \<or> i = 3 \<or> i = 4" by (auto simp: scope_objects_def)
  moreover have "object_wired (st @ ?obs) (length st)"
  proof -
    have "is_kind (st @ ?obs) k (length st) \<longleftrightarrow> k = KScope" for k by (auto simp: is_kind_def scope_objects_def)
    moreover have "\<exists>e ident. block_at (st @ ?obs) (length st) (scope_objects (length st) e ident)"
      by (intro exI) (rule block_at_new)
    ultimately show ?thesis by (simp add: object_wired_def)
  qed
  moreover have "object_wired (st @ ?obs) (length st + i)" if "i \<noteq> 0" "i \<in> {1, 2, 3, 4}"
    by (rule untracked) (use that in \<open>auto simp: scope_objects_def\<close>)
  ultimately show "object_wired (st @ ?obs) (length st + i)" by (cases "i = 0") simp_all
qed

lemma new_context_wired:
  assumes "page_wired el controllers actions targets st"
    and "block_at st m (module_objects m ident ctor)" "block_at st s (scope_objects s e ident)"
  shows "page_wired el controllers actions targets (st @ context_objects (length st) m s e)"
proof (rule page_wired_append [OF assms(1)])
  let ?obs = "context_objects (length st) m s e"
  fix i assume "i < length ?obs"
  then have "i = 0 \<or> i = 1 \<or> i = 2 \<or> i = 3 \<or> i = 4" by (auto simp: context_objects_def)
  moreover have "object_wired (st @ ?obs) (length st)"
  proof -
    have "is_kind (st @ ?obs) k (length st) \<longleftrightarrow> k = KContext" for k by (auto simp: is_kind_def context_objects_def)
    moreover have "\<exists>m s e ident ctor. block_at (st @ ?obs) m (module_objects m ident ctor) \<and>
        block_at (st @ ?obs) s (scope_objects s e ident) \<and> block_at (st @ ?obs) (length st) (context_objects (length st) m s e)"
      by (intro exI conjI) (rule block_at_append [OF assms(2)], rule block_at_append [OF assms(3)], rule block_at_new)
    ultimately show ?thesis by (simp add: object_wired_def)
  qed
  moreover have "object_wired (st @ ?obs) (length st + i)" if "i \<noteq> 0" "i \<in> {1, 2, 3, 4}"
    by (rule untracked) (use that in \<open>auto simp: context_objects_def\<close>)
  ultimately show "object_wired (st @ ?obs) (length st + i)" by (cases "i = 0") simp_all
qed

lemma new_binding_wired:
  assumes "page_wired el controllers actions targets st" and "is_kind st KContext c"
  shows "page_wired el controllers actions targets (st @ binding_objects (length st) c fs)"
proof (rule page_wired_append [OF assms(1)])
  let ?obs = "binding_objects (length st) c fs"
  fix i assume "i < length ?obs"
  then have "i = 0 \<or> i = 1" by (auto simp: binding_objects_def)
  moreover have "object_wired (st @ ?obs) (Suc (length st))"
  proof -
    have "is_kind (st @ ?obs) k (Suc (length st)) \<longleftrightarrow> k = KBinding" for k
      by (auto simp: is_kind_def binding_objects_def nth_append)
    moreover have "\<exists>c' x fs. Suc (length st) = Suc x \<and> is_kind (st @ ?obs) KContext c' \<and>
        block_at (st @ ?obs) x (binding_objects x c' fs)"
      by (intro exI [of _ c] exI conjI, rule refl) (simp add: is_kind_append assms(2), rule block_at_new)
    ultimately show ?thesis by (simp add: object_wired_def)
  qed
  moreover have "object_wired (st @ ?obs) (length st + 0)" by (rule untracked) (simp_all add: binding_objects_def)
  ultimately show "object_wired (st @ ?obs) (length st + i)" by (elim disjE) simp_all
qed

lemma wiring_step_wired:
  assumes "page_wired el controllers actions targets st"
  shows "\<exists>a st'. wiring_step 1 call st = Some (a, st') \<and> page_wired el controllers actions targets st'"
proof (cases call)
  case (LoadModule ident ctor)
  then show ?thesis using new_module_wired [OF assms] make_Module_objects by auto
next
  case (CreateScope e ident)
  have page: "block_at st 0 (page_objects el controllers actions targets)" using assms by (simp add: page_wired_def)
  have "js_read st (FObj 1) [''router''] = Some (FObj 3)" "js_read st (FObj 3) [''schema''] = Some (FObj 0)"
    "js_read st (FObj 3) [''logger''] = Some (FExternal ''console'')"
    using page by (simp_all add: page_objects_def js_read_def getter_defs numeral_nat)
  then show ?thesis using CreateScope new_scope_wired [OF assms] make_Scope_objects by simp
next
  case (CreateContext m s)
  show ?thesis
  proof (cases "is_kind st KModule m \<and> is_kind st KScope s \<and>
      js_read st (FObj m) [''identifier''] = js_read st (FObj s) [''identifier'']")
    case True
    then obtain ident ctor e ident' where blocks: "block_at st m (module_objects m ident ctor)"
        "block_at st s (scope_objects s e ident')"
      using assms unfolding page_wired_def object_wired_def by blast
    then have "js_read st (FObj m) [''identifier''] = Some (FText ident)" "js_read st (FObj s) [''identifier''] = Some (FText ident')"
      by (simp_all add: js_read_def module_objects_def scope_objects_def getter_defs)
    with True have "ident' = ident" by simp
    then show ?thesis
      using True CreateContext blocks assms new_context_wired [OF assms blocks(1)] make_Context_objects [OF _ blocks(1)]
      by (auto simp: page_wired_def)
  next
    case False
    then show ?thesis using CreateContext assms by auto
  qed
next
  case (ConnectAction c fs)
  show ?thesis
  proof (cases "is_kind st KContext c")
    case True
    then obtain m s e' where block: "block_at st c (context_objects c m s e')"
      using assms unfolding page_wired_def object_wired_def by blast
    let ?st = "st @ [binding_objects (length st) c fs ! 0]"
    have "js_read st (FObj c) [''bindingObserver''] = Some (FObj (c + 2))"
      using block by (simp add: js_read_def context_objects_def)
    moreover have "js_read ?st (FObj (c + 2)) [''context''] = Some (FObj c)"
      using block_at_append [OF block, of "[binding_objects (length st) c fs ! 0]"]
      by (simp add: js_read_def context_objects_def add_small)
    ultimately show ?thesis
      using True ConnectAction new_binding_wired [OF assms True]
      by (simp add: make_Binding_def new_object_def binding_objects_def)
  next
    case False
    then show ?thesis using ConnectAction assms by auto
  qed
qed

lemma wiring_run_wired:
  "page_wired el controllers actions targets st \<Longrightarrow>
   \<exists>st'. wiring_run 1 calls st = Some st' \<and> page_wired el controllers actions targets st'"
proof (induction calls arbitrary: st)
  case (Cons call calls)
  from wiring_step_wired [OF Cons.prems] obtain a st1 where
    "wiring_step 1 call st = Some (a, st1)" "page_wired el controllers actions targets st1" by blast
  with Cons.IH [of st1] show ?case by simp
qed simp

lemma new_page_wired: "page_wired el controllers actions targets (page_objects el controllers actions targets)"
proof -
  let ?page = "page_objects el controllers actions targets"
  have "in_kind ob \<notin> {KModule, KScope, KContext, KBinding}" if "ob \<in> set ?page" for ob
    using that by (auto simp: page_objects_def schema_object_def)
  then have "\<not> is_kind ?page k a" if "k \<in> {KModule, KScope, KContext, KBinding}" for k a
    using that nth_mem [of a ?page] by (auto simp: is_kind_def)
  then show ?thesis
    using block_at_new [of "[]" ?page] by (simp add: page_wired_def object_wired_def)
qed

section \<open>What the objects read\<close>

text \<open>The ways from a context to its element, its identifier, its schema, the dispatcher and back.\<close>

definition element_paths :: "jsstr list list" where
  "element_paths =
     [[''element''], [''controller'', ''element''], [''bindingObserver'', ''element''], [''valueObserver'', ''element''],
      [''valueObserver'', ''stringMapObserver'', ''element''], [''controller'', ''targets'', ''element''],
      [''controller'', ''data'', ''element''], [''controller'', ''classes'', ''data'', ''element'']]"

definition identifier_paths :: "jsstr list list" where
  "identifier_paths =
     [[''identifier''], [''controller'', ''identifier''], [''bindingObserver'', ''identifier''],
      [''controller'', ''targets'', ''identifier''], [''controller'', ''data'', ''identifier'']]"

definition schema_paths :: "jsstr list list" where
  "schema_paths =
     [[''schema''], [''scope'', ''schema''], [''bindingObserver'', ''schema''], [''controller'', ''targets'', ''schema'']]"

definition dispatcher_paths :: "jsstr list list" where
  "dispatcher_paths = [[''dispatcher''], [''application'', ''dispatcher''], [''bindingObserver'', ''delegate'']]"

definition context_paths :: "jsstr list list" where
  "context_paths =
     [[''controller'', ''context''], [''bindingObserver'', ''context''], [''valueObserver'', ''context''],
      [''valueObserver'', ''receiver'', ''context''], [''valueObserver'', ''controller'', ''context'']]"

lemmas path_defs = element_paths_def identifier_paths_def schema_paths_def dispatcher_paths_def context_paths_def

lemma context_reads:
  assumes "block_at st 0 (page_objects el controllers actions targets)"
    and "block_at st m (module_objects m ident ctor)" "block_at st s (scope_objects s e ident)"
    and "block_at st c (context_objects c m s e)"
  shows "\<forall>path \<in> set element_paths. js_read st (FObj c) path = Some (FElem e)"
    "\<forall>path \<in> set identifier_paths. js_read st (FObj c) path = Some (FText ident)"
    "\<forall>path \<in> set schema_paths. js_read st (FObj c) path = Some (FObj 0)"
    "\<forall>path \<in> set dispatcher_paths. js_read st (FObj c) path = Some (FObj 2)"
    "\<forall>path \<in> set context_paths. js_read st (FObj c) path = Some (FObj c)"
    "js_read st (FObj c) [''bindingObserver'', ''actionAttribute''] = Some (FText actions)"
proof -
  note page = assms(1) [unfolded page_objects_def schema_object_def, simplified]
    and module = assms(2) [unfolded module_objects_def, simplified]
    and scope = assms(3) [unfolded scope_objects_def add_small, simplified]
    and ctx = assms(4) [unfolded context_objects_def add_small, simplified]
  note read = js_read_def getter_defs path_defs page module scope ctx
  show "\<forall>path \<in> set element_paths. js_read st (FObj c) path = Some (FElem e)" by (simp add: read)
  show "\<forall>path \<in> set identifier_paths. js_read st (FObj c) path = Some (FText ident)" by (simp add: read)
  show "\<forall>path \<in> set schema_paths. js_read st (FObj c) path = Some (FObj 0)" by (simp add: read)
  show "\<forall>path \<in> set dispatcher_paths. js_read st (FObj c) path = Some (FObj 2)" by (simp add: read)
  show "\<forall>path \<in> set context_paths. js_read st (FObj c) path = Some (FObj c)" by (simp add: read)
  show "js_read st (FObj c) [''bindingObserver'', ''actionAttribute''] = Some (FText actions)" by (simp add: read)
qed

lemma binding_reads:
  assumes "block_at st m (module_objects m ident ctor)" "block_at st s (scope_objects s e ident)"
    and "block_at st c (context_objects c m s e)"
    and "block_at st x (binding_objects x c fs)"
  shows "js_read st (FObj (Suc x)) [''context''] = Some (FObj c)"
    "\<forall>k \<in> {''controller'', ''scope'', ''identifier'', ''element''}.
       js_read st (FObj (Suc x)) [k] = js_read st (FObj c) [k] \<and> js_read st (FObj c) [k] \<noteq> None"
proof -
  note module = assms(1) [unfolded module_objects_def, simplified]
    and scope = assms(2) [unfolded scope_objects_def add_small, simplified]
    and ctx = assms(3) [unfolded context_objects_def add_small, simplified]
    and bind = assms(4) [unfolded binding_objects_def, simplified]
  note read = js_read_def getter_defs module scope ctx bind
  show "js_read st (FObj (Suc x)) [''context''] = Some (FObj c)" by (simp add: read)
  show "\<forall>k \<in> {''controller'', ''scope'', ''identifier'', ''element''}.
       js_read st (FObj (Suc x)) [k] = js_read st (FObj c) [k] \<and> js_read st (FObj c) [k] \<noteq> None" by (simp add: read)
qed

text \<open>
  C25. The objects of a page are wired alike, and no constructor reads a field too early. Whatever
  definitions are loaded, scopes made, contexts created and actions connected, no step of
  a constructor fails. Every context, its controller, both its observers and the sets
  of its scope then agree on the element, on the identifier and on the schema; its binding
  observer delegates to the one dispatcher of the application and reads the attribute of the
  schema; and every binding has the controller, scope and element of its context.
\<close>

theorem page_objects_are_wired:
  "\<exists>st. do { (app, st) \<leftarrow> make_Application (FElem el) (FObj 0) [schema_object controllers actions targets];
             wiring_run app calls st } = Some st \<and>
     js_read st (FObj 1) [''router'', ''scopeObserver'', ''valueListObserver'', ''element''] = Some (FElem el) \<and>
     js_read st (FObj 1) [''router'', ''scopeObserver'', ''valueListObserver'', ''attributeName''] = Some (FText controllers) \<and>
     (\<forall>c. is_kind st KContext c \<longrightarrow> (\<exists>e ident.
        (\<forall>path \<in> set element_paths. js_read st (FObj c) path = Some (FElem e)) \<and>
        (\<forall>path \<in> set identifier_paths. js_read st (FObj c) path = Some (FText ident)) \<and>
        (\<forall>path \<in> set schema_paths. js_read st (FObj c) path = Some (FObj 0)) \<and>
        (\<forall>path \<in> set dispatcher_paths. js_read st (FObj c) path = js_read st (FObj 1) [''dispatcher'']) \<and>
        (\<forall>path \<in> set context_paths. js_read st (FObj c) path = Some (FObj c)) \<and>
        js_read st (FObj c) [''bindingObserver'', ''actionAttribute''] = Some (FText actions))) \<and>
     (\<forall>b. is_kind st KBinding b \<longrightarrow> (\<exists>c. js_read st (FObj b) [''context''] = Some (FObj c) \<and> is_kind st KContext c \<and>
        (\<forall>k \<in> {''controller'', ''scope'', ''identifier'', ''element''}.
           js_read st (FObj b) [k] = js_read st (FObj c) [k] \<and> js_read st (FObj c) [k] \<noteq> None)))"
proof -
  obtain st where run: "wiring_run 1 calls (page_objects el controllers actions targets) = Some st"
      and wired: "page_wired el controllers actions targets st"
    using wiring_run_wired [OF new_page_wired] by blast
  note page = conjunct1 [OF wired [unfolded page_wired_def]]
  note block = page [unfolded page_objects_def schema_object_def, simplified]
  have objects: "object_wired st a" for a using wired by (simp add: page_wired_def)
  have dispatcher: "js_read st (FObj 1) [''dispatcher''] = Some (FObj 2)" by (simp add: js_read_def block)
  have "js_read st (FObj 1) [''router'', ''scopeObserver'', ''valueListObserver'', ''element''] = Some (FElem el)"
    "js_read st (FObj 1) [''router'', ''scopeObserver'', ''valueListObserver'', ''attributeName''] = Some (FText controllers)"
    by (simp_all add: js_read_def getter_defs block numeral_nat)
  moreover have "\<exists>e ident.
        (\<forall>path \<in> set element_paths. js_read st (FObj c) path = Some (FElem e)) \<and>
        (\<forall>path \<in> set identifier_paths. js_read st (FObj c) path = Some (FText ident)) \<and>
        (\<forall>path \<in> set schema_paths. js_read st (FObj c) path = Some (FObj 0)) \<and>
        (\<forall>path \<in> set dispatcher_paths. js_read st (FObj c) path = js_read st (FObj 1) [''dispatcher'']) \<and>
        (\<forall>path \<in> set context_paths. js_read st (FObj c) path = Some (FObj c)) \<and>
        js_read st (FObj c) [''bindingObserver'', ''actionAttribute''] = Some (FText actions)"
    if "is_kind st KContext c" for c
  proof -
    from object_wiredD(3) [OF objects that] obtain m s e ident ctor where "block_at st m (module_objects m ident ctor)"
        "block_at st s (scope_objects s e ident)" "block_at st c (context_objects c m s e)"
      by blast
    from context_reads [OF page this] show ?thesis unfolding dispatcher by blast
  qed
  moreover have "\<exists>c. js_read st (FObj b) [''context''] = Some (FObj c) \<and> is_kind st KContext c \<and>
        (\<forall>k \<in> {''controller'', ''scope'', ''identifier'', ''element''}.
           js_read st (FObj b) [k] = js_read st (FObj c) [k] \<and> js_read st (FObj c) [k] \<noteq> None)"
    if binding: "is_kind st KBinding b" for b
  proof -
    from object_wiredD(4) [OF objects binding] obtain c x fs where b: "b = Suc x" "is_kind st KContext c"
        "block_at st x (binding_objects x c fs)"
      by blast
    from object_wiredD(3) [OF objects b(2)] obtain m s e' ident' ctor where "block_at st m (module_objects m ident' ctor)"
        "block_at st s (scope_objects s e' ident')" "block_at st c (context_objects c m s e')"
      by blast
    from binding_reads [OF this b(3)] b(1,2) show ?thesis by blast
  qed
  ultimately show ?thesis using run by (simp add: make_Application_objects)
qed

lemma page_objects_are_wired_witness:
  "\<exists>st. do { (app, st) \<leftarrow> make_Application (FElem 5) (FObj 0) [schema_object ''data-controller'' ''data-action'' ''data-target''];
             wiring_run app [LoadModule ''flash'' ''Flash'', CreateScope 7 ''flash'', CreateContext 9 11,
               ConnectAction 16 [(''eventName'', FText ''click''), (''methodName'', FText ''close'')]] st } = Some st \<and>
     js_read st (FObj 16) [''valueObserver'', ''stringMapObserver'', ''element''] = js_read st (FObj 22) [''element'']"
proof -
  let ?calls = "[LoadModule ''flash'' ''Flash'', CreateScope 7 ''flash'', CreateContext 9 11,
    ConnectAction 16 [(''eventName'', FText ''click''), (''methodName'', FText ''close'')]]"
  obtain st where st: "do { (app, st) \<leftarrow> make_Application (FElem 5) (FObj 0)
      [schema_object ''data-controller'' ''data-action'' ''data-target'']; wiring_run app ?calls st } = Some st"
    and contexts: "\<forall>c. is_kind st KContext c \<longrightarrow> (\<exists>e ident.
        (\<forall>path \<in> set element_paths. js_read st (FObj c) path = Some (FElem e)) \<and>
        (\<forall>path \<in> set identifier_paths. js_read st (FObj c) path = Some (FText ident)) \<and>
        (\<forall>path \<in> set schema_paths. js_read st (FObj c) path = Some (FObj 0)) \<and>
        (\<forall>path \<in> set dispatcher_paths. js_read st (FObj c) path = js_read st (FObj 1) [''dispatcher'']) \<and>
        (\<forall>path \<in> set context_paths. js_read st (FObj c) path = Some (FObj c)) \<and>
        js_read st (FObj c) [''bindingObserver'', ''actionAttribute''] = Some (FText ''data-action''))"
    and bindings: "\<forall>b. is_kind st KBinding b \<longrightarrow> (\<exists>c. js_read st (FObj b) [''context''] = Some (FObj c) \<and> is_kind st KContext c \<and>
        (\<forall>k \<in> {''controller'', ''scope'', ''identifier'', ''element''}.
           js_read st (FObj b) [k] = js_read st (FObj c) [k] \<and> js_read st (FObj c) [k] \<noteq> None))"
    using page_objects_are_wired [of 5 "''data-controller''" "''data-action''" "''data-target''" ?calls]
    by (elim exE conjE) (rule that)
  have "case do { (app, st) \<leftarrow> make_Application (FElem 5) (FObj 0)
      [schema_object ''data-controller'' ''data-action'' ''data-target'']; wiring_run app ?calls st } of
      Some st \<Rightarrow> is_kind st KContext 16 \<and> is_kind st KBinding 22 \<and> js_read st (FObj 22) [''context''] = Some (FObj 16)
    | None \<Rightarrow> False" by code_simp
  then have here: "is_kind st KContext 16" "is_kind st KBinding 22" "js_read st (FObj 22) [''context''] = Some (FObj 16)"
    by (simp_all only: st option.case)
  from contexts here(1) obtain e where e: "\<forall>path \<in> set element_paths. js_read st (FObj 16) path = Some (FElem e)" by blast
  from bindings here(2,3) have "js_read st (FObj 22) [''element''] = js_read st (FObj 16) [''element'']" by force
  with e have "js_read st (FObj 16) [''valueObserver'', ''stringMapObserver'', ''element''] = js_read st (FObj 22) [''element'']"
    by (simp add: element_paths_def)
  with st show ?thesis by blast
qed

end
