(* ===== verification/Js_Generator.thy ===== *)
theory Js_Generator
  imports Js_Prelude
begin

text \<open>
  Asynchronous code in stimulus.js: \<open>__generator\<close> drives a body, which is a switch over
  labels, as a generator object, and \<open>__awaiter\<close> runs the generator as a promise. The body
  and the iterators that a body may delegate to are parameters; so is the state \<open>'s\<close> they
  read and change. Values are those of the body, exceptions and labels. A body gives one
  of the eight instructions and may change its label and its try regions; it does not call
  its own generator, so the test for a generator that is already executing never succeeds.
\<close>

section \<open>Generator objects\<close>

datatype 'v any = Undef | Num nat | Val 'v | Exn js_error

text \<open>The instructions, with their codes 0 to 7 in the order of the code.\<close>

datatype ('i, 'v) instruction =
    Next "'v any" | Throw "'v any" | Return "'v any" | Jump nat
  | Yield "'v any" | YieldStar 'i | Raise "'v any" | EndFinally

fun opcode :: "('i, 'v) instruction \<Rightarrow> nat" where
  "opcode (Next _) = 0"
| "opcode (Throw _) = 1"
| "opcode (Return _) = 2"
| "opcode (Jump _) = 3"
| "opcode (Yield _) = 4"
| "opcode (YieldStar _) = 5"
| "opcode (Raise _) = 6"
| "opcode EndFinally = 7"

fun operand :: "('i, 'v) instruction \<Rightarrow> 'v any" where
  "operand (Next v) = v"
| "operand (Throw v) = v"
| "operand (Return v) = v"
| "operand (Jump n) = Num n"
| "operand (Yield v) = v"
| "operand (YieldStar _) = Undef"
| "operand (Raise v) = v"
| "operand EndFinally = Undef"

text \<open>The bits of an operation code that the code tests: 1, 2, and 5 for throwing.\<close>

definition has_bit :: "nat \<Rightarrow> ('i, 'v) instruction \<Rightarrow> bool" where
  "has_bit k q \<longleftrightarrow> odd (opcode q div 2 ^ k)"

text \<open>A try region: its first label, those of its catch and finally blocks, its end.\<close>

type_synonym region = "nat \<times> nat option \<times> nat option \<times> nat"

record ('i, 'v) gen =
  g_label :: nat
  g_trys :: "region list"
  g_ops :: "('i, 'v) instruction list"
  g_delegate :: "'i option"   \<comment> \<open>\<open>y\<close>, the iterator of a \<open>yield*\<close>\<close>
  g_done :: bool              \<comment> \<open>\<open>_\<close> is 0\<close>

definition new_gen :: "('i, 'v) gen" where
  "new_gen = \<lparr>g_label = 0, g_trys = [], g_ops = [], g_delegate = None, g_done = False\<rparr>"

text \<open>What \<open>t\<close> holds when the body runs: an instruction, a region or false; and \<open>sent\<close>.\<close>

datatype ('i, 'v) slot = SlotOp "('i, 'v) instruction" | SlotRegion region | SlotFalse

fun sent :: "('i, 'v) slot \<Rightarrow> 'v any + 'v any" where
  "sent (SlotOp q) = (if has_bit 0 q then Inl (operand q) else Inr (operand q))"
| "sent (SlotRegion (first, catch, finally_label, last_label)) =
     (let v = (case catch of Some n \<Rightarrow> Num n | None \<Rightarrow> Undef)
      in if odd first then Inl v else Inr v)"
| "sent SlotFalse = Inr Undef"

text \<open>What a call of an iterator gives: an exception, or a value and whether it is done.\<close>

type_synonym 'v step_result = "'v any + 'v any \<times> bool"

record ('i, 'v, 's) gen_code =
  gc_body :: "('i, 'v) slot \<Rightarrow> ('i, 'v) gen \<Rightarrow> 's \<Rightarrow> ('v any + ('i, 'v) instruction) \<times> ('i, 'v) gen \<times> 's"
  gc_next :: "'i \<Rightarrow> 'v any \<Rightarrow> 's \<Rightarrow> 'v step_result \<times> 's"
  gc_throw :: "'i \<Rightarrow> ('v any \<Rightarrow> 's \<Rightarrow> 'v step_result \<times> 's) option"
  gc_return :: "'i \<Rightarrow> ('v any \<Rightarrow> 's \<Rightarrow> 'v step_result \<times> 's) option"

section \<open>One round of the loop\<close>

text \<open>
  Handing an operation to the iterator \<open>y\<close>: an exception, no result (the method is missing,
  or \<open>return\<close> stood in for \<open>throw\<close>), or the result of its call.
\<close>

definition delegate_call ::
  "('i, 'v, 's) gen_code \<Rightarrow> 'i \<Rightarrow> ('i, 'v) instruction \<Rightarrow> 's \<Rightarrow> ('v any + ('v any \<times> bool) option) \<times> 's" where
  "delegate_call gc y q s =
     (let called = map_prod (map_sum id Some) id;
          closed = map_prod (map_sum id (\<lambda>_. None)) id
      in if has_bit 1 q then
           (case gc_return gc y of Some f \<Rightarrow> called (f (operand q) s) | None \<Rightarrow> (Inr None, s))
         else if opcode q \<noteq> 0 then
           (case gc_throw gc y of
              Some f \<Rightarrow> called (f (operand q) s)
            | None \<Rightarrow> (case gc_return gc y of Some f \<Rightarrow> closed (f Undef s) | None \<Rightarrow> (Inr None, s)))
         else called (gc_next gc y (operand q) s))"

text \<open>The switch: run the body, go on with an instruction, end the loop, or give a value.\<close>

datatype ('i, 'v) switch =
    RunBody "('i, 'v) slot" "('i, 'v) gen"
  | GoOn "('i, 'v) instruction" "('i, 'v) gen"
  | Give "'v any" "('i, 'v) gen"

definition last_region :: "('i, 'v) gen \<Rightarrow> region option" where
  "last_region g = (if g_trys g = [] then None else Some (last (g_trys g)))"

definition jumps :: "('i, 'v) instruction \<Rightarrow> region option \<Rightarrow> nat option" where
  "jumps q t =
     (case q of
        Jump n \<Rightarrow>
          (case t of None \<Rightarrow> Some n
           | Some (first, catch, finally_label, last_label) \<Rightarrow> if n > first \<and> n < last_label then Some n else None)
      | _ \<Rightarrow> None)"

definition slot_of :: "region option \<Rightarrow> ('i, 'v) slot" where
  "slot_of t = (case t of Some r \<Rightarrow> SlotRegion r | None \<Rightarrow> SlotFalse)"

definition is_raise :: "('i, 'v) instruction \<Rightarrow> bool" where
  "is_raise q \<longleftrightarrow> opcode q = 6"

text \<open>Leaving the innermost region, or entering its catch or finally block.\<close>

fun in_region :: "('i, 'v) instruction \<Rightarrow> region \<Rightarrow> ('i, 'v) gen \<Rightarrow> ('i, 'v) switch" where
  "in_region q (first, catch, finally_label, last_label) g =
     (let before = (\<lambda>l. case l of Some n \<Rightarrow> g_label g < n | None \<Rightarrow> False) in
      if is_raise q \<and> before catch then RunBody (SlotOp q) (g\<lparr>g_label := the catch\<rparr>)
      else if before finally_label then
        RunBody (SlotRegion (first, catch, finally_label, last_label))
          (g\<lparr>g_label := the finally_label, g_ops := g_ops g @ [q]\<rparr>)
      else GoOn q (g\<lparr>g_ops := (if finally_label \<noteq> None \<and> finally_label \<noteq> Some 0 then butlast (g_ops g) else g_ops g),
                     g_trys := butlast (g_trys g)\<rparr>))"

definition switch_default :: "('i, 'v) instruction \<Rightarrow> ('i, 'v) gen \<Rightarrow> ('i, 'v) switch" where
  "switch_default q g =
     (let t = last_region g in
      case jumps q t of
        Some n \<Rightarrow> RunBody (slot_of t) (g\<lparr>g_label := n\<rparr>)
      | None \<Rightarrow>
          (case t of
             None \<Rightarrow> if is_raise q \<or> opcode q = 2 then GoOn q (g\<lparr>g_done := True\<rparr>)
                     else GoOn q (g\<lparr>g_trys := butlast (g_trys g)\<rparr>)
           | Some r \<Rightarrow> in_region q r g))"

definition cannot_read :: js_error where
  "cannot_read = ErrorObject ''TypeError'' ''cannot read properties of undefined''"

fun gen_switch :: "('i, 'v) instruction \<Rightarrow> ('i, 'v) gen \<Rightarrow> ('i, 'v) switch" where
  "gen_switch (Next v) g = RunBody (SlotOp (Next v)) g"
| "gen_switch (Throw v) g = RunBody (SlotOp (Throw v)) g"
| "gen_switch (Yield v) g = Give v (g\<lparr>g_label := Suc (g_label g)\<rparr>)"
| "gen_switch (YieldStar i) g =
     GoOn (Next Undef) (g\<lparr>g_label := Suc (g_label g), g_delegate := Some i\<rparr>)"
| "gen_switch EndFinally g =
     GoOn (if g_ops g = [] then Raise (Exn cannot_read) else last (g_ops g))
       (g\<lparr>g_ops := butlast (g_ops g), g_trys := butlast (g_trys g)\<rparr>)"
| "gen_switch q g = switch_default q g"

text \<open>A round either leaves \<open>step\<close> with a result or goes on with an instruction.\<close>

type_synonym ('i, 'v, 's) round = "('v step_result + ('i, 'v) instruction) \<times> ('i, 'v) gen \<times> 's"

definition raised :: "'v any \<Rightarrow> ('i, 'v) gen \<Rightarrow> 's \<Rightarrow> ('i, 'v, 's) round" where
  "raised e g s = (Inr (Raise e), g\<lparr>g_delegate := None\<rparr>, s)"

definition proceed ::
  "('i, 'v, 's) gen_code \<Rightarrow> ('i, 'v) instruction \<Rightarrow> ('i, 'v) gen \<Rightarrow> 's \<Rightarrow> ('i, 'v, 's) round" where
  "proceed gc q g s =
     (case gen_switch q g of
        RunBody t g1 \<Rightarrow>
          (case gc_body gc t g1 s of
             (Inl e, g2, s') \<Rightarrow> raised e g2 s'
           | (Inr q', g2, s') \<Rightarrow> (Inr q', g2, s'))
      | GoOn q' g1 \<Rightarrow> (Inr q', g1, s)
      | Give v g1 \<Rightarrow> (Inl (Inr (v, False)), g1, s))"

definition gen_round ::
  "('i, 'v, 's) gen_code \<Rightarrow> ('i, 'v) instruction \<Rightarrow> ('i, 'v) gen \<Rightarrow> 's \<Rightarrow> ('i, 'v, 's) round" where
  "gen_round gc q g s =
     (case g_delegate g of
        None \<Rightarrow> proceed gc q g s
      | Some y \<Rightarrow>
          (case delegate_call gc y q s of
             (Inl e, s') \<Rightarrow> raised e g s'
           | (Inr (Some (v, False)), s') \<Rightarrow> (Inl (Inr (v, False)), g, s')
           | (Inr (Some (v, True)), s') \<Rightarrow>
               proceed gc (if has_bit 1 q then Return v else Next v) (g\<lparr>g_delegate := None\<rparr>) s'
           | (Inr None, s') \<Rightarrow> proceed gc q (g\<lparr>g_delegate := None\<rparr>) s'))"

section \<open>The loop\<close>

definition final_result :: "('i, 'v) instruction \<Rightarrow> 'v step_result" where
  "final_result q =
     (if has_bit 0 q \<or> has_bit 2 q then Inl (operand q)
      else Inr (if opcode q = 0 then Undef else operand q, True))"

text \<open>The loop may run forever, when a body keeps jumping.\<close>

partial_function (option) gen_step ::
  "('i, 'v, 's) gen_code \<Rightarrow> ('i, 'v) instruction \<Rightarrow> ('i, 'v) gen \<Rightarrow> 's \<Rightarrow>
     ('v step_result \<times> ('i, 'v) gen \<times> 's) option" where
  "gen_step gc q g s =
     (if g_done g then Some (final_result q, g, s)
      else (case gen_round gc q g s of
              (Inl r, g', s') \<Rightarrow> Some (r, g', s')
            | (Inr q', g', s') \<Rightarrow> gen_step gc q' g' s'))"

section \<open>Awaiter\<close>

text \<open>The promise of an async function: waiting for a value, fulfilled or rejected.\<close>

datatype ('i, 'v) awaiter = Awaiting "'v any" "('i, 'v) gen" | Fulfilled "'v any" | Failed "'v any"

fun awaiter_step :: "'v step_result \<times> ('i, 'v) gen \<times> 's \<Rightarrow> ('i, 'v) awaiter \<times> 's" where
  "awaiter_step (Inl e, g, s) = (Failed e, s)"
| "awaiter_step (Inr (v, True), g, s) = (Fulfilled v, s)"
| "awaiter_step (Inr (v, False), g, s) = (Awaiting v g, s)"

definition awaiter_start :: "('i, 'v, 's) gen_code \<Rightarrow> 's \<Rightarrow> (('i, 'v) awaiter \<times> 's) option" where
  "awaiter_start gc s = map_option awaiter_step (gen_step gc (Next Undef) new_gen s)"

text \<open>The awaited promise settles: \<open>rejected\<close> with an exception, \<open>fulfilled\<close> with a value.\<close>

definition awaiter_settle ::
  "('i, 'v, 's) gen_code \<Rightarrow> 'v any + 'v any \<Rightarrow> ('i, 'v) awaiter \<Rightarrow> 's \<Rightarrow> (('i, 'v) awaiter \<times> 's) option" where
  "awaiter_settle gc r aw s =
     (case aw of
        Awaiting w g \<Rightarrow>
          map_option awaiter_step
            (gen_step gc (case r of Inl e \<Rightarrow> Throw e | Inr v \<Rightarrow> Next v) g s)
      | _ \<Rightarrow> Some (aw, s))"

section \<open>Bodies without try regions\<close>

text \<open>
  An async function is cut at its awaits into segments. A segment gets the value of the
  await before it, and throws or gives the value to await or, in the last one, to return.
  \<open>straight\<close> is the layout of such a function as a body: a label for each segment, and
  \<open>sent\<close> at the start of every segment but the first.
\<close>

type_synonym ('v, 's) segment = "'v any \<Rightarrow> 's \<Rightarrow> ('v any + 'v any) \<times> 's"

definition straight_body ::
  "('v, 's) segment list \<Rightarrow> ('i, 'v) slot \<Rightarrow> ('i, 'v) gen \<Rightarrow> 's \<Rightarrow>
     ('v any + ('i, 'v) instruction) \<times> ('i, 'v) gen \<times> 's" where
  "straight_body segs t g s =
     (if g_label g < length segs then
        (case (if g_label g = 0 then Inr Undef else sent t) of
           Inl e \<Rightarrow> (Inl e, g, s)
         | Inr v \<Rightarrow>
             (case (segs ! g_label g) v s of
                (Inl e, s') \<Rightarrow> (Inl e, g, s')
              | (Inr v', s') \<Rightarrow>
                  (Inr (if Suc (g_label g) = length segs then Return v' else Yield v'), g, s')))
      else (Inr (Return Undef), g, s))"

text \<open>What the function means: run a segment, then wait with the rest.\<close>

datatype ('v, 's) waiting = Waiting_for "'v any" "('v, 's) segment list" | Returned "'v any" | Threw "'v any"

definition run_segments :: "('v, 's) segment list \<Rightarrow> 'v any \<Rightarrow> 's \<Rightarrow> ('v, 's) waiting \<times> 's" where
  "run_segments segs v s =
     (case segs of
        [] \<Rightarrow> (Returned Undef, s)
      | seg # rest \<Rightarrow>
          (case seg v s of
             (Inl e, s') \<Rightarrow> (Threw e, s')
           | (Inr v', s') \<Rightarrow> (if rest = [] then Returned v' else Waiting_for v' rest, s')))"

fun settle_segments :: "'v any + 'v any \<Rightarrow> ('v, 's) waiting \<times> 's \<Rightarrow> ('v, 's) waiting \<times> 's" where
  "settle_segments (Inl e) (Waiting_for w rest, s) = (Threw e, s)"
| "settle_segments (Inr v) (Waiting_for w rest, s) = run_segments rest v s"
| "settle_segments r (st, s) = (st, s)"

text \<open>The two run on the same sequence of settled awaits.\<close>

fun awaiter_run ::
  "('i, 'v, 's) gen_code \<Rightarrow> ('v any + 'v any) list \<Rightarrow> ('i, 'v) awaiter \<times> 's \<Rightarrow> (('i, 'v) awaiter \<times> 's) option" where
  "awaiter_run gc [] st = Some st"
| "awaiter_run gc (r # rs) (aw, s) =
     (case awaiter_settle gc r aw s of None \<Rightarrow> None | Some st \<Rightarrow> awaiter_run gc rs st)"

fun represents :: "('v, 's) segment list \<Rightarrow> ('i, 'v) awaiter \<Rightarrow> ('v, 's) waiting \<Rightarrow> bool" where
  "represents segs (Awaiting v g) (Waiting_for w rest) =
     (v = w \<and> rest \<noteq> [] \<and> g_label g \<noteq> 0 \<and> drop (g_label g) segs = rest \<and>
      g_trys g = [] \<and> g_delegate g = None \<and> \<not> g_done g)"
| "represents segs (Fulfilled v) (Returned w) = (v = w)"
| "represents segs (Failed v) (Threw w) = (v = w)"
| "represents segs _ _ = False"

lemma final_simps: "final_result (Raise e) = Inl e" "final_result (Return v) = Inr (v, True)"
  by (simp_all add: final_result_def has_bit_def)

lemma straight_leaves:
  assumes "g_trys g = []" and "g_delegate g = None" and "\<not> g_done g" and "opcode q = 2 \<or> is_raise q"
  shows "gen_step gc q g s = Some (final_result q, g\<lparr>g_done := True\<rparr>, s)"
  using assms by (cases q)
    (simp_all add: gen_step.simps gen_round_def proceed_def switch_default_def last_region_def
      jumps_def is_raise_def)

lemma straight_resume:
  assumes g: "g_trys g = []" "g_delegate g = None" "\<not> g_done g"
    and body: "gc_body gc = straight_body segs"
    and q: "opcode q = 0 \<or> opcode q = 1" "g_label g = 0 \<longrightarrow> q = Next Undef"
    and label: "g_label g < length segs \<or> g_label g = 0"
  shows "\<exists>aw s'. map_option awaiter_step (gen_step gc q g s) = Some (aw, s') \<and>
    (let (st, s'') = (if opcode q = 0 then run_segments (drop (g_label g) segs) (operand q) s
                      else (Threw (operand q), s))
     in represents segs aw st \<and> s' = s'')"
proof -
  have switch: "gen_switch q g = RunBody (SlotOp q) g"
    and sent: "sent (SlotOp q) = (if opcode q = 0 then Inr (operand q) else Inl (operand q))"
    using q(1) by (cases q; simp add: has_bit_def)+
  have first: "g_label g = 0 \<Longrightarrow> opcode q = 0 \<and> operand q = Undef" using q(2) by auto
  have round: "gen_round gc q g s =
      (case straight_body segs (SlotOp q) g s of
         (Inl e, g2, s') \<Rightarrow> raised e g2 s' | (Inr q', g2, s') \<Rightarrow> (Inr q', g2, s'))"
    by (simp add: gen_round_def g proceed_def switch body)
  have clear: "g\<lparr>g_delegate := None\<rparr> = g" using g(2) by (cases g) simp
  have throws: "gen_step gc q g s = Some (Inl e, g\<lparr>g_done := True\<rparr>, s')"
    if "straight_body segs (SlotOp q) g s = (Inl e, g, s')" for e s'
    using g that by (subst gen_step.simps)
      (simp add: round raised_def clear straight_leaves is_raise_def final_simps)
  have returns: "gen_step gc q g s = Some (Inr (v, True), g\<lparr>g_done := True\<rparr>, s')"
    if "straight_body segs (SlotOp q) g s = (Inr (Return v), g, s')" for v s'
    using g that by (subst gen_step.simps) (simp add: round straight_leaves final_simps)
  have yields: "gen_step gc q g s = Some (Inr (v, False), g\<lparr>g_label := Suc (g_label g)\<rparr>, s')"
    if "straight_body segs (SlotOp q) g s = (Inr (Yield v), g, s')" for v s'
    using g that by (subst gen_step.simps)
      (simp add: round, subst gen_step.simps, simp add: gen_round_def proceed_def)
  show ?thesis
  proof (cases "opcode q = 0 \<and> g_label g < length segs")
    case True
    then have rest: "drop (g_label g) segs = segs ! g_label g # drop (Suc (g_label g)) segs"
      by (simp add: Cons_nth_drop_Suc)
    obtain r s' where r: "(segs ! g_label g) (operand q) s = (r, s')" by fastforce
    have "(if g_label g = 0 then Inr Undef else sent (SlotOp q)) = Inr (operand q)"
      using True sent first by simp
    then have "straight_body segs (SlotOp q) g s =
        (case r of Inl e \<Rightarrow> (Inl e, g, s')
         | Inr v \<Rightarrow> (Inr (if Suc (g_label g) = length segs then Return v else Yield v), g, s'))"
      using True by (simp add: straight_body_def r del: sent.simps)
    with True r g show ?thesis
      by (cases r) (auto simp: rest run_segments_def throws returns yields)
  next
    case False
    then show ?thesis
    proof (cases "opcode q = 0")
      case True
      with False label have "straight_body segs (SlotOp q) g s = (Inr (Return Undef), g, s)"
        by (simp add: straight_body_def)
      with True False label show ?thesis by (simp add: returns run_segments_def)
    next
      case thrown: False
      then have "g_label g \<noteq> 0" using first by auto
      with label thrown sent have "straight_body segs (SlotOp q) g s = (Inl (operand q), g, s)"
        by (simp add: straight_body_def)
      with thrown show ?thesis by (simp add: throws)
    qed
  qed
qed

lemma straight_runs:
  assumes "gc_body gc = straight_body segs"
  shows "\<exists>aw s'. Option.bind (awaiter_start gc s) (awaiter_run gc rs) = Some (aw, s') \<and>
    (let (st, s'') = fold settle_segments rs (run_segments segs Undef s)
     in represents segs aw st \<and> s' = s'')"
proof -
  have run: "\<exists>aw' s'. awaiter_run gc rs (aw, s) = Some (aw', s') \<and>
      (let (st', s'') = fold settle_segments rs (st, s) in represents segs aw' st' \<and> s' = s'')"
    if "represents segs aw st" for aw st s
    using that
  proof (induction rs arbitrary: aw st s)
    case (Cons r rs)
    have "\<exists>aw1 s1. awaiter_settle gc r aw s = Some (aw1, s1) \<and>
        (let (st1, s2) = settle_segments r (st, s) in represents segs aw1 st1 \<and> s1 = s2)"
    proof (cases "\<exists>w rest. st = Waiting_for w rest")
      case True
      then obtain w rest where st: "st = Waiting_for w rest" by blast
      with Cons.prems obtain g where aw: "aw = Awaiting w g" by (cases aw) auto
      have g: "g_trys g = []" "g_delegate g = None" "\<not> g_done g" "g_label g \<noteq> 0"
          "g_label g < length segs" and rest: "drop (g_label g) segs = rest"
        using Cons.prems st aw by auto
      show ?thesis
        using straight_resume [OF g(1-3) assms, of "case r of Inl e \<Rightarrow> Throw e | Inr v \<Rightarrow> Next v" s] g(4,5) rest
        by (cases r) (auto simp: awaiter_settle_def aw st Let_def split: prod.splits)
    next
      case False
      with Cons.prems show ?thesis
        by (cases st; cases aw; cases r) (auto simp: awaiter_settle_def)
    qed
    then obtain aw1 s1 st1 where one: "awaiter_settle gc r aw s = Some (aw1, s1)"
        "settle_segments r (st, s) = (st1, s1)" "represents segs aw1 st1"
      by (cases "settle_segments r (st, s)") auto
    show ?case using Cons.IH [OF one(3), of s1] one(1,2) by simp
  qed simp
  have "\<exists>aw s'. awaiter_start gc s = Some (aw, s') \<and>
      (let (st, s'') = run_segments segs Undef s in represents segs aw st \<and> s' = s'')"
    using straight_resume [where g = new_gen and gc = gc and segs = segs and q = "Next Undef"] assms
    by (simp add: awaiter_start_def new_gen_def)
  then obtain aw s1 st where start: "awaiter_start gc s = Some (aw, s1)"
      "run_segments segs Undef s = (st, s1)" "represents segs aw st"
    by (cases "run_segments segs Undef s") auto
  show ?thesis using run [OF start(3), of s1] start(1,2) by simp
qed

section \<open>Property\<close>

text \<open>
  C7. \<open>__awaiter\<close> and \<open>__generator\<close> run a straight-line async function as it reads. Such a
  function, like \<open>Application.start\<close>, is a list of segments separated by awaits, compiled to
  one label for each segment, without jumps, \<open>yield*\<close> and try regions. For every list of
  segments and every sequence of outcomes of the awaited promises, the driven body always
  returns to the event loop, is waiting for the same value, has returned or thrown the same
  value, and has left the same state, as running the segments one after the other; a
  rejected await ends the function.
\<close>

theorem generator_runs_segments:
  assumes "gc_body gc = straight_body segs"
  shows "\<exists>aw s'. Option.bind (awaiter_start gc s) (awaiter_run gc rs) = Some (aw, s') \<and>
    (let (st, s'') = fold settle_segments rs (run_segments segs Undef s)
     in represents segs aw st \<and> s' = s'')"
  using assms by (rule straight_runs)

text \<open>Await 5, then add the answer to the state and return the sum.\<close>

lemma generator_runs_segments_witness:
  "let segs = [\<lambda>v s. (Inr (Num 5), s), \<lambda>v s. case v of Num n \<Rightarrow> (Inr (Num (s + n)), s + n) | e \<Rightarrow> (Inl e, s)];
     gc = \<lparr>gc_body = straight_body segs, gc_next = (\<lambda>i v s. (Inr (v, True), s)),
       gc_throw = (\<lambda>_. None), gc_return = (\<lambda>_. None)\<rparr> :: (unit, unit, nat) gen_code
   in Option.bind (awaiter_start gc 1) (awaiter_run gc [Inr (Num 7)]) = Some (Fulfilled (Num 8), 8)"
proof -
  define segs :: "(unit, nat) segment list" where
    "segs = [\<lambda>v s. (Inr (Num 5), s), \<lambda>v s. case v of Num n \<Rightarrow> (Inr (Num (s + n)), s + n) | e \<Rightarrow> (Inl e, s)]"
  define gc :: "(unit, unit, nat) gen_code" where
    "gc = \<lparr>gc_body = straight_body segs, gc_next = (\<lambda>i v s. (Inr (v, True), s)),
       gc_throw = (\<lambda>_. None), gc_return = (\<lambda>_. None)\<rparr>"
  have body: "gc_body gc = straight_body segs" by (simp add: gc_def)
  have "fold settle_segments [Inr (Num 7)] (run_segments segs Undef 1) = (Returned (Num 8), 8)"
    by (simp add: run_segments_def segs_def)
  with generator_runs_segments [OF body, where s = 1 and rs = "[Inr (Num 7)]"]
  obtain aw where "Option.bind (awaiter_start gc 1) (awaiter_run gc [Inr (Num 7)]) = Some (aw, 8)"
    and "represents segs aw (Returned (Num 8))" by auto
  moreover from this(2) have "aw = Fulfilled (Num 8)" by (cases aw) simp_all
  ultimately show ?thesis by (simp add: Let_def gc_def segs_def)
qed

end
