(* ===== verification/Stimulus_Context.thy ===== *)
theory Stimulus_Context
  imports Stimulus_Values
begin

text \<open>
  How a controller is told of changed values, in stimulus.js: \<open>StringMapObserver\<close> keeps the
  attributes of one element that its delegate knows, \<open>ValueObserver\<close> is such a delegate and
  calls the changed callbacks of the controller, and \<open>Context\<close> holds a controller together
  with its observers. A callback may throw: the exception leaves the observer in the middle
  of its work, as in the code. Every call gets the element as it then is. An attribute with the
  name of a property that every object has, such as constructor, is not looked for in the
  map of the descriptors.
\<close>

section \<open>Calls that may throw\<close>

type_synonym 's attempt = "'s \<Rightarrow> js_error option \<times> 's"

definition fine :: "('s \<Rightarrow> 's) \<Rightarrow> 's attempt" where
  "fine f s = (None, f s)"

definition followed :: "'s attempt \<Rightarrow> 's attempt \<Rightarrow> 's attempt" where
  "followed a b s = (case a s of (None, s') \<Rightarrow> b s' | (Some e, s') \<Rightarrow> (Some e, s'))"

fun for_all :: "'a list \<Rightarrow> ('a \<Rightarrow> 's attempt) \<Rightarrow> 's attempt" where
  "for_all [] f s = (None, s)"
| "for_all (x # xs) f s = followed (f x) (for_all xs f) s"

section \<open>StringMapObserver\<close>

record 'd string_map_delegate =
  getStringMapKeyForAttribute :: "jsstr \<Rightarrow> jsstr option"
  stringMapKeyAdded :: "jsstr \<Rightarrow> jsstr \<Rightarrow> 'd attempt"
  stringMapValueChanged :: "element \<Rightarrow> jsstr option \<Rightarrow> jsstr \<Rightarrow> 'd attempt"
  stringMapKeyRemoved :: "jsstr \<Rightarrow> jsstr \<Rightarrow> 'd attempt"

record 'd string_map_observer =
  sm_started :: bool
  stringMap :: "(jsstr, jsstr) jsmap"
  sm_delegate :: 'd

definition new_string_map_observer :: "'d \<Rightarrow> 'd string_map_observer" where
  "new_string_map_observer d = \<lparr>sm_started = False, stringMap = [], sm_delegate = d\<rparr>"

definition on_delegate :: "'d attempt \<Rightarrow> 'd string_map_observer attempt" where
  "on_delegate f ob = (case f (sm_delegate ob) of (r, d) \<Rightarrow> (r, ob\<lparr>sm_delegate := d\<rparr>))"

definition refreshAttribute ::
  "'d string_map_delegate \<Rightarrow> element \<Rightarrow> jsstr \<Rightarrow> 'd string_map_observer attempt" where
  "refreshAttribute D e attributeName ob =
     (case getStringMapKeyForAttribute D attributeName of
        None \<Rightarrow> (None, ob)
      | Some key \<Rightarrow>
          followed
            (\<lambda>ob. if map_has (stringMap ob) attributeName then (None, ob)
                  else on_delegate (stringMapKeyAdded D key attributeName) ob)
            (\<lambda>ob.
              let value = getAttribute attributeName e in
              followed
                (\<lambda>ob. if map_get (stringMap ob) attributeName \<noteq> value
                      then on_delegate (stringMapValueChanged D e value key) ob else (None, ob))
                (\<lambda>ob. case value of
                   None \<Rightarrow> on_delegate (stringMapKeyRemoved D key attributeName)
                            (ob\<lparr>stringMap := map_delete attributeName (stringMap ob)\<rparr>)
                 | Some v \<Rightarrow> (None, ob\<lparr>stringMap := map_set attributeName v (stringMap ob)\<rparr>))
                ob)
            ob)"

definition knownAttributeNames :: "element \<Rightarrow> 'd string_map_observer \<Rightarrow> jsstr list" where
  "knownAttributeNames e ob = fold set_add (map fst (el_attrs e) @ map_keys (stringMap ob)) []"

definition sm_refresh :: "'d string_map_delegate \<Rightarrow> element \<Rightarrow> 'd string_map_observer attempt" where
  "sm_refresh D e ob =
     (if sm_started ob then for_all (knownAttributeNames e ob) (refreshAttribute D e) ob else (None, ob))"

definition sm_start :: "'d string_map_delegate \<Rightarrow> element \<Rightarrow> 'd string_map_observer attempt" where
  "sm_start D e ob =
     (if sm_started ob then (None, ob) else sm_refresh D e (ob\<lparr>sm_started := True\<rparr>))"

definition sm_stop :: "'d string_map_observer \<Rightarrow> 'd string_map_observer" where
  "sm_stop ob = (if sm_started ob then ob\<lparr>sm_started := False\<rparr> else ob)"

text \<open>A mutation carries the name of the changed attribute.\<close>

definition sm_processMutation ::
  "'d string_map_delegate \<Rightarrow> element \<Rightarrow> jsstr option \<Rightarrow> 'd string_map_observer attempt" where
  "sm_processMutation D e attributeName ob =
     (case attributeName of Some name \<Rightarrow> if name = [] then (None, ob) else refreshAttribute D e name ob
      | None \<Rightarrow> (None, ob))"

definition sm_processMutations ::
  "'d string_map_delegate \<Rightarrow> element \<Rightarrow> jsstr option list \<Rightarrow> 'd string_map_observer attempt" where
  "sm_processMutations D e mutations ob =
     (if sm_started ob then for_all mutations (sm_processMutation D e) ob else (None, ob))"

section \<open>ValueObserver\<close>

text \<open>
  \<open>callback name\<close> is the method of the controller with the name followed by Changed, if it
  has one; it gets the value that the getter reads then.
\<close>

record 'c value_observer =
  vo_scope :: scope
  vo_descriptors :: "value_descriptor list"
  vo_callback :: "jsstr \<Rightarrow> (js_value \<Rightarrow> 'c attempt) option"

text \<open>The \<open>valueDescriptorMap\<close>: descriptors by attribute name, in the order of declaration.\<close>

definition valueDescriptorMap :: "'c value_observer \<Rightarrow> (jsstr, value_descriptor) jsmap" where
  "valueDescriptorMap vo =
     fold (\<lambda>d m. map_set (getAttributeNameForKey (vo_scope vo) (vd_key d)) d m) (vo_descriptors vo) []"

definition invokeChangedCallbackForValue ::
  "'c value_observer \<Rightarrow> element \<Rightarrow> value_descriptor \<Rightarrow> 'c attempt" where
  "invokeChangedCallbackForValue vo e d c =
     (case vo_callback vo (vd_name d @ ''Changed'') of
        None \<Rightarrow> (None, c)
      | Some f \<Rightarrow>
          (case value_get (vo_scope vo) d e of
             Inl err \<Rightarrow> (Some err, c)
           | Inr v \<Rightarrow> f v c))"

definition descriptor_named :: "'c value_observer \<Rightarrow> jsstr \<Rightarrow> value_descriptor option" where
  "descriptor_named vo name = find (\<lambda>d. vd_name d = name) (vo_descriptors vo)"

text \<open>The delegate of the string map observer: only the change of a value matters to it.\<close>

definition value_delegate_of :: "'c value_observer \<Rightarrow> 'c string_map_delegate" where
  "value_delegate_of vo =
     \<lparr>getStringMapKeyForAttribute = (\<lambda>a. map_option vd_name (map_get (valueDescriptorMap vo) a)),
      stringMapKeyAdded = (\<lambda>_ _. fine id),
      stringMapValueChanged = (\<lambda>e _ name.
        case descriptor_named vo name of
          Some d \<Rightarrow> invokeChangedCallbackForValue vo e d
        | None \<Rightarrow> fine id),
      stringMapKeyRemoved = (\<lambda>_ _. fine id)\<rparr>"

text \<open>Run in the constructor; every type has a default, so it concerns every missing value.\<close>

definition invokeChangedCallbacksForDefaultValues :: "'c value_observer \<Rightarrow> element \<Rightarrow> 'c attempt" where
  "invokeChangedCallbacksForDefaultValues vo e =
     for_all (map snd (valueDescriptorMap vo))
       (\<lambda>d c. if \<not> dm_has (vo_scope vo) (vd_key d) e then invokeChangedCallbackForValue vo e d c else (None, c))"

section \<open>Context\<close>

text \<open>
  The controller of a context with its two observers; \<open>'b\<close> is the binding observer with the
  dispatcher. Errors of the three life cycle methods go to the application's \<open>handleError\<close>.
\<close>

record ('b, 'c) context_code =
  cc_binding_start :: "'b \<Rightarrow> 'b"
  cc_binding_stop :: "'b \<Rightarrow> 'b"
  cc_initialize :: "'c attempt"
  cc_connect :: "'c attempt"
  cc_disconnect :: "'c attempt"

record ('b, 'c) context_state =
  cx_binding :: 'b
  cx_values :: "'c string_map_observer"   \<comment> \<open>its delegate state is the controller\<close>
  cx_handled :: "(js_error \<times> jsstr) list"

definition guarded :: "'c attempt \<Rightarrow> jsstr \<Rightarrow> ('b, 'c) context_state attempt" where
  "guarded f message cx =
     (case on_delegate f (cx_values cx) of
        (None, ob) \<Rightarrow> (None, cx\<lparr>cx_values := ob\<rparr>)
      | (Some e, ob) \<Rightarrow>
          (None, cx\<lparr>cx_values := ob, cx_handled := cx_handled cx @ [(e, ''Error '' @ message)]\<rparr>))"

definition on_values :: "'c string_map_observer attempt \<Rightarrow> ('b, 'c) context_state attempt" where
  "on_values f cx = (case f (cx_values cx) of (r, ob) \<Rightarrow> (r, cx\<lparr>cx_values := ob\<rparr>))"

text \<open>The constructor, given the new controller and binding observer.\<close>

definition context_create ::
  "('b, 'c) context_code \<Rightarrow> 'c value_observer \<Rightarrow> element \<Rightarrow> 'c \<Rightarrow> 'b \<Rightarrow>
     js_error option \<times> ('b, 'c) context_state" where
  "context_create cc vo e c b =
     followed (on_values (on_delegate (invokeChangedCallbacksForDefaultValues vo e)))
       (guarded (cc_initialize cc) ''initializing controller'')
       \<lparr>cx_binding = b, cx_values = new_string_map_observer c, cx_handled = []\<rparr>"

definition context_connect ::
  "('b, 'c) context_code \<Rightarrow> 'c value_observer \<Rightarrow> element \<Rightarrow> ('b, 'c) context_state attempt" where
  "context_connect cc vo e =
     followed (fine (\<lambda>cx. cx\<lparr>cx_binding := cc_binding_start cc (cx_binding cx)\<rparr>))
       (followed (on_values (sm_start (value_delegate_of vo) e))
          (guarded (cc_connect cc) ''connecting controller''))"

definition context_disconnect :: "('b, 'c) context_code \<Rightarrow> ('b, 'c) context_state attempt" where
  "context_disconnect cc =
     followed (guarded (cc_disconnect cc) ''disconnecting controller'')
       (fine (\<lambda>cx. cx\<lparr>cx_values := sm_stop (cx_values cx), cx_binding := cc_binding_stop cc (cx_binding cx)\<rparr>))"

section \<open>The observed attributes\<close>

text \<open>The delegate throws nothing when the element is as given.\<close>

definition quiet :: "'d string_map_delegate \<Rightarrow> element \<Rightarrow> bool" where
  "quiet D e \<longleftrightarrow> (\<forall>k a d. fst (stringMapKeyAdded D k a d) = None) \<and>
     (\<forall>v k d. fst (stringMapValueChanged D e v k d) = None) \<and>
     (\<forall>k a d. fst (stringMapKeyRemoved D k a d) = None)"

text \<open>The delegate after an attribute was refreshed.\<close>

definition told :: "'d string_map_delegate \<Rightarrow> element \<Rightarrow> jsstr \<Rightarrow> jsstr \<Rightarrow> 'd string_map_observer \<Rightarrow> 'd" where
  "told D e key a ob =
     (let d1 = (if map_has (stringMap ob) a then sm_delegate ob
                else snd (stringMapKeyAdded D key a (sm_delegate ob)));
          d2 = (if map_get (stringMap ob) a \<noteq> getAttribute a e
                then snd (stringMapValueChanged D e (getAttribute a e) key d1) else d1)
      in if getAttribute a e = None then snd (stringMapKeyRemoved D key a d2) else d2)"

lemma on_delegate_quiet:
  "fst (f (sm_delegate ob)) = None \<Longrightarrow>
   on_delegate f ob = (None, ob\<lparr>sm_delegate := snd (f (sm_delegate ob))\<rparr>)"
  by (simp add: on_delegate_def case_prod_unfold)

lemma refreshAttribute_quiet:
  assumes "quiet D e"
  shows "refreshAttribute D e a ob = (None,
    case getStringMapKeyForAttribute D a of
      None \<Rightarrow> ob
    | Some key \<Rightarrow>
        ob\<lparr>sm_delegate := told D e key a ob,
           stringMap := (case getAttribute a e of None \<Rightarrow> map_delete a (stringMap ob)
             | Some v \<Rightarrow> map_set a v (stringMap ob))\<rparr>)"
proof (cases "getStringMapKeyForAttribute D a")
  case (Some key)
  have q: "fst (stringMapKeyAdded D k a d) = None" "fst (stringMapValueChanged D e v k d) = None"
    "fst (stringMapKeyRemoved D k a d) = None" for k v d
    using assms by (simp_all add: quiet_def)
  show ?thesis
    by (cases "getAttribute a e"; cases "map_has (stringMap ob) a")
      (simp_all add: Some refreshAttribute_def followed_def on_delegate_quiet q told_def Let_def)
qed (simp add: refreshAttribute_def)

definition known_key :: "'d string_map_delegate \<Rightarrow> jsstr \<Rightarrow> bool" where
  "known_key D a \<longleftrightarrow> getStringMapKeyForAttribute D a \<noteq> None"

lemma refreshAttribute_map:
  assumes "quiet D e"
  shows "fst (refreshAttribute D e a ob) = None"
    and "sm_started (snd (refreshAttribute D e a ob)) = sm_started ob"
    and "map_get (stringMap (snd (refreshAttribute D e a ob))) a' =
      (if a' = a \<and> known_key D a then getAttribute a e else map_get (stringMap ob) a')"
  by (auto simp: refreshAttribute_quiet [OF assms] known_key_def split: option.splits)

lemma refresh_all_map:
  assumes "quiet D e"
  shows "fst (for_all as (refreshAttribute D e) ob) = None \<and>
    sm_started (snd (for_all as (refreshAttribute D e) ob)) = sm_started ob \<and>
    map_get (stringMap (snd (for_all as (refreshAttribute D e) ob))) a' =
      (if a' \<in> set as \<and> known_key D a' then getAttribute a' e else map_get (stringMap ob) a')"
proof (induction as arbitrary: ob)
  case (Cons a as)
  obtain ob' where o: "refreshAttribute D e a ob = (None, ob')"
    using refreshAttribute_map(1) [OF assms, of a ob] by (metis prod.collapse)
  with refreshAttribute_map(2,3) [OF assms, of a ob] Cons.IH [of ob'] show ?case
    by (auto simp: followed_def)
qed simp

lemma mutations_refresh:
  "for_all ms (sm_processMutation D e) ob =
   for_all [a. Some a \<leftarrow> ms, a \<noteq> []] (refreshAttribute D e) ob"
proof (induction ms arbitrary: ob)
  case (Cons m ms)
  then show ?case
    by (auto simp: sm_processMutation_def followed_def split: option.splits prod.splits)
qed simp

lemma knownAttributeNames_set:
  "set (knownAttributeNames e ob) = fst ` set (el_attrs e) \<union> fst ` set (stringMap ob)"
proof -
  have "set (fold set_add xs ys) = set xs \<union> set ys" for xs ys :: "jsstr list"
    by (induction xs arbitrary: ys) auto
  then show ?thesis by (simp add: knownAttributeNames_def Un_commute)
qed

lemma getAttribute_known: "lower a = a \<Longrightarrow> getAttribute a e \<noteq> None \<longleftrightarrow> a \<in> fst ` set (el_attrs e)"
  by (simp add: getAttribute_def map_of_eq_None_iff)

text \<open>The recorded map holds the attributes the delegate knows, as they are on the element.\<close>

definition synced :: "'d string_map_delegate \<Rightarrow> element \<Rightarrow> 'd string_map_observer \<Rightarrow> bool" where
  "synced D e ob \<longleftrightarrow> (\<forall>a. lower a = a \<longrightarrow>
     map_get (stringMap ob) a = (if known_key D a then getAttribute a e else None))"

lemma sm_start_synced:
  assumes "quiet D e"
  shows "fst (sm_start D e (new_string_map_observer d)) = None \<and>
    sm_started (snd (sm_start D e (new_string_map_observer d))) \<and>
    synced D e (snd (sm_start D e (new_string_map_observer d)))"
proof -
  let ?ob = "new_string_map_observer d\<lparr>sm_started := True\<rparr>"
  have start: "sm_start D e (new_string_map_observer d) =
      for_all (knownAttributeNames e ?ob) (refreshAttribute D e) ?ob"
    by (simp add: sm_start_def sm_refresh_def new_string_map_observer_def)
  have known: "set (knownAttributeNames e ?ob) = fst ` set (el_attrs e)"
    by (simp add: knownAttributeNames_set new_string_map_observer_def)
  note r = refresh_all_map [OF assms, of "knownAttributeNames e ?ob" ?ob, unfolded known, folded start]
  have "map_get (stringMap (snd (sm_start D e (new_string_map_observer d)))) a =
      (if known_key D a then getAttribute a e else None)" if "lower a = a" for a
    using r [of a] getAttribute_known [OF that, of e] by (auto simp: new_string_map_observer_def)
  with r show ?thesis by (simp add: synced_def new_string_map_observer_def)
qed

text \<open>The mutations name every attribute in which two snapshots of the element differ.\<close>

definition covers :: "element \<Rightarrow> element \<Rightarrow> jsstr option list \<Rightarrow> bool" where
  "covers e e' ms \<longleftrightarrow> list_all (\<lambda>a. getAttribute a e = getAttribute a e' \<or> (a \<noteq> [] \<and> Some a \<in> set ms))
     (map fst (el_attrs e @ el_attrs e'))"

fun covering :: "element \<Rightarrow> (element \<times> jsstr option list) list \<Rightarrow> bool" where
  "covering e [] = True"
| "covering e ((e', ms) # steps) = (covers e e' ms \<and> covering e' steps)"

lemma covers_difference:
  assumes "covers e e' ms" and "lower a = a" and "getAttribute a e \<noteq> getAttribute a e'"
  shows "a \<noteq> [] \<and> Some a \<in> set ms"
proof -
  have "getAttribute a e \<noteq> None \<or> getAttribute a e' \<noteq> None" using assms(3) by auto
  then have "a \<in> set (map fst (el_attrs e @ el_attrs e'))"
    using getAttribute_known [OF assms(2)] by auto
  with assms(1,3) show ?thesis by (auto simp: covers_def list_all_iff)
qed

definition observe :: "'d string_map_delegate \<Rightarrow> (element \<times> jsstr option list) \<Rightarrow>
    'd string_map_observer \<Rightarrow> 'd string_map_observer" where
  "observe D step ob = snd (sm_processMutations D (fst step) (snd step) ob)"

lemma observe_synced:
  assumes "quiet D e'" and "sm_started ob" and "synced D e ob" and "covers e e' ms"
  shows "sm_started (observe D (e', ms) ob) \<and> synced D e' (observe D (e', ms) ob)"
proof -
  let ?names = "[a. Some a \<leftarrow> ms, a \<noteq> []]"
  have o: "observe D (e', ms) ob = snd (for_all ?names (refreshAttribute D e') ob)"
    using assms(2) by (simp add: observe_def sm_processMutations_def mutations_refresh)
  note r = refresh_all_map [OF assms(1), of ?names ob]
  have "map_get (stringMap (observe D (e', ms) ob)) a = (if known_key D a then getAttribute a e' else None)"
    if a: "lower a = a" for a
  proof (cases "a \<in> set ?names")
    case False
    then have "getAttribute a e = getAttribute a e'" using covers_difference [OF assms(4) a] by auto
    with False r [of a] assms(3) a show ?thesis unfolding o synced_def by auto
  next
    case True
    with r [of a] assms(3) a show ?thesis unfolding o synced_def by auto
  qed
  with r assms(2) show ?thesis by (simp add: o synced_def)
qed

lemma observe_all_synced:
  "list_all (quiet D \<circ> fst) steps \<Longrightarrow> sm_started ob \<Longrightarrow> synced D e ob \<Longrightarrow> covering e steps \<Longrightarrow>
   synced D (last (e # map fst steps)) (fold (observe D) steps ob)"
proof (induction steps arbitrary: e ob)
  case (Cons step steps)
  obtain e' ms where st: "step = (e', ms)" by (cases step)
  with observe_synced [OF _ Cons.prems(2,3), of e' ms] Cons.prems(1,4) Cons.IH [of _ e']
  show ?case by simp
qed simp

text \<open>Every value with a callback can be read on the element: arrays and objects are JSON of their type.\<close>

definition readable :: "'c value_observer \<Rightarrow> element \<Rightarrow> bool" where
  "readable vo e \<longleftrightarrow> list_all (\<lambda>d.
     vo_callback vo (vd_name d @ ''Changed'') = None \<or>
     (case value_get (vo_scope vo) d e of Inl err \<Rightarrow> False | Inr v \<Rightarrow> True)) (vo_descriptors vo)"

lemma quiet_value_delegate:
  assumes "\<And>name f v c. vo_callback vo name = Some f \<Longrightarrow> fst (f v c) = None" and "readable vo e"
  shows "quiet (value_delegate_of vo) e"
proof -
  have "fst (invokeChangedCallbackForValue vo e d c) = None" if d: "d \<in> set (vo_descriptors vo)" for d c
  proof (cases "vo_callback vo (vd_name d @ ''Changed'')")
    case (Some f)
    with assms(2) d obtain v where "value_get (vo_scope vo) d e = Inr v"
      by (cases "value_get (vo_scope vo) d e") (auto simp: readable_def list_all_iff)
    with assms(1) [OF Some] Some show ?thesis by (simp add: invokeChangedCallbackForValue_def)
  qed (simp add: invokeChangedCallbackForValue_def)
  then show ?thesis
    by (auto simp: quiet_def value_delegate_of_def fine_def descriptor_named_def find_Some_iff split: option.splits)
qed

section \<open>Properties\<close>

text \<open>
  C17. The value observer keeps up with the element. Started on an element and given the
  mutation records of every later change, in batches that may repeat names or name
  attributes that did not change, it ends with exactly the attributes of declared values
  as the element then has them, provided that no callback throws and that every value
  with a callback can be read on each of these elements (an array or an object, in
  particular, is JSON of its type); what happens otherwise is the next property.
\<close>

theorem values_follow_attributes:
  assumes "\<And>name f v c. vo_callback vo name = Some f \<Longrightarrow> fst (f v c) = None"
    and "list_all (readable vo) (e # map fst steps)"
    and "covering e steps"
    and "lower a = a"
  shows "map_get (stringMap (fold (observe (value_delegate_of vo)) steps
      (snd (sm_start (value_delegate_of vo) e (new_string_map_observer c))))) a =
    (if map_has (valueDescriptorMap vo) a then getAttribute a (last (e # map fst steps)) else None)"
proof -
  have "quiet (value_delegate_of vo) e'" if "readable vo e'" for e'
    using assms(1) that by (rule quiet_value_delegate)
  with assms(2) have q: "quiet (value_delegate_of vo) e" "list_all (quiet (value_delegate_of vo) \<circ> fst) steps"
    by (auto simp: list_all_iff)
  note s = sm_start_synced [OF q(1), of c]
  have "known_key (value_delegate_of vo) a = map_has (valueDescriptorMap vo) a"
    by (simp add: known_key_def value_delegate_of_def)
  with observe_all_synced [OF q(2) conjunct1 [OF conjunct2 [OF s]] conjunct2 [OF conjunct2 [OF s]] assms(3)] assms(4)
  show ?thesis by (simp add: synced_def)
qed

definition counting_observer :: "nat value_observer" where
  "counting_observer =
     \<lparr>vo_scope = sample_scope 1,
      vo_descriptors = [valueDescriptorForTokenAndType ''size'' TNumber, valueDescriptorForTokenAndType ''tags'' TArray],
      vo_callback = (\<lambda>name. if name = ''sizeValueChanged'' \<or> name = ''tagsValueChanged'' then Some (\<lambda>v. fine Suc) else None)\<rparr>"

definition tagged :: "jsstr \<Rightarrow> element" where
  "tagged tags = Element 1 [(''data-flash-tags-value'', tags)] []"

lemma values_follow_attributes_witness:
  "map_get (stringMap (fold (observe (value_delegate_of counting_observer))
      [(tagged ''[1,2]'', [Some ''data-flash-tags-value''])]
      (snd (sm_start (value_delegate_of counting_observer) (tagged ''[]'')
        (new_string_map_observer 0))))) ''data-flash-tags-value'' = Some ''[1,2]''"
proof -
  have "covering (tagged ''[]'') [(tagged ''[1,2]'', [Some ''data-flash-tags-value''])]" by code_simp
  moreover have "lower ''data-flash-tags-value'' = ''data-flash-tags-value''" by code_simp
  moreover have "map_has (valueDescriptorMap counting_observer) ''data-flash-tags-value''" by code_simp
  moreover have "getAttribute ''data-flash-tags-value'' (tagged ''[1,2]'') = Some ''[1,2]''" by code_simp
  moreover have "fst (f v c) = None" if "vo_callback counting_observer name = Some f" for name f v c
    using that by (auto simp: counting_observer_def fine_def split: if_splits)
  moreover have "list_all (readable counting_observer) [tagged ''[]'', tagged ''[1,2]'']" by code_simp
  ultimately show ?thesis
    using values_follow_attributes [of counting_observer "tagged ''[]''"
        "[(tagged ''[1,2]'', [Some ''data-flash-tags-value''])]" "''data-flash-tags-value''" 0]
    by (simp del: fold_simps)
qed

text \<open>
  C30. Changed callbacks. Refreshing an attribute calls the callback of its value once, with
  the value the getter reads, exactly when the text differs from the recorded one. When the
  callback throws, or the getter does, the exception ends the batch of mutations: the
  text is not recorded, and the attributes named later in the batch are not looked at.
\<close>

theorem changed_callback_outcome:
  assumes "map_get (valueDescriptorMap vo) a = Some d" and "descriptor_named vo (vd_name d) = Some d"
    and "vo_callback vo (vd_name d @ ''Changed'') = Some f" and "a \<noteq> []"
    and "map_get (stringMap ob) a = Some old" and "getAttribute a e = Some new"
  shows "sm_processMutations (value_delegate_of vo) e (Some a # ms) (ob\<lparr>sm_started := True\<rparr>) =
    (if old = new then sm_processMutations (value_delegate_of vo) e ms
        (ob\<lparr>sm_started := True, stringMap := map_set a new (stringMap ob)\<rparr>)
     else case (case value_get (vo_scope vo) d e of Inl err \<Rightarrow> (Some err, sm_delegate ob)
                | Inr v \<Rightarrow> f v (sm_delegate ob)) of
       (Some err, c) \<Rightarrow> (Some err, ob\<lparr>sm_started := True, sm_delegate := c\<rparr>)
     | (None, c) \<Rightarrow> sm_processMutations (value_delegate_of vo) e ms
         (ob\<lparr>sm_started := True, sm_delegate := c, stringMap := map_set a new (stringMap ob)\<rparr>))"
proof -
  let ?D = "value_delegate_of vo" and ?ob = "ob\<lparr>sm_started := True\<rparr>"
  define callback where
    "callback = (\<lambda>c. case value_get (vo_scope vo) d e of Inl err \<Rightarrow> (Some err, c) | Inr v \<Rightarrow> f v c)"
  have key: "getStringMapKeyForAttribute ?D a = Some (vd_name d)"
    and changed: "stringMapValueChanged ?D e t (vd_name d) = callback" for t
    using assms(1-3) by (simp_all add: value_delegate_of_def invokeChangedCallbackForValue_def [abs_def] callback_def)
  obtain r c where rc: "callback (sm_delegate ob) = (r, c)" by (cases "callback (sm_delegate ob)")
  have one: "sm_processMutation ?D e (Some a) ?ob = refreshAttribute ?D e a ?ob"
    using assms(4) by (simp add: sm_processMutation_def)
  have refresh: "refreshAttribute ?D e a ?ob =
      (if old = new then (None, ?ob\<lparr>stringMap := map_set a new (stringMap ob)\<rparr>)
       else case r of
         Some err \<Rightarrow> (Some err, ?ob\<lparr>sm_delegate := c\<rparr>)
       | None \<Rightarrow> (None, ?ob\<lparr>sm_delegate := c, stringMap := map_set a new (stringMap ob)\<rparr>))"
    by (cases r) (simp_all add: refreshAttribute_def key changed assms(5,6) followed_def on_delegate_def rc Let_def)
  have "(case value_get (vo_scope vo) d e of Inl err \<Rightarrow> (Some err, sm_delegate ob)
      | Inr v \<Rightarrow> f v (sm_delegate ob)) = (r, c)"
    using rc by (simp add: callback_def)
  then show ?thesis
    by (cases r) (simp_all add: followed_def one refresh sm_processMutations_def)
qed

lemma changed_callback_outcome_witness:
  "fst (sm_processMutations (value_delegate_of (counting_observer\<lparr>vo_callback := \<lambda>name.
        if name = ''sizeValueChanged'' then Some (\<lambda>v c. (Some (Thrown ''no''), Suc c)) else None\<rparr>))
      (Element 1 [(''data-flash-size-value'', ''3'')] []) [Some ''data-flash-size-value'']
      (\<lparr>sm_started = False, stringMap = [(''data-flash-size-value'', ''2'')], sm_delegate = 0\<rparr>
         \<lparr>sm_started := True\<rparr>)) = Some (Thrown ''no'')"
proof -
  let ?f = "\<lambda>v c. (Some (Thrown ''no''), Suc c)"
  let ?vo = "counting_observer\<lparr>vo_callback := \<lambda>name. if name = ''sizeValueChanged'' then Some ?f else None\<rparr>"
  let ?d = "valueDescriptorForTokenAndType ''size'' TNumber"
  have d: "map_get (valueDescriptorMap ?vo) ''data-flash-size-value'' = Some ?d"
    "descriptor_named ?vo (vd_name ?d) = Some ?d" by code_simp+
  have name: "vd_name ?d @ ''Changed'' = ''sizeValueChanged''" by code_simp
  have attr: "getAttribute ''data-flash-size-value'' (Element 1 [(''data-flash-size-value'', ''3'')] []) = Some ''3''"
    by code_simp
  have type: "vd_type ?d = TNumber" by (simp add: valueDescriptorForTokenAndType_def Let_def)
  then obtain v where v: "value_get (vo_scope ?vo) ?d (Element 1 [(''data-flash-size-value'', ''3'')] []) = Inr v"
    by (cases "dm_get (vo_scope ?vo) (vd_key ?d) (Element 1 [(''data-flash-size-value'', ''3'')] [])")
      (simp_all add: value_get_def)
  have cb: "vo_callback ?vo (vd_name ?d @ ''Changed'') = Some ?f"
    by (simp only: name) simp
  let ?ob = "\<lparr>sm_started = False, stringMap = [(''data-flash-size-value'', ''2'')], sm_delegate = 0\<rparr> :: nat string_map_observer"
  have old: "map_get (stringMap ?ob) ''data-flash-size-value'' = Some ''2''" by simp
  have "''data-flash-size-value'' \<noteq> []" "''2'' \<noteq> ''3''" by simp_all
  with changed_callback_outcome [OF d cb _ old attr, of "[]"] v show ?thesis
    by (simp only: sum.case prod.case option.case if_False fst_conv simp_thms)
qed


end
