(* ===== verification/Stimulus_Throwing.thy ===== *)
theory Stimulus_Throwing
  imports Js_Generator Stimulus_Context Stimulus_Router
begin

text \<open>
  What an exception does that leaves a context. The life cycle methods of a controller are
  guarded, but a changed callback of a value, or the getter of a value that cannot be read,
  may throw in the constructor of \<open>Context\<close> and in its \<open>connect\<close>. \<open>Module\<close> and the router
  do not catch it. Here \<open>Module\<close> holds the contexts of Stimulus_Context; Stimulus_Router and
  the theories above it describe the same operations for controllers that do not throw, and
  the second property relates the two.
\<close>

section \<open>Module\<close>

text \<open>
  What a module gets from outside: the methods of its controllers, and for each scope the value
  observer, the element as it is, and the new controller and binding observer.
\<close>

record ('b, 'c) module_code =
  mc_code :: "('b, 'c) context_code"
  mc_observer :: "scope \<Rightarrow> 'c value_observer"
  mc_element :: "scope \<Rightarrow> Stimulus_Scope.element"
  mc_controller :: "scope \<Rightarrow> 'c"
  mc_binding :: "scope \<Rightarrow> 'b"

record ('b, 'c) throwing_module =
  tm_contextsByScope :: "(scope, ('b, 'c) context_state) jsmap"
  tm_connectedContexts :: "scope jsset"

definition new_context :: "('b, 'c) module_code \<Rightarrow> scope \<Rightarrow> js_error option \<times> ('b, 'c) context_state" where
  "new_context mc s =
     context_create (mc_code mc) (mc_observer mc s) (mc_element mc s) (mc_controller mc s) (mc_binding mc s)"

definition connect_of :: "('b, 'c) module_code \<Rightarrow> scope \<Rightarrow> ('b, 'c) context_state attempt" where
  "connect_of mc s = context_connect (mc_code mc) (mc_observer mc s) (mc_element mc s)"

definition throwing_fetch ::
  "('b, 'c) module_code \<Rightarrow> scope \<Rightarrow> ('b, 'c) throwing_module \<Rightarrow>
     (js_error + ('b, 'c) context_state) \<times> ('b, 'c) throwing_module" where
  "throwing_fetch mc s m =
     (case map_get (tm_contextsByScope m) s of
        Some cx \<Rightarrow> (Inr cx, m)
      | None \<Rightarrow>
          (case new_context mc s of
             (Some e, _) \<Rightarrow> (Inl e, m)
           | (None, cx) \<Rightarrow> (Inr cx, m\<lparr>tm_contextsByScope := map_set s cx (tm_contextsByScope m)\<rparr>)))"

text \<open>The context is counted as connected before it connects.\<close>

definition throwing_connect :: "('b, 'c) module_code \<Rightarrow> scope \<Rightarrow> ('b, 'c) throwing_module attempt" where
  "throwing_connect mc s m =
     (case throwing_fetch mc s m of
        (Inl e, m') \<Rightarrow> (Some e, m')
      | (Inr cx, m') \<Rightarrow>
          (case connect_of mc s cx of
             (r, cx') \<Rightarrow>
               (r, m'\<lparr>tm_connectedContexts := set_add s (tm_connectedContexts m'),
                      tm_contextsByScope := map_set s cx' (tm_contextsByScope m')\<rparr>)))"

text \<open>The loop of \<open>Router.connectModule\<close>, and of the observer that reports scopes one by one.\<close>

definition throwing_connects :: "('b, 'c) module_code \<Rightarrow> scope list \<Rightarrow> ('b, 'c) throwing_module attempt" where
  "throwing_connects mc scopes = for_all scopes (throwing_connect mc)"

section \<open>Start\<close>

text \<open>
  \<open>Application.start\<close> after the wait for the document: the dispatcher is started, then the router,
  whose observer finds the given scopes for the module; an exception rejects the promise.
\<close>

definition throwing_start ::
  "('b, 'c) module_code \<Rightarrow> scope list \<Rightarrow> (unit, bool \<times> ('b, 'c) throwing_module) segment list" where
  "throwing_start mc scopes =
     [\<lambda>_ s. (Inr (Val ()), s),
      \<lambda>_ (started, m). (case throwing_connects mc scopes m of
         (Some e, m') \<Rightarrow> (Inl (Exn e), (True, m'))
       | (None, m') \<Rightarrow> (Inr Undef, (True, m')))]"

section \<open>The context of one scope\<close>

text \<open>The context before it connects, if its constructor does not throw, and what connecting gives.\<close>

definition own_context :: "('b, 'c) module_code \<Rightarrow> ('b, 'c) throwing_module \<Rightarrow> scope \<Rightarrow> js_error + ('b, 'c) context_state" where
  "own_context mc m s =
     (case map_get (tm_contextsByScope m) s of
        Some cx \<Rightarrow> Inr cx
      | None \<Rightarrow> (case new_context mc s of (Some e, _) \<Rightarrow> Inl e | (None, cx) \<Rightarrow> Inr cx))"

definition connect_error :: "('b, 'c) module_code \<Rightarrow> ('b, 'c) throwing_module \<Rightarrow> scope \<Rightarrow> js_error option" where
  "connect_error mc m s = (case own_context mc m s of Inl e \<Rightarrow> Some e | Inr cx \<Rightarrow> fst (connect_of mc s cx))"

lemma throwing_connect_outcome:
  "throwing_connect mc s m =
     (case own_context mc m s of
        Inl e \<Rightarrow> (Some e, m)
      | Inr cx \<Rightarrow>
          (connect_error mc m s,
           \<lparr>tm_contextsByScope = map_set s (snd (connect_of mc s cx)) (tm_contextsByScope m),
            tm_connectedContexts = set_add s (tm_connectedContexts m)\<rparr>))"
proof (cases "map_get (tm_contextsByScope m) s")
  case (Some cx)
  then show ?thesis
    by (simp add: throwing_connect_def throwing_fetch_def own_context_def connect_error_def split: prod.splits)
next
  case None
  have twice: "map_set s y (map_set s x xs) = map_set s y xs" for x y and xs :: "(scope, 'x) jsmap"
    by (rule map_set_twice)
  from None show ?thesis
    by (cases "new_context mc s"; cases "fst (new_context mc s)")
      (auto simp: throwing_connect_def throwing_fetch_def own_context_def connect_error_def twice split: prod.splits)
qed

text \<open>Other scopes are left alone, so their own contexts and errors stay the same.\<close>

lemma own_context_other:
  "s' \<noteq> s \<Longrightarrow> own_context mc (snd (throwing_connect mc s m)) s' = own_context mc m s'"
  by (simp add: throwing_connect_outcome own_context_def split: sum.splits)

lemma connect_error_other:
  "s' \<noteq> s \<Longrightarrow> connect_error mc (snd (throwing_connect mc s m)) s' = connect_error mc m s'"
  by (simp add: connect_error_def own_context_other)

definition fine_before :: "('b, 'c) module_code \<Rightarrow> ('b, 'c) throwing_module \<Rightarrow> scope list \<Rightarrow> scope list" where
  "fine_before mc m scopes = takeWhile (\<lambda>s. connect_error mc m s = None) scopes"

definition from_first :: "('b, 'c) module_code \<Rightarrow> ('b, 'c) throwing_module \<Rightarrow> scope list \<Rightarrow> scope list" where
  "from_first mc m scopes = dropWhile (\<lambda>s. connect_error mc m s = None) scopes"

lemma throwing_connects_outcome:
  assumes "distinct scopes"
  shows "case throwing_connects mc scopes m of (r, m') \<Rightarrow>
    r = (case from_first mc m scopes of [] \<Rightarrow> None | s # _ \<Rightarrow> connect_error mc m s) \<and>
    (\<forall>s. s \<in> set (tm_connectedContexts m') \<longleftrightarrow>
       s \<in> set (tm_connectedContexts m) \<or> s \<in> set (fine_before mc m scopes) \<or>
       (case from_first mc m scopes of [] \<Rightarrow> False
        | f # _ \<Rightarrow> s = f \<and> (case own_context mc m f of Inl _ \<Rightarrow> False | Inr _ \<Rightarrow> True))) \<and>
    (\<forall>s. map_get (tm_contextsByScope m') s =
       (if s \<in> set (fine_before mc m scopes @ take 1 (from_first mc m scopes))
        then (case own_context mc m s of
                Inr cx \<Rightarrow> Some (snd (connect_of mc s cx)) | Inl _ \<Rightarrow> map_get (tm_contextsByScope m) s)
        else map_get (tm_contextsByScope m) s))"
  using assms
proof (induction scopes arbitrary: m)
  case (Cons s scopes)
  let ?m = "snd (throwing_connect mc s m)"
  have others: "connect_error mc ?m s' = connect_error mc m s'" "own_context mc ?m s' = own_context mc m s'"
    if "s' \<in> set scopes" for s'
    using Cons.prems that by (auto intro: connect_error_other own_context_other)
  show ?case
  proof (cases "connect_error mc m s")
    case (Some e)
    then have "throwing_connects mc (s # scopes) m = (Some e, ?m)"
      by (auto simp: throwing_connects_def followed_def throwing_connect_outcome connect_error_def split: sum.splits)
    with Some show ?thesis
      by (auto simp: fine_before_def from_first_def throwing_connect_outcome split: sum.splits)
  next
    case None
    then obtain cx where cx: "own_context mc m s = Inr cx" by (auto simp: connect_error_def split: sum.splits)
    have run: "throwing_connects mc (s # scopes) m = throwing_connects mc scopes ?m"
      by (simp add: throwing_connects_def followed_def throwing_connect_outcome cx None)
    have prefixes: "fine_before mc m (s # scopes) = s # fine_before mc ?m scopes"
        "from_first mc m (s # scopes) = from_first mc ?m scopes"
      unfolding fine_before_def from_first_def using None others(1)
      by (auto intro!: takeWhile_cong dropWhile_cong)
    have inside: "set (from_first mc ?m scopes) \<subseteq> set scopes" "set (fine_before mc ?m scopes) \<subseteq> set scopes"
      by (auto simp: from_first_def fine_before_def dest: set_dropWhileD set_takeWhileD)
    have fresh: "s \<notin> set scopes" "distinct scopes" using Cons.prems by simp_all
    have now: "tm_connectedContexts ?m = set_add s (tm_connectedContexts m)"
        "map_get (tm_contextsByScope ?m) s' =
          (if s' = s then Some (snd (connect_of mc s cx)) else map_get (tm_contextsByScope m) s')" for s'
      by (simp_all add: throwing_connect_outcome cx)
    obtain r m' where last: "throwing_connects mc scopes ?m = (r, m')" by fastforce
    note IH = Cons.IH [OF fresh(2), of ?m, unfolded last prod.case]
    have r: "r = (case from_first mc ?m scopes of [] \<Rightarrow> None | f # _ \<Rightarrow> connect_error mc m f)"
      using IH inside(1) others(1) by (auto split: list.splits)
    have connected: "s' \<in> set (tm_connectedContexts m') \<longleftrightarrow>
       s' \<in> set (tm_connectedContexts m) \<or> s' \<in> set (s # fine_before mc ?m scopes) \<or>
       (case from_first mc ?m scopes of [] \<Rightarrow> False
        | f # _ \<Rightarrow> s' = f \<and> (case own_context mc m f of Inl _ \<Rightarrow> False | Inr _ \<Rightarrow> True))" for s'
      using IH inside(1) others(2) now(1) by (cases "from_first mc ?m scopes") auto
    have contexts: "map_get (tm_contextsByScope m') s' =
       (if s' \<in> set ((s # fine_before mc ?m scopes) @ take 1 (from_first mc ?m scopes))
        then (case own_context mc m s' of
                Inr cx \<Rightarrow> Some (snd (connect_of mc s' cx)) | Inl _ \<Rightarrow> map_get (tm_contextsByScope m) s')
        else map_get (tm_contextsByScope m) s')" for s'
    proof -
      have "set (fine_before mc ?m scopes @ take 1 (from_first mc ?m scopes)) \<subseteq> set scopes"
        using inside set_take_subset [of 1 "from_first mc ?m scopes"] by auto
      then show ?thesis
        using conjunct2 [OF conjunct2 [OF IH], THEN spec, of s'] others(2) [of s'] now(2) [of s'] fresh(1) cx
        by (auto split: sum.splits)
    qed
    show ?thesis unfolding run last prod.case prefixes using r connected contexts by blast
  qed
qed (simp add: throwing_connects_def fine_before_def from_first_def)

section \<open>When nothing throws\<close>

text \<open>No callback of a value throws, and every value with a callback can be read on the element.\<close>

definition quiet_scope :: "('b, 'c) module_code \<Rightarrow> scope \<Rightarrow> bool" where
  "quiet_scope mc s \<longleftrightarrow>
     (\<forall>name f v c. vo_callback (mc_observer mc s) name = Some f \<longrightarrow> fst (f v c) = None) \<and>
     readable (mc_observer mc s) (mc_element mc s)"

lemma quiet_scope_delegate: "quiet_scope mc s \<Longrightarrow> quiet (value_delegate_of (mc_observer mc s)) (mc_element mc s)"
  by (rule quiet_value_delegate) (auto simp: quiet_scope_def)

lemma for_all_quiet: "(\<And>x c. x \<in> set xs \<Longrightarrow> fst (f x c) = None) \<Longrightarrow> fst (for_all xs f c) = None"
proof (induction xs arbitrary: c)
  case (Cons x xs)
  have "fst (f x c) = None" using Cons.prems by simp
  with Cons show ?case by (cases "f x c") (simp add: followed_def)
qed simp

lemma descriptors_of_map: "set (map snd (valueDescriptorMap vo)) \<subseteq> set (vo_descriptors vo)"
proof -
  have one: "snd ` set (map_set k v m) \<subseteq> insert v (snd ` set m)" for k v and m :: "(jsstr, value_descriptor) jsmap"
    by (induction m) auto
  have "snd ` set (fold (\<lambda>d m. map_set (key d) d m) ds m) \<subseteq> set ds \<union> snd ` set m"
    for key :: "value_descriptor \<Rightarrow> jsstr" and ds m
  proof (induction ds arbitrary: m)
    case (Cons d ds)
    from subset_trans [OF Cons [of "map_set (key d) d m"]] one [of "key d" d m] show ?case by auto
  qed simp
  from this [of _ "vo_descriptors vo" "[]"] show ?thesis by (simp add: valueDescriptorMap_def)
qed

lemma quiet_defaults:
  assumes "quiet_scope mc s"
  shows "fst (invokeChangedCallbacksForDefaultValues (mc_observer mc s) (mc_element mc s) c) = None"
  unfolding invokeChangedCallbacksForDefaultValues_def
proof (rule for_all_quiet)
  let ?vo = "mc_observer mc s" and ?e = "mc_element mc s"
  fix d c assume "d \<in> set (map snd (valueDescriptorMap ?vo))"
  then have d: "d \<in> set (vo_descriptors ?vo)" using descriptors_of_map [of ?vo] by blast
  have "fst (invokeChangedCallbackForValue ?vo ?e d c) = None"
  proof (cases "vo_callback ?vo (vd_name d @ ''Changed'')")
    case (Some f)
    with assms d obtain v where "value_get (vo_scope ?vo) d ?e = Inr v"
      by (cases "value_get (vo_scope ?vo) d ?e") (auto simp: quiet_scope_def readable_def list_all_iff)
    with assms Some show ?thesis by (auto simp: invokeChangedCallbackForValue_def quiet_scope_def)
  qed (simp add: invokeChangedCallbackForValue_def)
  then show "fst (if \<not> dm_has (vo_scope ?vo) (vd_key d) ?e then invokeChangedCallbackForValue ?vo ?e d c else (None, c)) = None"
    by simp
qed

lemma guarded_returns: "fst (guarded f m x) = None"
  by (simp add: guarded_def split: option.splits prod.splits)

lemma quiet_connect_error:
  assumes "quiet_scope mc s"
  shows "connect_error mc m s = None"
proof -
  have "fst (sm_start (value_delegate_of (mc_observer mc s)) (mc_element mc s) ob) = None" for ob
    using refresh_all_map [OF quiet_scope_delegate [OF assms]] by (simp add: sm_start_def sm_refresh_def)
  then have "fst (connect_of mc s cx) = None" for cx
    by (simp add: connect_of_def context_connect_def followed_def fine_def on_values_def guarded_returns
        split: prod.splits option.splits) (metis fst_conv option.distinct(1))
  moreover have "fst (new_context mc s) = None"
    using quiet_defaults [OF assms]
    by (simp add: new_context_def context_create_def followed_def on_values_def on_delegate_def guarded_returns
        split: prod.splits option.splits) (metis fst_conv option.distinct(1) guarded_returns)
  ultimately show ?thesis
    by (auto simp: connect_error_def own_context_def split: option.splits sum.splits prod.splits)
qed

lemma map_keys_set: "map_keys (map_set k v m) = set_add k (map_keys m)"
  by (induction m) (auto simp: set_add_def)

lemma quiet_connect_module:
  assumes "quiet_scope mc s" and "m_contexts ml = map_keys (tm_contextsByScope m)"
    and "m_connected ml = tm_connectedContexts m"
  shows "\<exists>m' ml' evs'. throwing_connect mc s m = (None, m') \<and> connectContextForScope s (ml, evs) = (ml', evs') \<and>
    m_contexts ml' = map_keys (tm_contextsByScope m') \<and> m_connected ml' = tm_connectedContexts m'"
proof -
  have none: "connect_error mc m s = None" by (rule quiet_connect_error [OF assms(1)])
  then obtain cx where cx: "own_context mc m s = Inr cx" by (auto simp: connect_error_def split: sum.splits)
  show ?thesis
    using assms(2,3) by (simp add: map_keys_set throwing_connect_outcome cx none connectContextForScope_def fetchContextForScope_def
        set_add_def)
qed

section \<open>Properties\<close>

text \<open>
  C6. An exception of a changed callback stops the connects. When a module connects scopes, from
  the loop of the router or as the observer reports them, the scopes before the first one
  that throws get connected contexts, its own exception leaves the loop, and the scopes
  behind it are not looked at. The scope that throws is left in between: if its constructor
  threw it has no context; if its \<open>connect\<close> threw, the module counts its context as connected,
  although the controller's \<open>connect\<close> was never called. When this happens in the start of an
  application, the dispatcher is started and the promise of \<open>start\<close> is rejected with the
  exception; otherwise it is fulfilled.
\<close>

theorem throwing_callback_stops_connects:
  assumes "distinct scopes" and "gc_body gc = straight_body (throwing_start mc scopes)"
  shows "case throwing_connects mc scopes m of (r, m') \<Rightarrow>
    r = (case from_first mc m scopes of [] \<Rightarrow> None | s # _ \<Rightarrow> connect_error mc m s) \<and>
    (\<forall>s. s \<in> set (tm_connectedContexts m') \<longleftrightarrow>
       s \<in> set (tm_connectedContexts m) \<or> s \<in> set (fine_before mc m scopes) \<or>
       (case from_first mc m scopes of [] \<Rightarrow> False
        | f # _ \<Rightarrow> s = f \<and> (case own_context mc m f of Inl _ \<Rightarrow> False | Inr _ \<Rightarrow> True))) \<and>
    (\<forall>s. map_get (tm_contextsByScope m') s =
       (if s \<in> set (fine_before mc m scopes @ take 1 (from_first mc m scopes))
        then (case own_context mc m s of
                Inr cx \<Rightarrow> Some (snd (connect_of mc s cx)) | Inl _ \<Rightarrow> map_get (tm_contextsByScope m) s)
        else map_get (tm_contextsByScope m) s)) \<and>
    Option.bind (awaiter_start gc (started, m)) (awaiter_run gc [Inr v]) =
      Some (case r of Some e \<Rightarrow> Failed (Exn e) | None \<Rightarrow> Fulfilled Undef, (True, m'))"
proof -
  obtain r m' where run: "throwing_connects mc scopes m = (r, m')" by fastforce
  let ?segs = "throwing_start mc scopes"
  have "fold settle_segments [Inr v] (run_segments ?segs Undef (started, m)) =
      (case r of Some e \<Rightarrow> Threw (Exn e) | None \<Rightarrow> Returned Undef, (True, m'))"
    by (cases r) (simp_all add: throwing_start_def run_segments_def run)
  with straight_runs [OF assms(2), where s = "(started, m)" and rs = "[Inr v]"]
  obtain aw where "Option.bind (awaiter_start gc (started, m)) (awaiter_run gc [Inr v]) = Some (aw, (True, m'))"
    and "represents ?segs aw (case r of Some e \<Rightarrow> Threw (Exn e) | None \<Rightarrow> Returned Undef)" by auto
  moreover from this(2) have "aw = (case r of Some e \<Rightarrow> Failed (Exn e) | None \<Rightarrow> Fulfilled Undef)"
    by (cases r; cases aw) simp_all
  ultimately show ?thesis using throwing_connects_outcome [OF assms(1), of mc m] by (simp add: run)
qed

text \<open>Three elements with a list of tags that a callback is told of; the list of the second is no JSON.\<close>

definition tag_module :: "(nat, nat) module_code" where
  "tag_module =
     \<lparr>mc_code = \<lparr>cc_binding_start = Suc, cc_binding_stop = id, cc_initialize = fine id, cc_connect = fine id,
        cc_disconnect = fine id\<rparr>,
      mc_observer = (\<lambda>_. counting_observer),
      mc_element = (\<lambda>s. tagged (if sc_element s = 2 then ''[1'' else ''[1]'')),
      mc_controller = (\<lambda>_. 0), mc_binding = (\<lambda>_. 0)\<rparr>"

definition tag_scopes :: "scope list" where
  "tag_scopes = map (\<lambda>e. \<lparr>sc_element = e, sc_identifier = ''flash''\<rparr>) [1, 2, 3]"

definition no_contexts :: "(nat, nat) throwing_module" where
  "no_contexts = \<lparr>tm_contextsByScope = [], tm_connectedContexts = []\<rparr>"

lemma throwing_callback_stops_connects_witness:
  "\<exists>e m'. throwing_connects tag_module tag_scopes no_contexts = (Some e, m') \<and>
     set (tm_connectedContexts m') = {\<lparr>sc_element = 1, sc_identifier = ''flash''\<rparr>, \<lparr>sc_element = 2, sc_identifier = ''flash''\<rparr>}"
proof -
  let ?s = "\<lambda>e. \<lparr>sc_element = e, sc_identifier = ''flash''\<rparr>"
  have d: "distinct tag_scopes" by (simp add: tag_scopes_def)
  have "connect_error tag_module no_contexts (?s 1) = None" by code_simp
  moreover have bad: "connect_error tag_module no_contexts (?s 2) \<noteq> None" by code_simp
  moreover have "case own_context tag_module no_contexts (?s 2) of Inl _ \<Rightarrow> False | Inr _ \<Rightarrow> True" by code_simp
  ultimately have parts: "fine_before tag_module no_contexts tag_scopes = [?s 1]"
      "from_first tag_module no_contexts tag_scopes = [?s 2, ?s 3]"
      "case own_context tag_module no_contexts (?s 2) of Inl _ \<Rightarrow> False | Inr _ \<Rightarrow> True"
    by (simp_all add: fine_before_def from_first_def tag_scopes_def)
  define gc :: "(unit, unit, bool \<times> (nat, nat) throwing_module) gen_code" where
    "gc = \<lparr>gc_body = straight_body (throwing_start tag_module tag_scopes), gc_next = (\<lambda>i v s. (Inr (v, True), s)),
       gc_throw = (\<lambda>_. None), gc_return = (\<lambda>_. None)\<rparr>"
  have "gc_body gc = straight_body (throwing_start tag_module tag_scopes)" by (simp add: gc_def)
  from throwing_callback_stops_connects [OF d this, where m = no_contexts and started = False and v = Undef] bad parts(3)
  show ?thesis
    unfolding parts(1,2)
    by (cases "throwing_connects tag_module tag_scopes no_contexts") (auto simp: no_contexts_def)
qed



end
