(* ===== verification/Stimulus_Application.thy ===== *)
theory Stimulus_Application
  imports Js_Generator Stimulus_Sync Stimulus_Dispatcher
begin

text \<open>
  \<open>Application\<close> in stimulus.js: \<open>start\<close> waits until the document is parsed and then starts
  the dispatcher and the router, \<open>stop\<close> stops both, \<open>load\<close> and \<open>unload\<close> pass definitions to
  the router. \<open>start\<close> is the generator body of the code, driven by \<open>__awaiter\<close>. The controllers
  are taken not to throw while they connect; what happens otherwise is in Stimulus_Throwing.
\<close>

section \<open>The page an application runs on\<close>

text \<open>
  The promises of \<open>domReady\<close> are numbered. \<open>ap_listening\<close> holds those that a listener of
  DOMContentLoaded resolves, \<open>ap_microtasks\<close> the resolved ones whose reactions have not
  run. The router is the observer tower below it.
\<close>

datatype page_value = ReadyPromise nat | DomEvent

record page_state =
  ap_loading :: bool   \<comment> \<open>\<open>document.readyState == "loading"\<close>\<close>
  ap_document :: dom
  ap_listening :: "nat list"
  ap_microtasks :: "(nat \<times> page_value any) list"
  ap_next :: nat
  ap_dispatcher :: dispatcher
  ap_router :: application

definition new_page_state :: "nat \<Rightarrow> bool \<Rightarrow> dom \<Rightarrow> page_state" where
  "new_page_state root loading dm =
     \<lparr>ap_loading = loading, ap_document = dm, ap_listening = [], ap_microtasks = [], ap_next = 0,
      ap_dispatcher = new_dispatcher, ap_router = new_application root\<rparr>"

definition domReady :: "page_state \<Rightarrow> page_value any \<times> page_state" where
  "domReady s =
     (let n = ap_next s; s' = s\<lparr>ap_next := Suc n\<rparr> in
      (Val (ReadyPromise n),
       if ap_loading s then s'\<lparr>ap_listening := ap_listening s @ [n]\<rparr>
       else s'\<lparr>ap_microtasks := ap_microtasks s @ [(n, Undef)]\<rparr>))"

section \<open>Operations\<close>

definition router_call :: "application_call \<Rightarrow> page_state \<Rightarrow> page_state" where
  "router_call c s = s\<lparr>ap_router := app_call c (ap_router s)\<rparr>"

definition router_start :: "page_state \<Rightarrow> page_state" where
  "router_start s = router_call (Observe (Start (ap_document s))) s"

definition router_stop :: "page_state \<Rightarrow> page_state" where
  "router_stop = router_call (Observe Stop)"

text \<open>The body of \<open>start\<close>, a switch over two labels.\<close>

definition start_body ::
  "('i, page_value) slot \<Rightarrow> ('i, page_value) gen \<Rightarrow> page_state \<Rightarrow>
     (page_value any + ('i, page_value) instruction) \<times> ('i, page_value) gen \<times> page_state" where
  "start_body t g s =
     (if g_label g = 0 then (case domReady s of (v, s') \<Rightarrow> (Inr (Yield v), g, s'))
      else if g_label g = 1 then
        (case sent t of
           Inl e \<Rightarrow> (Inl e, g, s)
         | Inr _ \<Rightarrow>
             (Inr (Return Undef), g,
              router_start (s\<lparr>ap_dispatcher := dp_start (ap_dispatcher s)\<rparr>)))
      else (Inr (Return Undef), g, s))"

text \<open>The body delegates to no iterator.\<close>

definition start_code :: "(unit, page_value, page_state) gen_code" where
  "start_code =
     \<lparr>gc_body = start_body, gc_next = (\<lambda>_ _ s. (Inr (Undef, True), s)),
      gc_throw = (\<lambda>_. None), gc_return = (\<lambda>_. None)\<rparr>"

type_synonym start_promise = "(unit, page_value) awaiter"

definition application_stop :: "page_state \<Rightarrow> page_state" where
  "application_stop s = router_stop (s\<lparr>ap_dispatcher := dp_stop (ap_dispatcher s)\<rparr>)"

definition application_load :: "jsstr list \<Rightarrow> page_state \<Rightarrow> page_state" where
  "application_load definitions = fold (\<lambda>i. router_call (Load i)) definitions"

definition application_unload :: "jsstr list \<Rightarrow> page_state \<Rightarrow> page_state" where
  "application_unload identifiers = fold (\<lambda>i. router_call (Unload i)) identifiers"

text \<open>\<open>register\<close> loads one definition.\<close>

definition register :: "jsstr \<Rightarrow> page_state \<Rightarrow> page_state" where
  "register i = application_load [i]"

section \<open>Events\<close>

datatype page_event =
    CallStart | CallStop | CallLoad "jsstr list" | CallUnload "jsstr list"
  | Parsed                               \<comment> \<open>\<open>readyState\<close> leaves loading\<close>
  | ContentLoaded                        \<comment> \<open>the event DOMContentLoaded\<close>
  | Microtask                            \<comment> \<open>the oldest reaction runs\<close>
  | Changed dom "mutation list"          \<comment> \<open>the document changed\<close>
  | Bind binding | Unbind binding        \<comment> \<open>calls of the binding observers\<close>

text \<open>The promises that calls of \<open>start\<close> returned, in order.\<close>

type_synonym running = "start_promise list \<times> page_state"

definition call_start :: "running \<Rightarrow> running option" where
  "call_start st =
     (case st of (ps, s) \<Rightarrow> map_option (\<lambda>(p, s'). (ps @ [p], s')) (awaiter_start start_code s))"

fun awaits :: "nat \<Rightarrow> start_promise \<Rightarrow> bool" where
  "awaits n (Awaiting v g) = (v = Val (ReadyPromise n))"
| "awaits n _ = False"

text \<open>
  A reaction resumes the call that waits for the promise: every call of \<open>start\<close> calls
  \<open>domReady\<close> once, so it is the call with the number of the promise.
\<close>

definition run_microtask :: "running \<Rightarrow> running option" where
  "run_microtask st =
     (case st of (ps, s) \<Rightarrow>
      case ap_microtasks s of
        [] \<Rightarrow> Some (ps, s)
      | (n, v) # rest \<Rightarrow>
          (if n < length ps \<and> awaits n (ps ! n)
           then map_option (\<lambda>(p, s'). (ps[n := p], s'))
                  (awaiter_settle start_code (Inr v) (ps ! n) (s\<lparr>ap_microtasks := rest\<rparr>))
           else Some (ps, s\<lparr>ap_microtasks := rest\<rparr>)))"

definition content_loaded :: "page_state \<Rightarrow> page_state" where
  "content_loaded s =
     s\<lparr>ap_microtasks := ap_microtasks s @ map (\<lambda>n. (n, Val DomEvent)) (ap_listening s), ap_listening := []\<rparr>"

fun page_step :: "page_event \<Rightarrow> running \<Rightarrow> running option" where
  "page_step CallStart st = call_start st"
| "page_step CallStop (ps, s) = Some (ps, application_stop s)"
| "page_step (CallLoad is) (ps, s) = Some (ps, application_load is s)"
| "page_step (CallUnload is) (ps, s) = Some (ps, application_unload is s)"
| "page_step Parsed (ps, s) = Some (ps, s\<lparr>ap_loading := False\<rparr>)"
| "page_step ContentLoaded (ps, s) = Some (ps, content_loaded s)"
| "page_step Microtask st = run_microtask st"
| "page_step (Changed dm ms) (ps, s) =
     Some (ps, router_call (Observe (Mutations dm ms)) (s\<lparr>ap_document := dm\<rparr>))"
| "page_step (Bind b) (ps, s) = Some (ps, s\<lparr>ap_dispatcher := dp_bindingConnected b (ap_dispatcher s)\<rparr>)"
| "page_step (Unbind b) (ps, s) = Some (ps, s\<lparr>ap_dispatcher := dp_bindingDisconnected b (ap_dispatcher s)\<rparr>)"

fun page_run :: "page_event list \<Rightarrow> running \<Rightarrow> running option" where
  "page_run [] st = Some st"
| "page_run (ev # evs) st = Option.bind (page_step ev st) (page_run evs)"

section \<open>What the router is asked to do\<close>

text \<open>
  The specification keeps whether the document is loading, how many calls of \<open>start\<close> wait
  for DOMContentLoaded, how many are about to go on, and the document; a step says which
  calls reach the router.
\<close>

type_synonym plan_state = "bool \<times> nat \<times> nat \<times> dom"

fun plan_step :: "page_event \<Rightarrow> plan_state \<Rightarrow> application_call list \<times> plan_state" where
  "plan_step CallStart (loading, l, r, dm) = ([], if loading then (loading, Suc l, r, dm) else (loading, l, Suc r, dm))"
| "plan_step CallStop p = ([Observe Stop], p)"
| "plan_step (CallLoad is) p = (map Load is, p)"
| "plan_step (CallUnload is) p = (map Unload is, p)"
| "plan_step Parsed (loading, l, r, dm) = ([], (False, l, r, dm))"
| "plan_step ContentLoaded (loading, l, r, dm) = ([], (loading, 0, r + l, dm))"
| "plan_step Microtask (loading, l, r, dm) =
     (if r = 0 then ([], (loading, l, r, dm)) else ([Observe (Start dm)], (loading, l, r - 1, dm)))"
| "plan_step (Changed dm' ms) (loading, l, r, dm) = ([Observe (Mutations dm' ms)], (loading, l, r, dm'))"
| "plan_step (Bind b) p = ([], p)"
| "plan_step (Unbind b) p = ([], p)"

fun plan :: "plan_state \<Rightarrow> page_event list \<Rightarrow> application_call list \<times> plan_state" where
  "plan p [] = ([], p)"
| "plan p (ev # evs) =
     (case plan_step ev p of (cs, p') \<Rightarrow> (case plan p' evs of (cs', p'') \<Rightarrow> (cs @ cs', p'')))"

definition start_waits :: "nat \<Rightarrow> start_promise" where
  "start_waits n = Awaiting (Val (ReadyPromise n)) (new_gen\<lparr>g_label := 1\<rparr>)"

lemma start_first: "awaiter_start start_code s = Some (Awaiting (fst (domReady s)) (new_gen\<lparr>g_label := 1\<rparr>), snd (domReady s))"
proof -
  let ?g = "new_gen :: (unit, page_value) gen"
  have "gen_round start_code (Next Undef) ?g s = (Inr (Yield (fst (domReady s))), ?g, snd (domReady s))"
    by (simp add: gen_round_def proceed_def start_code_def start_body_def new_gen_def split_beta)
  moreover have "gen_round start_code (Yield v) ?g s' = (Inl (Inr (v, False)), ?g\<lparr>g_label := 1\<rparr>, s')" for v s'
    by (simp add: gen_round_def proceed_def new_gen_def)
  moreover have "\<not> g_done ?g" by (simp add: new_gen_def)
  ultimately have "gen_step start_code (Next Undef) ?g s =
      Some (Inr (fst (domReady s), False), ?g\<lparr>g_label := 1\<rparr>, snd (domReady s))"
    by (simp add: gen_step.simps [where q = "Next Undef"] gen_step.simps [where q = "Yield v" for v])
  then show ?thesis by (simp add: awaiter_start_def)
qed

lemma start_second:
  "awaiter_settle start_code (Inr v) (start_waits n) s =
     Some (Fulfilled Undef, router_start (s\<lparr>ap_dispatcher := dp_start (ap_dispatcher s)\<rparr>))"
proof -
  let ?g = "new_gen\<lparr>g_label := 1\<rparr> :: (unit, page_value) gen"
  let ?s = "router_start (s\<lparr>ap_dispatcher := dp_start (ap_dispatcher s)\<rparr>)"
  have "gen_round start_code (Next v) ?g s = (Inr (Return Undef), ?g, ?s)"
    by (simp add: gen_round_def proceed_def start_code_def start_body_def new_gen_def has_bit_def)
  moreover have "gen_round start_code (Return Undef) ?g ?s = (Inr (Return Undef), ?g\<lparr>g_done := True\<rparr>, ?s)"
    by (simp add: gen_round_def proceed_def new_gen_def switch_default_def last_region_def jumps_def is_raise_def)
  moreover have "\<not> g_done ?g" by (simp add: new_gen_def)
  moreover have "final_result (Return Undef :: (unit, page_value) instruction) = Inr (Undef, True)"
    by (rule final_simps)
  ultimately have "gen_step start_code (Next v) ?g s = Some (Inr (Undef, True), ?g\<lparr>g_done := True\<rparr>, ?s)"
    by (simp add: gen_step.simps [where q = "Next v"] gen_step.simps [where q = "Return Undef"])
  then show ?thesis by (simp add: awaiter_settle_def start_waits_def)
qed

section \<open>The application carries out the plan\<close>

definition waiting_ids :: "page_state \<Rightarrow> nat list" where
  "waiting_ids s = ap_listening s @ map fst (ap_microtasks s)"

definition starts_ok :: "running \<Rightarrow> bool" where
  "starts_ok st =
     (case st of (ps, s) \<Rightarrow> ap_next s = length ps \<and> distinct (waiting_ids s) \<and>
        set (waiting_ids s) \<subseteq> {..<length ps} \<and>
        (\<forall>i < length ps. ps ! i = (if i \<in> set (waiting_ids s) then start_waits i else Fulfilled Undef)) \<and>
        dp_started (ap_dispatcher s) = eo_started (ap_router s))"

definition plan_of :: "page_state \<Rightarrow> plan_state" where
  "plan_of s = (ap_loading s, length (ap_listening s), length (ap_microtasks s), ap_document s)"

lemma app_call_started:
  "eo_started (app_call c app) =
     (case c of Observe (Start dm) \<Rightarrow> True | Observe Stop \<Rightarrow> False | _ \<Rightarrow> eo_started app)"
proof -
  have add: "eo_started (fold (addElement D dm) xs ob) = eo_started ob"
    for D :: "'d element_delegate" and dm xs ob
    by (induction xs arbitrary: ob) (simp_all add: addElement_def)
  have remove: "eo_started (fold (\<lambda>e ob. if e \<in> M then ob else removeElement D e ob) xs ob) = eo_started ob"
    for D :: "'d element_delegate" and M xs ob
    by (induction xs arbitrary: ob) (simp_all add: removeElement_def)
  have refresh: "eo_started (eo_refresh D dm ob) = eo_started ob" for D :: "'d element_delegate" and dm ob
    by (simp add: eo_refresh_def Let_def add remove)
  show ?thesis
  proof (cases c)
    case (Observe ob)
    then show ?thesis
      by (cases ob) (simp_all add: processMutations_started eo_start_def eo_stop_def refresh)
  qed (simp_all add: update_router_view)
qed

lemma router_calls:
  "fold (\<lambda>i. router_call (f i)) xs s = s\<lparr>ap_router := fold app_call (map f xs) (ap_router s)\<rparr>"
  by (induction xs arbitrary: s) (simp_all add: router_call_def)

lemma registered_started:
  "eo_started (fold app_call (map Load is) app) = eo_started app"
  "eo_started (fold app_call (map Unload is) app) = eo_started app"
  by (induction "is" arbitrary: app) (simp_all add: update_router_view)

lemma dispatcher_started [simp]:
  "dp_started (dp_start d)" "\<not> dp_started (dp_stop d)"
  "dp_started (dp_bindingConnected b d) = dp_started d"
  "dp_started (dp_bindingDisconnected b d) = dp_started d"
  by (simp_all add: dp_start_def dp_stop_def map_listeners_def dp_bindingConnected_def
      dp_bindingDisconnected_def update_listener_started)

lemma starts_okD:
  assumes "starts_ok (ps, s)"
  shows "ap_next s = length ps" and "distinct (waiting_ids s)" and "set (waiting_ids s) \<subseteq> {..<length ps}"
    and "i < length ps \<Longrightarrow> ps ! i = (if i \<in> set (waiting_ids s) then start_waits i else Fulfilled Undef)"
    and "dp_started (ap_dispatcher s) = eo_started (ap_router s)"
  using assms by (simp_all add: starts_ok_def)

text \<open>A call that is about to wait.\<close>

lemma call_start_ok:
  assumes ok: "starts_ok (ps, s)"
  shows "\<exists>s'. call_start (ps, s) = Some (ps @ [start_waits (length ps)], s') \<and>
    starts_ok (ps @ [start_waits (length ps)], s') \<and> ap_router s' = ap_router s \<and>
    plan_of s' = snd (plan_step CallStart (plan_of s))"
proof -
  let ?s = "snd (domReady s)"
  have first: "fst (domReady s) = Val (ReadyPromise (length ps))" and "ap_next ?s = Suc (length ps)"
    and new: "set (waiting_ids ?s) = insert (length ps) (set (waiting_ids s))"
    and unchanged: "ap_dispatcher ?s = ap_dispatcher s" "ap_router ?s = ap_router s"
    using starts_okD(1) [OF ok] by (auto simp: domReady_def waiting_ids_def Let_def)
  moreover have "distinct (waiting_ids ?s)"
    using starts_okD(1-3) [OF ok] by (auto simp: domReady_def waiting_ids_def Let_def)
  ultimately have "starts_ok (ps @ [start_waits (length ps)], ?s)"
    using starts_okD(3,5) [OF ok] starts_okD(4) [OF ok]
    by (auto simp: starts_ok_def new nth_append less_Suc_eq)
  moreover have "call_start (ps, s) = Some (ps @ [start_waits (length ps)], ?s)"
    by (simp add: call_start_def start_first first start_waits_def)
  moreover have "plan_of ?s = snd (plan_step CallStart (plan_of s))"
    by (simp add: domReady_def plan_of_def Let_def)
  ultimately show ?thesis using unchanged(2) by blast
qed

lemma microtask_ok:
  assumes ok: "starts_ok (ps, s)"
  shows "\<exists>ps' s'. run_microtask (ps, s) = Some (ps', s') \<and> starts_ok (ps', s') \<and> length ps' = length ps \<and>
    ap_router s' = fold app_call (fst (plan_step Microtask (plan_of s))) (ap_router s) \<and>
    plan_of s' = snd (plan_step Microtask (plan_of s))"
proof (cases "ap_microtasks s")
  case Nil
  then show ?thesis using ok by (simp add: run_microtask_def plan_of_def)
next
  case (Cons task rest)
  obtain n v where task: "task = (n, v)" by fastforce
  let ?s = "s\<lparr>ap_microtasks := rest\<rparr>"
  let ?s' = "router_start (?s\<lparr>ap_dispatcher := dp_start (ap_dispatcher s)\<rparr>)"
  have n: "n < length ps" "n \<in> set (waiting_ids s)"
    using starts_okD(3) [OF ok] by (auto simp: waiting_ids_def Cons task)
  then have p: "ps ! n = start_waits n" using starts_okD(4) [OF ok] by simp
  then have "awaits n (ps ! n)" by (simp add: start_waits_def)
  with n(1) p have run: "run_microtask (ps, s) = Some (ps[n := Fulfilled Undef], ?s')"
    by (simp add: run_microtask_def Cons task start_second)
  have ids: "waiting_ids ?s' = remove1 n (waiting_ids s)" and "n \<notin> set (waiting_ids ?s')"
    using starts_okD(2) [OF ok]
    by (auto simp: waiting_ids_def Cons task router_start_def router_call_def remove1_append)
  then have "starts_ok (ps[n := Fulfilled Undef], ?s')"
    using starts_okD(1-3) [OF ok] starts_okD(4) [OF ok] n(1)
    by (auto simp: starts_ok_def nth_list_update router_start_def router_call_def app_call_started
        simp del: app_call.simps dest: notin_set_remove1 split: if_splits)
  then show ?thesis
    using run by (simp add: plan_of_def Cons router_start_def router_call_def)
qed

lemma page_step_ok:
  assumes ok: "starts_ok (ps, s)"
  shows "\<exists>ps' s'. page_step ev (ps, s) = Some (ps', s') \<and> starts_ok (ps', s') \<and>
    length ps' = length ps + (if ev = CallStart then 1 else 0) \<and>
    ap_router s' = fold app_call (fst (plan_step ev (plan_of s))) (ap_router s) \<and>
    plan_of s' = snd (plan_step ev (plan_of s))"
proof (cases "ev = CallStart \<or> ev = Microtask")
  case True
  then show ?thesis
    using call_start_ok [OF ok] microtask_ok [OF ok] by (fastforce simp: plan_of_def)
next
  case False
  have same: "starts_ok (ps, s')"
    if "ap_next s' = ap_next s" "set (waiting_ids s') = set (waiting_ids s)" "distinct (waiting_ids s')"
      "dp_started (ap_dispatcher s') = eo_started (ap_router s')" for s'
    using that starts_okD [OF ok] by (auto simp: starts_ok_def)
  note defs = application_load_def application_unload_def application_stop_def router_stop_def
    router_calls router_call_def content_loaded_def plan_of_def
  show ?thesis
    using False starts_okD(2,5) [OF ok]
    by (cases ev)
      (auto simp: defs waiting_ids_def registered_started app_call_started comp_def simp del: app_call.simps
        intro!: same, force+)
qed

lemma page_run_ok:
  "starts_ok (ps, s) \<Longrightarrow> \<exists>ps' s'. page_run evs (ps, s) = Some (ps', s') \<and> starts_ok (ps', s') \<and>
     length ps' = length ps + length (filter (\<lambda>ev. ev = CallStart) evs) \<and>
     ap_router s' = fold app_call (fst (plan (plan_of s) evs)) (ap_router s) \<and>
     plan_of s' = snd (plan (plan_of s) evs)"
proof (induction evs arbitrary: ps s)
  case (Cons ev evs)
  obtain ps1 s1 where one: "page_step ev (ps, s) = Some (ps1, s1)" "starts_ok (ps1, s1)"
      "length ps1 = length ps + (if ev = CallStart then 1 else 0)"
      "ap_router s1 = fold app_call (fst (plan_step ev (plan_of s))) (ap_router s)"
      "plan_of s1 = snd (plan_step ev (plan_of s))"
    using page_step_ok [OF Cons.prems] by blast
  with Cons.IH [OF one(2)] show ?case by (auto simp: split_beta)
qed simp

lemma starts_ok_new: "starts_ok ([], new_page_state root loading dm)"
  by (simp add: starts_ok_def new_page_state_def waiting_ids_def new_dispatcher_def new_application_def
      new_element_observer_def)

section \<open>Property\<close>

text \<open>
  An application starts once for every call of \<open>start\<close>, when the document is parsed. Under
  any sequence of calls of the application, of events of the document and of microtasks,
  every call of \<open>start\<close> returns a promise, which is not rejected as long as no changed callback
  throws (this model has no such exceptions, see Stimulus_Throwing); the router gets exactly the
  calls of the plan, in which a call of \<open>start\<close> becomes a start on the document of the moment
  only after DOMContentLoaded, or at the next microtask when the document was parsed
  before; the dispatcher is started exactly when the router is; and the promises that are
  not fulfilled are those the plan has waiting.
\<close>

theorem application_follows_plan:
  "\<exists>ps s. page_run evs ([], new_page_state root loading dm) = Some (ps, s) \<and>
    (case plan (loading, 0, 0, dm) evs of (cs, _, l, r, _) \<Rightarrow>
       ap_router s = app_run root cs \<and> dp_started (ap_dispatcher s) = eo_started (ap_router s) \<and>
       length ps = length (filter (\<lambda>ev. ev = CallStart) evs) \<and>
       set ps \<subseteq> insert (Fulfilled Undef) (range start_waits) \<and>
       length (filter (\<lambda>p. p \<noteq> Fulfilled Undef) ps) = l + r)"
proof -
  have start: "plan_of (new_page_state root loading dm) = (loading, 0, 0, dm)"
      "ap_router (new_page_state root loading dm) = new_application root"
    by (simp_all add: plan_of_def new_page_state_def)
  obtain ps s where run: "page_run evs ([], new_page_state root loading dm) = Some (ps, s)"
      "starts_ok (ps, s)" "length ps = length (filter (\<lambda>ev. ev = CallStart) evs)"
      "ap_router s = app_run root (fst (plan (loading, 0, 0, dm) evs))"
      "plan_of s = snd (plan (loading, 0, 0, dm) evs)"
    using page_run_ok [OF starts_ok_new] by (fastforce simp: start app_run_def)
  note ok = starts_okD [OF run(2)]
  have "{i. i < length ps \<and> ps ! i \<noteq> Fulfilled Undef} = set (waiting_ids s)"
    using ok(3,4) by (auto simp: start_waits_def split: if_splits)
  then have "length (filter (\<lambda>p. p \<noteq> Fulfilled Undef) ps) = length (waiting_ids s)"
    using ok(2) by (simp add: length_filter_conv_card distinct_card)
  moreover have "set ps \<subseteq> insert (Fulfilled Undef) (range start_waits)"
  proof
    fix p assume "p \<in> set ps"
    then obtain i where "i < length ps" "p = ps ! i" by (auto simp: in_set_conv_nth)
    then show "p \<in> insert (Fulfilled Undef) (range start_waits)" using ok(4) [of i] by simp
  qed
  ultimately show ?thesis
    using run ok(5) by (cases "plan (loading, 0, 0, dm) evs")
      (auto simp: plan_of_def waiting_ids_def intro!: exI [of _ ps] exI [of _ s])
qed

text \<open>A call of \<open>stop\<close> does not reach a start that still waits: the application starts after it.\<close>

lemma stop_does_not_cancel_start:
  assumes "starts_ok (ps, s)" and "ap_microtasks s \<noteq> []"
  shows "\<exists>ps' s'. page_run [CallStop, Microtask] (ps, s) = Some (ps', s') \<and>
    dp_started (ap_dispatcher s') \<and> eo_started (ap_router s')"
proof -
  obtain ps' s' where run: "page_run [CallStop, Microtask] (ps, s) = Some (ps', s')" "starts_ok (ps', s')"
      "ap_router s' = fold app_call (fst (plan (plan_of s) [CallStop, Microtask])) (ap_router s)"
    using page_run_ok [OF assms(1)] by blast
  moreover have "fst (plan (plan_of s) [CallStop, Microtask]) = [Observe Stop, Observe (Start (ap_document s))]"
    using assms(2) by (simp add: plan_of_def)
  ultimately have "eo_started (ap_router s')" by (simp add: app_call_started del: app_call.simps)
  with run starts_okD(5) [OF run(2)] show ?thesis by blast
qed

end
