(* ===== verification/Gui_Termination.thy ===== *)
theory Gui_Termination
  imports Gui_World
begin

text \<open>
  The asynchronous code of main.js ends: what a user action starts is over after a bounded
  number of settled awaits, whatever they settle with, on whatever page, and however the
  runs of different actions interleave. \<open>within n q\<close> says that the pending await \<open>q\<close> and
  all that follow it are over after at most \<open>n\<close> settlings; \<open>costs e s m\<close> that the
  statement \<open>m\<close> awaits at most \<open>e\<close> times before it throws and at most \<open>s\<close> times before it
  returns. The rules of the second are one per statement form, so each handler's bound is
  computed along its text.
\<close>

section \<open>Bounded awaits\<close>

inductive within :: "nat \<Rightarrow> pending \<Rightarrow> bool" where
  "(\<And>r p. fits w r \<Longrightarrow>
      (\<exists>ns. list_all2 within ns (fst (f r p)) \<and> Suc (sum_list ns) \<le> n)) \<Longrightarrow>
   within n (Pending w f)"

definition lim :: "nat \<Rightarrow> code \<Rightarrow> bool" where
  "lim n c \<longleftrightarrow> (\<forall>p. \<exists>ns. list_all2 within ns (fst (c p)) \<and> sum_list ns \<le> n)"

lemma within_iff: "within n q \<longleftrightarrow> (\<forall>r. fits (awaited q) r \<longrightarrow> 0 < n \<and> lim (n - 1) (resume q r))"
proof (cases q)
  case (Pending w f)
  have "(\<exists>ns. list_all2 within ns (fst (f r p)) \<and> Suc (sum_list ns) \<le> n) \<longleftrightarrow>
      0 < n \<and> (\<exists>ns. list_all2 within ns (fst (f r p)) \<and> sum_list ns \<le> n - 1)" for r p
    by (cases n) auto
  then show ?thesis
    by (auto simp: Pending lim_def within.simps)
qed

lemma within_pos: "within n q \<Longrightarrow> 0 < n"
proof -
  assume "within n q"
  moreover have "fits (awaited q) (RError undefined)" by (cases "awaited q") simp_all
  ultimately show "0 < n" unfolding within_iff by blast
qed

lemma lim_mono: "lim m c \<Longrightarrow> m \<le> n \<Longrightarrow> lim n c"
  unfolding lim_def by (meson le_trans)

definition costs :: "nat \<Rightarrow> nat \<Rightarrow> 'a js \<Rightarrow> bool" where
  "costs e s m \<longleftrightarrow>
     (\<forall>k a b. (\<forall>x. lim a (k (Inl x))) \<longrightarrow> (\<forall>x. lim b (k (Inr x))) \<longrightarrow> lim (max (e + a) (s + b)) (m k))"

lemma costsI:
  "(\<And>k a b. (\<And>x. lim a (k (Inl x))) \<Longrightarrow> (\<And>x. lim b (k (Inr x))) \<Longrightarrow> lim (max (e + a) (s + b)) (m k)) \<Longrightarrow>
   costs e s m"
  by (simp add: costs_def)

lemma costsD:
  "costs e s m \<Longrightarrow> (\<And>x. lim a (k (Inl x))) \<Longrightarrow> (\<And>x. lim b (k (Inr x))) \<Longrightarrow>
   lim (max (e + a) (s + b)) (m k)"
  by (simp add: costs_def)

lemma costs_weaken: "costs e s m \<Longrightarrow> e \<le> e' \<Longrightarrow> s \<le> s' \<Longrightarrow> costs e' s' m"
proof (rule costsI)
  fix k :: "js_error + 'a \<Rightarrow> code" and a b
  assume "costs e s m" "e \<le> e'" "s \<le> s'" and k: "\<And>x. lim a (k (Inl x))" "\<And>x. lim b (k (Inr x))"
  then have "max (e + a) (s + b) \<le> max (e' + a) (s' + b)" by (auto simp: le_max_iff_disj)
  with costsD [OF \<open>costs e s m\<close> k] show "lim (max (e' + a) (s' + b)) (m k)" by (rule lim_mono)
qed

section \<open>Rules for the statements\<close>

named_theorems costs_rules "one rule per statement form"

lemma costs_ret [costs_rules]: "costs 0 0 (ret x)"
  by (rule costsI) (simp add: ret_def, rule lim_mono, auto)

lemma costs_throw [costs_rules]: "costs 0 0 (throw x)"
  by (rule costsI) (simp add: throw_def, rule lim_mono, auto)

lemma costs_bnd [costs_rules]:
  assumes "costs e1 s1 m" and "\<And>x. costs e2 s2 (f x)"
  shows "costs (max e1 (s1 + e2)) (s1 + s2) (bnd m f)"
proof (rule costsI)
  fix k :: "js_error + 'b \<Rightarrow> code" and a b
  assume k: "\<And>x. lim a (k (Inl x))" "\<And>x. lim b (k (Inr x))"
  have "lim (max (e1 + a) (s1 + max (e2 + a) (s2 + b))) (bnd m f k)"
    unfolding bnd_def by (rule costsD [OF assms(1)]) (use k costsD [OF assms(2)] in auto)
  then show "lim (max (max e1 (s1 + e2) + a) (s1 + s2 + b)) (bnd m f k)"
    by (rule lim_mono) auto
qed

lemma costs_seq [costs_rules]:
  "costs e1 s1 m \<Longrightarrow> costs e2 s2 n \<Longrightarrow> costs (max e1 (s1 + e2)) (s1 + s2) (seq m n)"
  unfolding seq_def by (rule costs_bnd)

lemma costs_try_catch [costs_rules]:
  assumes "costs e1 s1 m" and "\<And>x. costs e2 s2 (h x)"
  shows "costs (e1 + e2) (max s1 (e1 + s2)) (try_catch m h)"
proof (rule costsI)
  fix k :: "js_error + 'a \<Rightarrow> code" and a b
  assume k: "\<And>x. lim a (k (Inl x))" "\<And>x. lim b (k (Inr x))"
  have "lim (max (e1 + max (e2 + a) (s2 + b)) (s1 + b)) (try_catch m h k)"
    unfolding try_catch_def by (rule costsD [OF assms(1)]) (use k costsD [OF assms(2)] in auto)
  then show "lim (max (e1 + e2 + a) (max s1 (e1 + s2) + b)) (try_catch m h k)"
    by (rule lim_mono) auto
qed

lemma costs_sync [costs_rules]: "costs 0 0 (sync f)"
proof (rule costsI)
  fix k :: "js_error + 'a \<Rightarrow> code" and a b
  assume k: "\<And>x. lim a (k (Inl x))" "\<And>x. lim b (k (Inr x))"
  have "lim (max (0 + a) (0 + b)) (k r)" for r
    by (cases r) (auto intro: lim_mono [OF k(1)] lim_mono [OF k(2)])
  then show "lim (max (0 + a) (0 + b)) (sync f k)"
    by (auto simp: lim_def sync_def split: prod.splits)
qed

lemma costs_await [costs_rules]: "costs 1 1 (await w sel)"
proof (rule costsI)
  fix k :: "js_error + 'a \<Rightarrow> code" and a b
  assume k: "\<And>x. lim a (k (Inl x))" "\<And>x. lim b (k (Inr x))"
  let ?f = "\<lambda>reply. case reply of RError e \<Rightarrow> k (Inl e)
       | _ \<Rightarrow> (case sel reply of Some x \<Rightarrow> k (Inr x) | None \<Rightarrow> (\<lambda>p. ([], p)))"
  have "lim (max a b) (\<lambda>p. ([], p))" by (simp add: lim_def)
  then have "lim (max a b) (?f r)" for r
    by (cases r) (auto intro: lim_mono [OF k(1)] lim_mono [OF k(2)] split: option.splits)
  then have "within (Suc (max a b)) (Pending w ?f)" by (simp add: within_iff)
  then show "lim (max (1 + a) (1 + b)) (await w sel k)"
    by (auto simp: lim_def await_def intro!: exI [of _ "[Suc (max a b)]"])
qed

lemma costs_if [costs_rules]:
  "costs e1 s1 m \<Longrightarrow> costs e2 s2 n \<Longrightarrow> costs (max e1 e2) (max s1 s2) (if c then m else n)"
  by (cases c) (auto elim: costs_weaken)

lemma costs_option [costs_rules]:
  "costs e1 s1 m \<Longrightarrow> (\<And>x. costs e2 s2 (f x)) \<Longrightarrow>
   costs (max e1 e2) (max s1 s2) (case c of None \<Rightarrow> m | Some x \<Rightarrow> f x)"
  by (cases c; simp; rule costs_weaken, auto)

lemma costs_list [costs_rules]:
  "costs e1 s1 m \<Longrightarrow> (\<And>x xs. costs e2 s2 (f x xs)) \<Longrightarrow>
   costs (max e1 e2) (max s1 s2) (case c of [] \<Rightarrow> m | x # xs \<Rightarrow> f x xs)"
  by (cases c; simp; rule costs_weaken, auto)

lemma costs_for_each [costs_rules]: "(\<And>x. costs 0 0 (f x)) \<Longrightarrow> costs 0 0 (for_each xs f)"
proof (induction xs)
  case (Cons x xs)
  from costs_seq [OF Cons.prems Cons.IH [OF Cons.prems]] show ?case by simp
qed (simp add: costs_ret)

lemma lim_run_js: "costs e s m \<Longrightarrow> lim (max e s) (run_js m)"
  unfolding run_js_def by (drule costsD [where a = 0 and b = 0]) (auto simp: lim_def)

lemma costs_spawn:
  assumes "lim c (run_js m)"
  shows "costs 0 c (spawn m)"
proof (rule costsI)
  fix k :: "js_error + unit \<Rightarrow> code" and a b
  assume k: "\<And>x. lim b (k (Inr x))"
  have "\<exists>ns. list_all2 within ns (fst (spawn m k p)) \<and> sum_list ns \<le> c + b" for p
  proof -
    obtain ps p' where m: "run_js m p = (ps, p')" by (cases "run_js m p")
    obtain qs p'' where q: "k (Inr ()) p' = (qs, p'')" by (cases "k (Inr ()) p'")
    obtain ns where ns: "list_all2 within ns ps" "sum_list ns \<le> c"
      using assms m unfolding lim_def by (metis fst_conv)
    obtain ns' where ns': "list_all2 within ns' qs" "sum_list ns' \<le> b"
      using k q unfolding lim_def by (metis fst_conv)
    from ns(1) ns'(1) have "list_all2 within (ns @ ns') (ps @ qs)" by (rule list_all2_appendI)
    with ns(2) ns'(2) show ?thesis by (intro exI [of _ "ns @ ns'"]) (simp add: spawn_def m q)
  qed
  then have "lim (c + b) (spawn m k)" by (simp add: lim_def)
  then show "lim (max (0 + a) (c + b)) (spawn m k)" by (rule lim_mono) simp
qed

section \<open>The statements of the page\<close>

lemma costs_page [costs_rules]:
  "costs 0 0 (gets f)" "costs 0 0 (modify g)" "costs 0 0 (the_target t)" "costs 0 0 (target_prop h t)"
  "costs 0 0 (controller c)" "costs 0 0 (field v name)"
  by (simp_all add: gets_def modify_def the_target_def target_prop_def controller_def field_def costs_sync)

lemma costs_elements [costs_rules]:
  "costs 0 0 (on_target t f)" "costs 0 0 (set_innerHTML t s)" "costs 0 0 (set_innerText t s)"
  "costs 0 0 (append_child t d)" "costs 0 0 (flash_printError s)" "costs 0 0 (flash_printSuccess s)"
  "costs 0 0 (getAPIURL s)" "costs 0 0 (messaging_addMsg d)"
  unfolding set_innerHTML_def set_innerText_def append_child_def on_target_def flash_printError_def
    flash_printSuccess_def getAPIURL_def messaging_addMsg_def addMsg_def
  by (rule costs_weaken, (rule costs_rules)+, simp, simp)+

lemma costs_promises [costs_rules]:
  "costs 1 1 (fetch_global rq)" "costs 1 1 (resp_text r)" "costs 1 1 (resp_json r)"
  "costs 1 1 (resp_blob r)" "costs 1 1 (renderSVGElement s)"
  unfolding fetch_global_def resp_text_def resp_json_def resp_blob_def renderSVGElement_def
  by (rule costs_weaken, (rule costs_rules)+, simp, simp)+

text \<open>A failed request costs one await more, the text of the response.\<close>

lemma costs_throw_any: "costs 0 s (throw x)"
  by (rule costs_weaken [OF costs_throw]) simp_all

lemma costs_base_fetch [costs_rules]: "costs 2 1 (base_fetch rq)"
proof (rule costsI)
  fix k :: "js_error + response \<Rightarrow> code" and a b
  assume k: "\<And>x. lim a (k (Inl x))" "\<And>x. lim b (k (Inr x))"
  have "lim (max (1 + a) (1 + a)) (resp_text resp (\<lambda>r. case r of Inl e \<Rightarrow> k (Inl e)
      | Inr txt \<Rightarrow> throw (g txt) k))" for resp g
    by (rule costsD [OF costs_promises(2)]) (simp_all add: throw_def k)
  then have body: "lim (Suc a) (resp_text resp (\<lambda>r. case r of Inl e \<Rightarrow> k (Inl e)
      | Inr txt \<Rightarrow> throw (g txt) k))" for resp g by simp
  have fetched: "lim (max (1 + a) b) ((if rs_status resp \<noteq> 200 then
       bnd (resp_text resp) (\<lambda>txt. throw (g resp txt)) else ret resp) k)" for resp g
    by (cases "rs_status resp = 200")
      (simp_all add: bnd_def ret_def lim_mono [OF k(2)] lim_mono [OF body])
  have "lim (max (1 + (1 + a)) (1 + max (1 + a) b)) (base_fetch rq k)"
    unfolding base_fetch_def bnd_def [of "fetch_global rq"]
    by (rule costsD [OF costs_promises(1)]; simp only: sum.case)
      (rule lim_mono [OF k(1)], simp, rule fetched)
  then show "lim (max (2 + a) (1 + b)) (base_fetch rq k)"
    by (rule lim_mono) auto
qed

lemma costs_checkInputs [costs_rules]: "costs 0 0 (checkInputs ts)"
proof -
  have "costs 0 0 (the_targets us)" for us
  proof (induction us)
    case (Cons u us)
    from costs_seq [OF costs_page(3) Cons] show ?case by simp
  qed (simp add: costs_ret)
  moreover have "costs 0 0 (check_loop us)" for us
  proof (induction us)
    case (Cons u us)
    have "costs 0 0 (check_loop (u # us))"
      unfolding check_loop.simps
      by (rule costs_weaken, (rule costs_rules Cons)+, simp_all)
    then show ?case .
  qed (simp add: costs_ret)
  ultimately show ?thesis
    unfolding checkInputs_def by (metis costs_seq add_0 max.idem)
qed

section \<open>The handlers\<close>

lemma lim_routing_update: "lim 5 (run_js routing_update)"
  unfolding routing_update_def routing_table_def routing_graph_def
  by (rule lim_mono, rule lim_run_js, (rule costs_rules)+, simp)

lemma lim_catalog_update: "lim 2 (run_js catalog_update)"
  unfolding catalog_update_def
  by (rule lim_mono, rule lim_run_js, (rule costs_rules)+, simp)

lemma lim_posting:
  "lim 2 (run_js (unicast_send br))" "lim 2 (run_js broadcast_sendChat)" "lim 2 (run_js broadcast_sendPrivate)"
  "lim 2 (run_js search_searchAll)" "lim 2 (run_js search_searchFirst)" "lim 2 (run_js naming_tag)"
  unfolding unicast_send_def broadcast_sendChat_def broadcast_sendPrivate_def search_searchAll_def
    search_searchFirst_def naming_tag_def Let_def
  by (rule lim_mono, rule lim_run_js, (rule costs_rules)+, simp)+

lemma lim_reading:
  "lim 2 (run_js (peerInfo_initialize br))" "lim 2 (run_js dataSharing_download)" "lim 2 (run_js naming_resolve)"
  "lim 3 (run_js dataSharing_upload)"
  unfolding peerInfo_initialize_def dataSharing_download_def triggerDownload_def naming_resolve_def
    dataSharing_upload_def read_file_def upload_loaded_def Let_def
  by (rule lim_mono, rule lim_run_js, (rule costs_rules)+, simp)+

lemma lim_updating:
  "lim 6 (run_js routing_addPeer)" "lim 6 (run_js routing_setEntry)" "lim 3 (run_js catalog_add)"
  unfolding routing_addPeer_def routing_setEntry_def catalog_add_def Let_def
  by (rule lim_mono, rule lim_run_js,
      (rule costs_rules costs_spawn [OF lim_routing_update] costs_spawn [OF lim_catalog_update])+, simp)+

lemma lim_notified:
  "lim 0 (run_js packets_initialize)" "lim 0 (run_js (packetMessage br data))" "lim 0 (run_js packetError)"
  "lim 0 (run_js packetsScroll)" "lim 0 (run_js (upload_progress a b))"
  unfolding packets_initialize_def packetMessage_def packet_chat_def packetError_def packetsScroll_def
    upload_progress_def Let_def
  by (rule lim_mono, rule lim_run_js, (rule costs_rules)+, simp)+

lemmas lim_handlers = lim_routing_update lim_catalog_update lim_posting lim_reading lim_updating lim_notified

lemma lim_handler: "lim 6 (run_js (handler_code br h))"
  by (cases h) (auto intro: lim_mono lim_handlers)

section \<open>Worlds\<close>

definition takes_effect :: "world \<Rightarrow> event \<Rightarrow> bool" where
  "takes_effect w ev \<longleftrightarrow>
     (case ev of
        Settle i r \<Rightarrow> i < length (w_pending w) \<and> fits (awaited (w_pending w ! i)) r
      | _ \<Rightarrow> False)"

text \<open>The number of awaits that a run settles, and of handlers that it calls.\<close>

fun settled :: "browser \<Rightarrow> event list \<Rightarrow> world \<Rightarrow> nat" where
  "settled br [] w = 0"
| "settled br (ev # evs) w = (if takes_effect w ev then 1 else 0) + settled br evs (step br ev w)"

fun calls :: "event list \<Rightarrow> nat" where
  "calls [] = 0"
| "calls (Call h # evs) = Suc (calls evs)"
| "calls (_ # evs) = calls evs"

definition bounded :: "nat \<Rightarrow> world \<Rightarrow> bool" where
  "bounded n w \<longleftrightarrow> (\<exists>ns. list_all2 within ns (w_pending w) \<and> sum_list ns \<le> n)"

lemma bounded_pending: "bounded n w \<Longrightarrow> length (w_pending w) \<le> n"
proof -
  have "list_all2 within ns qs \<Longrightarrow> length qs \<le> sum_list ns" for ns qs
    by (induction rule: list_all2_induct) (auto dest: within_pos)
  then show "bounded n w \<Longrightarrow> length (w_pending w) \<le> n"
    unfolding bounded_def by (meson le_trans)
qed

lemma bounded_call: "bounded n w \<Longrightarrow> bounded (n + 6) (step br (Call h) w)"
proof -
  assume "bounded n w"
  then obtain ns where ns: "list_all2 within ns (w_pending w)" "sum_list ns \<le> n"
    by (auto simp: bounded_def)
  obtain ps p where r: "run_js (handler_code br h) (w_page w) = (ps, p)"
    by (cases "run_js (handler_code br h) (w_page w)")
  obtain ms where ms: "list_all2 within ms ps" "sum_list ms \<le> 6"
    using lim_handler [of br h] r unfolding lim_def by (metis fst_conv)
  from ns(1) ms(1) have "list_all2 within (ns @ ms) (w_pending w @ ps)" by (rule list_all2_appendI)
  with ns(2) ms(2) show ?thesis
    by (auto simp: bounded_def r intro!: exI [of _ "ns @ ms"])
qed

lemma bounded_settle:
  assumes "bounded n w" and "takes_effect w (Settle i r)"
  shows "0 < n \<and> bounded (n - 1) (step br (Settle i r) w)"
proof -
  have i: "i < length (w_pending w)" "fits (awaited (w_pending w ! i)) r"
    using assms(2) by (auto simp: takes_effect_def)
  obtain ns where ns: "list_all2 within ns (w_pending w)" "sum_list ns \<le> n"
    using assms(1) by (auto simp: bounded_def)
  note rm = list_all2_remove [OF ns(1) i(1)]
  obtain ps p where s: "resume (w_pending w ! i) r (w_page w) = (ps, p)"
    by (cases "resume (w_pending w ! i) r (w_page w)")
  have pos: "0 < ns ! i" and "lim (ns ! i - 1) (resume (w_pending w ! i) r)"
    using rm(2) i(2) by (simp_all add: within_iff)
  then obtain ms where ms: "list_all2 within ms ps" "sum_list ms \<le> ns ! i - 1"
    using s unfolding lim_def by (metis fst_conv)
  have "list_all2 within ((take i ns @ drop (Suc i) ns) @ ms)
      ((take i (w_pending w) @ drop (Suc i) (w_pending w)) @ ps)"
    using rm(1) ms(1) by (rule list_all2_appendI)
  moreover have "sum_list ((take i ns @ drop (Suc i) ns) @ ms) \<le> n - 1"
    using ms(2) rm(3) pos ns(2) by simp
  moreover have "0 < n" using rm(3) pos ns(2) by linarith
  ultimately show ?thesis
    using i by (simp add: bounded_def s del: sum_list_append) blast
qed

lemma bounded_run: "bounded n w \<Longrightarrow>
   settled br evs w \<le> n + 6 * calls evs \<and> bounded (n + 6 * calls evs - settled br evs w) (run br evs w)"
proof (induction evs arbitrary: n w)
  case (Cons ev evs)
  consider (call) h where "ev = Call h" | (settle) i r where "ev = Settle i r" "takes_effect w ev"
    | (idle) "\<not> takes_effect w ev" "\<forall>h. ev \<noteq> Call h"
    by (cases ev) (auto simp: takes_effect_def)
  then show ?case
  proof cases
    case (call h)
    with Cons.IH [OF bounded_call [OF Cons.prems, of br h]] show ?thesis
      by (simp add: takes_effect_def run_def add.assoc del: step.simps)
  next
    case (settle i r)
    from bounded_settle [OF Cons.prems settle(2) [unfolded settle(1)], of br]
    have n: "0 < n" "bounded (n - 1) (step br ev w)" by (simp_all only: settle(1))
    have "calls (ev # evs) = calls evs" by (simp add: settle(1))
    with Cons.IH [OF n(2)] n(1) settle(2) show ?thesis by (simp add: run_def algebra_simps) linarith
  next
    case idle
    then have p: "w_pending (step br ev w) = w_pending w" and c: "calls (ev # evs) = calls evs"
      by (cases ev; auto simp: takes_effect_def)+
    then have "bounded n (step br ev w)" using Cons.prems by (simp add: bounded_def)
    from Cons.IH [OF this] idle c show ?thesis by (simp add: run_def)
  qed
qed (simp add: run_def)

section \<open>Properties\<close>

text \<open>
  C9. Every action ends. In any run of the page, however its calls and the settling of the
  awaits interleave and whatever they settle with, at most six awaits per called handler
  are ever settled, those still pending included: no handler waits for ever for new
  promises, and a page left alone becomes idle after that many settlings.
\<close>

theorem handlers_terminate:
  "settled br evs \<lparr>w_page = p, w_pending = []\<rparr> +
     length (w_pending (run br evs \<lparr>w_page = p, w_pending = []\<rparr>)) \<le> 6 * calls evs"
proof -
  let ?w = "\<lparr>w_page = p, w_pending = []\<rparr>"
  have "bounded 0 ?w" by (simp add: bounded_def)
  from bounded_run [OF this, where br = br and evs = evs]
  have s: "settled br evs ?w \<le> 6 * calls evs"
    and b: "bounded (6 * calls evs - settled br evs ?w) (run br evs ?w)" by simp_all
  from bounded_pending [OF b] s show ?thesis by linarith
qed

end
