(* ===== verification/Viz.thy ===== *)
theory Viz
  imports Js_Json Complex_Main
begin

text \<open>
  viz.js, the client of the Graphviz renderer that main.js uses: the worker wrapper with its
  table of listeners, the module wrapper, the choice between them in the constructor, the
  options of the four render methods and the conversion of SVG text into images. The
  renderer itself, the fabric library, the worker and the image decoder of the browser
  are parameters or events. An array that the caller passes in the options lives in a store
  and is shared with the caller. Sizes are computed with exact rational numbers.
\<close>

section \<open>Promises\<close>

datatype 'r promise = Waiting | Resolved 'r | Rejected js_error

text \<open>The first call of \<open>resolve\<close> or \<open>reject\<close> counts, later ones have no effect.\<close>

definition settle :: "'r promise \<Rightarrow> 'r promise \<Rightarrow> 'r promise" where
  "settle outcome p = (case p of Waiting \<Rightarrow> outcome | _ \<Rightarrow> p)"

text \<open>\<open>promise.then(f)\<close>, where \<open>f\<close> may throw.\<close>

fun then_promise :: "'r promise \<Rightarrow> ('r \<Rightarrow> js_error + 's) \<Rightarrow> 's promise" where
  "then_promise Waiting f = Waiting"
| "then_promise (Rejected e) f = Rejected e"
| "then_promise (Resolved x) f = (case f x of Inl e \<Rightarrow> Rejected e | Inr y \<Rightarrow> Resolved y)"

section \<open>WorkerWrapper\<close>

text \<open>
  A listener is a closure over the \<open>resolve\<close> and \<open>reject\<close> of its promise, here the number
  of the promise in the order of creation.
\<close>

record 'q wrapper =
  ww_listeners :: "(nat, nat) jsmap"
  ww_nextId :: nat
  ww_posted :: "(nat \<times> 'q) list"
  ww_promises :: "jsstr promise list"
  ww_uncaught :: "js_error list"

definition new_wrapper :: "'q wrapper" where
  "new_wrapper = \<lparr>ww_listeners = [], ww_nextId = 0, ww_posted = [], ww_promises = [], ww_uncaught = []\<rparr>"

definition worker_render :: "'q \<Rightarrow> 'q wrapper \<Rightarrow> 'q wrapper" where
  "worker_render q w =
     (let i = ww_nextId w in
      w\<lparr>ww_nextId := Suc i,
        ww_listeners := map_set i (length (ww_promises w)) (ww_listeners w),
        ww_promises := ww_promises w @ [Waiting],
        ww_posted := ww_posted w @ [(i, q)]\<rparr>)"

text \<open>What a listener does with the error message, if any, and the result.\<close>

definition listener_outcome :: "jsstr option \<Rightarrow> jsstr \<Rightarrow> jsstr promise" where
  "listener_outcome error result =
     (case error of Some message \<Rightarrow> Rejected (ErrorObject ''Error'' message) | None \<Rightarrow> Resolved result)"

definition not_a_function :: js_error where
  "not_a_function = ErrorObject ''TypeError'' ''listener is not a function''"

definition worker_message :: "nat \<Rightarrow> jsstr option \<Rightarrow> jsstr \<Rightarrow> 'q wrapper \<Rightarrow> 'q wrapper" where
  "worker_message i error result w =
     (case map_get (ww_listeners w) i of
        None \<Rightarrow> w\<lparr>ww_uncaught := ww_uncaught w @ [not_a_function]\<rparr>
      | Some n \<Rightarrow>
          w\<lparr>ww_promises := (ww_promises w)[n := settle (listener_outcome error result) (ww_promises w ! n)],
            ww_listeners := map_delete i (ww_listeners w)\<rparr>)"

datatype 'q worker_event =
    Render 'q
  | Message nat "jsstr option" jsstr

fun worker_step :: "'q worker_event \<Rightarrow> 'q wrapper \<Rightarrow> 'q wrapper" where
  "worker_step (Render q) w = worker_render q w"
| "worker_step (Message i error result) w = worker_message i error result w"

section \<open>The contract of the worker wrapper\<close>

text \<open>
  The \<open>i\<close>-th call of \<open>render\<close> is answered by the first message with number \<open>i\<close> that comes
  after it; \<open>n\<close> is the number of calls so far.
\<close>

fun first_reply :: "nat \<Rightarrow> nat \<Rightarrow> 'q worker_event list \<Rightarrow> jsstr promise" where
  "first_reply n i [] = Waiting"
| "first_reply n i (Render q # evs) = first_reply (Suc n) i evs"
| "first_reply n i (Message j error result # evs) =
     (if j = i \<and> i < n then listener_outcome error result else first_reply n i evs)"

fun rendered :: "'q worker_event list \<Rightarrow> 'q list" where
  "rendered [] = []"
| "rendered (Render q # evs) = q # rendered evs"
| "rendered (Message _ _ _ # evs) = rendered evs"

definition wrapper_ok :: "'q wrapper \<Rightarrow> bool" where
  "wrapper_ok w \<longleftrightarrow> length (ww_promises w) = ww_nextId w \<and>
     (\<forall>i. map_get (ww_listeners w) i =
        (if i < ww_nextId w \<and> ww_promises w ! i = Waiting then Some i else None))"

lemma listener_outcome_settled [simp]: "listener_outcome error result \<noteq> Waiting"
  by (simp add: listener_outcome_def split: option.splits)

lemma wrapper_ok_new [simp]: "wrapper_ok new_wrapper"
  by (simp add: wrapper_ok_def new_wrapper_def)

lemma wrapper_ok_step: "wrapper_ok w \<Longrightarrow> wrapper_ok (worker_step ev w)"
proof (cases ev)
  case (Render q)
  assume "wrapper_ok w"
  then show ?thesis
    by (auto simp: Render wrapper_ok_def worker_render_def Let_def nth_append less_Suc_eq)
next
  case (Message i error result)
  assume ok: "wrapper_ok w"
  show ?thesis
  proof (cases "i < ww_nextId w \<and> ww_promises w ! i = Waiting")
    case True
    with ok show ?thesis
      by (auto simp: Message wrapper_ok_def worker_message_def settle_def nth_list_update)
  next
    case False
    then have "map_get (ww_listeners w) i = None" using ok unfolding wrapper_ok_def by simp
    with ok show ?thesis by (simp add: Message wrapper_ok_def worker_message_def)
  qed
qed

lemma wrapper_promises:
  "wrapper_ok w \<Longrightarrow> i < length (ww_promises w) \<Longrightarrow>
   ww_promises (fold worker_step evs w) ! i =
     (if ww_promises w ! i = Waiting then first_reply (ww_nextId w) i evs else ww_promises w ! i)"
proof (induction evs arbitrary: w)
  case (Cons ev evs)
  note ok = Cons.prems(1)
  have len: "length (ww_promises w) = ww_nextId w" using ok by (simp add: wrapper_ok_def)
  show ?case
  proof (cases ev)
    case (Render q)
    have "i < length (ww_promises (worker_step ev w))"
      using Cons.prems(2) by (simp add: Render worker_render_def Let_def)
    from Cons.IH [OF wrapper_ok_step [OF ok] this] Cons.prems(2) show ?thesis
      by (simp add: Render worker_render_def Let_def nth_append)
  next
    case (Message j error result)
    have "i < length (ww_promises (worker_step ev w))"
      using Cons.prems(2) by (simp add: Message worker_message_def split: option.splits)
    note IH = Cons.IH [OF wrapper_ok_step [OF ok] this]
    have "map_get (ww_listeners w) j =
        (if j < ww_nextId w \<and> ww_promises w ! j = Waiting then Some j else None)"
      using ok by (simp add: wrapper_ok_def)
    with IH Cons.prems(2) len show ?thesis
      by (auto simp: Message worker_message_def settle_def nth_list_update split: if_splits)
  qed
qed simp

lemma wrapper_lengths:
  "wrapper_ok w \<Longrightarrow> wrapper_ok (fold worker_step evs w) \<and>
   ww_nextId (fold worker_step evs w) = ww_nextId w + length (rendered evs) \<and>
   ww_posted (fold worker_step evs w) = ww_posted w @ enumerate (ww_nextId w) (rendered evs)"
proof (induction evs arbitrary: w)
  case (Cons ev evs)
  from Cons.IH [OF wrapper_ok_step [OF Cons.prems, of ev]] show ?case
    by (cases ev) (simp_all add: worker_render_def worker_message_def Let_def split: option.splits)
qed simp

text \<open>A promise made on the way is answered like one of the start.\<close>

lemma wrapper_all_promises:
  "wrapper_ok w \<Longrightarrow> i < ww_nextId w + length (rendered evs) \<Longrightarrow> ww_nextId w \<le> i \<Longrightarrow>
   ww_promises (fold worker_step evs w) ! i = first_reply (ww_nextId w) i evs"
proof (induction evs arbitrary: w)
  case (Cons ev evs)
  note ok = wrapper_ok_step [OF Cons.prems(1), of ev]
  show ?case
  proof (cases ev)
    case (Render q)
    have next_id: "ww_nextId (worker_step ev w) = Suc (ww_nextId w)"
      by (simp add: Render worker_render_def Let_def)
    show ?thesis
    proof (cases "i = ww_nextId w")
      case True
      with Cons.prems(1) have "ww_promises (worker_step ev w) ! i = Waiting"
          "i < length (ww_promises (worker_step ev w))"
        by (simp_all add: Render worker_render_def Let_def nth_append wrapper_ok_def)
      with wrapper_promises [OF ok, of i evs] next_id show ?thesis by (simp add: Render)
    next
      case False
      with Cons.IH [OF ok] Cons.prems(2,3) next_id show ?thesis by (simp add: Render)
    qed
  next
    case (Message j error result)
    have "ww_nextId (worker_step ev w) = ww_nextId w"
      by (simp add: Message worker_message_def split: option.splits)
    with Cons.IH [OF ok] Cons.prems(2,3) show ?thesis by (simp add: Message)
  qed
qed simp

section \<open>ModuleWrapper and the constructor\<close>

text \<open>\<open>render\<close> of the module runs at once; what it throws rejects the promise.\<close>

definition module_render :: "('i \<Rightarrow> 'q \<Rightarrow> js_error + jsstr) \<Rightarrow> 'i \<Rightarrow> 'q \<Rightarrow> jsstr promise" where
  "module_render render inst q = (case render inst q of Inl e \<Rightarrow> Rejected e | Inr s \<Rightarrow> Resolved s)"

record ('w, 'm, 'f) viz_config =
  vc_workerURL :: "jsstr option"
  vc_worker :: "'w option"
  vc_Module :: "'m option"
  vc_render :: "'f option"

datatype ('w, 'm, 'f) wrapper_choice =
    NewWorker jsstr
  | GivenWorker 'w
  | ModuleFunctions 'm 'f

definition missing_renderer :: js_error where
  "missing_renderer = ErrorObject ''Error''
     ''Must specify workerURL or worker option, Module and render options, or include one of full.render.js or lite.render.js after viz.js.''"

text \<open>\<open>static_Module\<close> and \<open>static_render\<close> are the properties \<open>Viz.Module\<close> and \<open>Viz.render\<close>.\<close>

definition viz_constructor ::
  "'m option \<Rightarrow> 'f option \<Rightarrow> ('w, 'm, 'f) viz_config \<Rightarrow> js_error + ('w, 'm, 'f) wrapper_choice" where
  "viz_constructor static_Module static_render c =
     (case vc_workerURL c of
        Some url \<Rightarrow> Inr (NewWorker url)
      | None \<Rightarrow>
          (case vc_worker c of
             Some worker \<Rightarrow> Inr (GivenWorker worker)
           | None \<Rightarrow>
               (case (vc_Module c, vc_render c) of
                  (Some m, Some f) \<Rightarrow> Inr (ModuleFunctions m f)
                | _ \<Rightarrow>
                    (case (static_Module, static_render) of
                       (Some m, Some f) \<Rightarrow> Inr (ModuleFunctions m f)
                     | _ \<Rightarrow> Inl missing_renderer))))"

section \<open>Properties of the wrapper\<close>

text \<open>
  C18. The worker wrapper keeps its calls apart. In every interleaving of calls of \<open>render\<close>
  and messages of the worker, the calls are posted with consecutive numbers in order, each
  has one promise, and that promise has the outcome of the first message with its number
  that comes after the call, later and foreign messages having no effect on it; the
  listeners that remain are those of the calls not answered yet.
\<close>

theorem worker_replies_refine_spec:
  "ww_posted (fold worker_step evs new_wrapper) = enumerate 0 (rendered evs) \<and>
   ww_promises (fold worker_step evs new_wrapper) =
     map (\<lambda>i. first_reply 0 i evs) [0..<length (rendered evs)] \<and>
   (\<forall>i. map_get (ww_listeners (fold worker_step evs new_wrapper)) i =
     (if i < length (rendered evs) \<and> first_reply 0 i evs = Waiting then Some i else None))"
proof -
  let ?w = "fold worker_step evs (new_wrapper :: 'a wrapper)"
  have l: "wrapper_ok ?w" "ww_nextId ?w = length (rendered evs)" "ww_posted ?w = enumerate 0 (rendered evs)"
    using wrapper_lengths [OF wrapper_ok_new, of evs] by (simp_all add: new_wrapper_def)
  have p: "ww_promises ?w ! i = first_reply 0 i evs" if "i < length (rendered evs)" for i
    using wrapper_all_promises [OF wrapper_ok_new, of i evs] that by (simp add: new_wrapper_def)
  have "ww_promises ?w = map (\<lambda>i. first_reply 0 i evs) [0..<length (rendered evs)]"
    by (rule nth_equalityI) (use l p in \<open>simp_all add: wrapper_ok_def\<close>)
  with l p show ?thesis by (auto simp: wrapper_ok_def)
qed

end
