(* ===== verification/Viz_Base64.thy ===== *)
theory Viz_Base64
  imports Js_Json "HOL-Library.Word"
begin

text \<open>
  \<open>b64EncodeUnicode\<close> of viz.js, which makes the data URL of an SVG text: strings are lists of
  16-bit code units here, so that the text may have any character. \<open>encodeURIComponent\<close> joins
  pairs of surrogates, writes the UTF-8 bytes of what is not unreserved as escapes, and throws
  for a surrogate without its partner; the escapes become bytes again for \<open>btoa\<close>.
\<close>

section \<open>Code units\<close>

type_synonym unit_string = "16 word list"

text \<open>A string of characters with codes 0 to 255 as code units.\<close>

definition char_units :: "jsstr \<Rightarrow> unit_string" where
  "char_units = map (\<lambda>c. word_of_nat (code c))"

definition is_high :: "16 word \<Rightarrow> bool" where
  "is_high u \<longleftrightarrow> 0xD800 \<le> unat u \<and> unat u < 0xDC00"

definition is_low :: "16 word \<Rightarrow> bool" where
  "is_low u \<longleftrightarrow> 0xDC00 \<le> unat u \<and> unat u < 0xE000"

definition join_surrogates :: "16 word \<Rightarrow> 16 word \<Rightarrow> nat" where
  "join_surrogates h l = (unat h - 0xD800) * 0x400 + (unat l - 0xDC00) + 0x10000"

section \<open>encodeURIComponent\<close>

definition hex_upper :: "nat \<Rightarrow> char" where
  "hex_upper n = (if n < 10 then chr (48 + n) else chr (55 + n))"

definition is_hex_upper :: "char \<Rightarrow> bool" where
  "is_hex_upper c \<longleftrightarrow> is_digit c \<or> (65 \<le> code c \<and> code c \<le> 70)"

definition hex_upper_value :: "char \<Rightarrow> nat" where
  "hex_upper_value c = (if is_digit c then code c - 48 else code c - 55)"

definition utf8 :: "nat \<Rightarrow> nat list" where
  "utf8 v =
     (if v < 0x80 then [v]
      else if v < 0x800 then [0xC0 + v div 64, 0x80 + v mod 64]
      else if v < 0x10000 then [0xE0 + v div 4096, 0x80 + v div 64 mod 64, 0x80 + v mod 64]
      else [0xF0 + v div 262144, 0x80 + v div 4096 mod 64, 0x80 + v div 64 mod 64, 0x80 + v mod 64])"

definition percent :: "nat \<Rightarrow> jsstr" where
  "percent b = [chr 37, hex_upper (b div 16), hex_upper (b mod 16)]"

definition escaped :: "nat \<Rightarrow> jsstr" where
  "escaped v = concat (map percent (utf8 v))"

definition unreserved :: "16 word \<Rightarrow> bool" where
  "unreserved u \<longleftrightarrow> unat u < 128 \<and>
     (let c = chr (unat u) in is_digit c \<or> is_upper c \<or> is_lower c \<or> unat u \<in> {45, 95, 46, 33, 126, 42, 39, 40, 41})"

definition uri_error :: js_error where
  "uri_error = ErrorObject ''URIError'' ''URI malformed''"

fun encodeURIComponent :: "unit_string \<Rightarrow> js_error + jsstr" where
  "encodeURIComponent [] = Inr []"
| "encodeURIComponent (c # s) =
     (if unreserved c then map_sum id (Cons (chr (unat c))) (encodeURIComponent s)
      else if is_low c then Inl uri_error
      else if is_high c then
        (case s of
           d # s' \<Rightarrow>
             if is_low d then map_sum id ((@) (escaped (join_surrogates c d))) (encodeURIComponent s')
             else Inl uri_error
         | [] \<Rightarrow> Inl uri_error)
      else map_sum id ((@) (escaped (unat c))) (encodeURIComponent s))"

section \<open>b64EncodeUnicode\<close>

text \<open>\<open>s.replace(/%([0-9A-F]{2})/g, ...)\<close> with the character of the hexadecimal code.\<close>

fun replace_percent :: "jsstr \<Rightarrow> jsstr" where
  "replace_percent (c # h # l # s) =
     (if code c = 37 \<and> is_hex_upper h \<and> is_hex_upper l
      then chr (16 * hex_upper_value h + hex_upper_value l) # replace_percent s
      else c # replace_percent (h # l # s))"
| "replace_percent s = s"

definition base64_digit :: "nat \<Rightarrow> char" where
  "base64_digit n =
     (if n < 26 then chr (65 + n) else if n < 52 then chr (71 + n) else if n < 62 then chr (n - 4)
      else if n = 62 then chr 43 else chr 47)"

fun btoa :: "jsstr \<Rightarrow> jsstr" where
  "btoa [] = []"
| "btoa [a] = [base64_digit (code a div 4), base64_digit (code a mod 4 * 16), chr 61, chr 61]"
| "btoa [a, b] =
     [base64_digit (code a div 4), base64_digit (code a mod 4 * 16 + code b div 16),
      base64_digit (code b mod 16 * 4), chr 61]"
| "btoa (a # b # c # s) =
     base64_digit (code a div 4) # base64_digit (code a mod 4 * 16 + code b div 16) #
     base64_digit (code b mod 16 * 4 + code c div 64) # base64_digit (code c mod 64) # btoa s"

definition b64EncodeUnicode :: "unit_string \<Rightarrow> js_error + jsstr" where
  "b64EncodeUnicode str = map_sum id (btoa \<circ> replace_percent) (encodeURIComponent str)"

section \<open>Decoding\<close>

text \<open>The decoder of a data URL: base64 to bytes, and UTF-8, in shortest form only, to code units.\<close>

definition base64_value :: "char \<Rightarrow> nat" where
  "base64_value c =
     (if is_upper c then code c - 65 else if is_lower c then code c - 71 else if is_digit c then code c + 4
      else if code c = 43 then 62 else 63)"

fun atob :: "jsstr \<Rightarrow> nat list" where
  "atob (a # b # c # d # s) =
     (if code c = 61 then [base64_value a * 4 + base64_value b div 16]
      else if code d = 61 then
        [base64_value a * 4 + base64_value b div 16, base64_value b mod 16 * 16 + base64_value c div 4]
      else [base64_value a * 4 + base64_value b div 16, base64_value b mod 16 * 16 + base64_value c div 4,
            base64_value c mod 4 * 64 + base64_value d] @ atob s)"
| "atob _ = []"

definition continues :: "nat \<Rightarrow> bool" where
  "continues b \<longleftrightarrow> 0x80 \<le> b \<and> b < 0xC0"

definition units_of :: "nat \<Rightarrow> unit_string" where
  "units_of v =
     (if v < 0x10000 then [word_of_nat v]
      else [word_of_nat (0xD800 + (v - 0x10000) div 0x400), word_of_nat (0xDC00 + (v - 0x10000) mod 0x400)])"

definition scalar :: "nat \<Rightarrow> bool" where
  "scalar v \<longleftrightarrow> v < 0xD800 \<or> (0xE000 \<le> v \<and> v < 0x110000)"

fun utf8_decode :: "nat list \<Rightarrow> unit_string option" where
  "utf8_decode [] = Some []"
| "utf8_decode (b # bs) =
     (if b < 0x80 then map_option ((@) (units_of b)) (utf8_decode bs)
      else if b < 0xE0 then
        (case bs of
           b1 # bs' \<Rightarrow>
             let v = (b - 0xC0) * 64 + (b1 - 0x80) in
             if 0xC0 \<le> b \<and> continues b1 \<and> 0x80 \<le> v
             then map_option ((@) (units_of v)) (utf8_decode bs') else None
         | _ \<Rightarrow> None)
      else if b < 0xF0 then
        (case bs of
           b1 # b2 # bs' \<Rightarrow>
             let v = (b - 0xE0) * 4096 + (b1 - 0x80) * 64 + (b2 - 0x80) in
             if continues b1 \<and> continues b2 \<and> 0x800 \<le> v \<and> scalar v
             then map_option ((@) (units_of v)) (utf8_decode bs') else None
         | _ \<Rightarrow> None)
      else
        (case bs of
           b1 # b2 # b3 # bs' \<Rightarrow>
             let v = (b - 0xF0) * 262144 + (b1 - 0x80) * 4096 + (b2 - 0x80) * 64 + (b3 - 0x80) in
             if continues b1 \<and> continues b2 \<and> continues b3 \<and> 0x10000 \<le> v \<and> scalar v
             then map_option ((@) (units_of v)) (utf8_decode bs') else None
         | _ \<Rightarrow> None))"

text \<open>Every high surrogate comes right before a low one, and every low one right after a high one.\<close>

definition well_paired :: "unit_string \<Rightarrow> bool" where
  "well_paired s \<longleftrightarrow>
     (\<forall>i < length s. (is_high (s ! i) \<longrightarrow> Suc i < length s \<and> is_low (s ! Suc i)) \<and>
        (is_low (s ! i) \<longrightarrow> 0 < i \<and> is_high (s ! (i - 1))))"

lemma code_less: "code c < 256"
  by (simp add: code_def)

lemma hex_upper_value [simp]: "n < 16 \<Longrightarrow> hex_upper_value (hex_upper n) = n"
  and is_hex_upper [simp]: "n < 16 \<Longrightarrow> is_hex_upper (hex_upper n)"
  by (auto simp: hex_upper_value_def hex_upper_def is_hex_upper_def is_digit_def)

lemma replace_percent_percent: "b < 256 \<Longrightarrow> replace_percent (percent b @ s) = chr b # replace_percent s"
  by (simp add: percent_def mult_div_mod_eq)

lemma replace_percent_other: "code c \<noteq> 37 \<Longrightarrow> replace_percent (c # s) = c # replace_percent s"
  by (cases s rule: replace_percent.cases) auto

lemma utf8_bytes: "v < 0x110000 \<Longrightarrow> b \<in> set (utf8 v) \<Longrightarrow> b < 256"
  by (auto simp: utf8_def split: if_splits)

lemma replace_percent_bytes:
  "\<forall>b \<in> set bs. b < 256 \<Longrightarrow>
   replace_percent (concat (map percent bs) @ s) = map chr bs @ replace_percent s"
  by (induction bs) (simp_all add: replace_percent_percent)

lemma replace_percent_escaped:
  "v < 0x110000 \<Longrightarrow> replace_percent (escaped v @ s) = map chr (utf8 v) @ replace_percent s"
  unfolding escaped_def using utf8_bytes by (intro replace_percent_bytes) blast

lemma base64_value_digit [simp]: "n < 64 \<Longrightarrow> base64_value (base64_digit n) = n"
  by (auto simp: base64_value_def base64_digit_def is_upper_def is_lower_def is_digit_def)

lemma base64_digit_not_pad [simp]: "n < 64 \<Longrightarrow> code (base64_digit n) \<noteq> 61"
  by (auto simp: base64_digit_def)

lemma atob_btoa: "atob (btoa s) = map code s"
proof (induction s rule: btoa.induct)
  case (2 a)
  then show ?case using code_less [of a] by simp
next
  case (3 a b)
  then show ?case using code_less [of a] code_less [of b] by simp
next
  case (4 a b c s)
  then show ?case using code_less [of a] code_less [of b] code_less [of c] by simp
qed simp

lemma split3: "v = v div 4096 * 4096 + v div 64 mod 64 * 64 + v mod (64::nat)"
proof -
  have "v = v div 64 * 64 + v mod 64" "v div 64 = v div 64 div 64 * 64 + v div 64 mod 64" by (rule div_mult_mod_eq [symmetric])+
  moreover have "v div 64 div 64 = v div 4096" by (simp add: div_mult2_eq [symmetric])
  ultimately show ?thesis by linarith
qed

lemma split4: "v = v div 262144 * 262144 + v div 4096 mod 64 * 4096 + v div 64 mod 64 * 64 + v mod (64::nat)"
proof -
  have "v div 4096 = v div 4096 div 64 * 64 + v div 4096 mod 64" by (rule div_mult_mod_eq [symmetric])
  moreover have "v div 4096 div 64 = v div 262144" by (simp add: div_mult2_eq [symmetric])
  ultimately show ?thesis using split3 [of v] by linarith
qed

lemma utf8_decode_one:
  assumes "scalar v"
  shows "utf8_decode (utf8 v @ bs) = map_option ((@) (units_of v)) (utf8_decode bs)"
proof -
  consider "v < 0x80" | "0x80 \<le> v" "v < 0x800" | "0x800 \<le> v" "v < 0x10000" | "0x10000 \<le> v" "v < 0x110000"
    using assms by (fastforce simp: scalar_def)
  then show ?thesis
  proof cases
    case 2
    have "v div 64 < 32" using 2 by (simp add: less_mult_imp_div_less)
    moreover have "2 \<le> v div 64" using 2 div_le_mono [of 128 v 64] by simp
    ultimately show ?thesis using 2 by (simp add: utf8_def continues_def Let_def not_less)
  next
    case 3
    have "v div 4096 < 16" using 3 by (simp add: less_mult_imp_div_less)
    with 3 assms split3 [of v, symmetric] show ?thesis by (simp add: utf8_def continues_def Let_def)
  next
    case 4
    with assms split4 [of v, symmetric] show ?thesis by (simp add: utf8_def continues_def Let_def)
  qed (simp add: utf8_def)
qed

lemma unat_less: "unat (c :: 16 word) < 0x10000"
  using unsigned_less [of c] by simp

lemma unit_scalar: "\<not> is_low c \<Longrightarrow> \<not> is_high c \<Longrightarrow> scalar (unat c) \<and> units_of (unat c) = [c]"
  using unat_less [of c] by (auto simp: is_low_def is_high_def scalar_def units_of_def)

lemma joined_scalar:
  assumes "is_high h" and "is_low l"
  shows "scalar (join_surrogates h l) \<and> units_of (join_surrogates h l) = [h, l]"
proof -
  define a where "a = unat h - 0xD800"
  define b where "b = unat l - 0xDC00"
  have ab: "a < 0x400" "b < 0x400" and parts: "0xD800 + a = unat h" "0xDC00 + b = unat l"
    using assms by (auto simp: a_def b_def is_high_def is_low_def)
  have j: "join_surrogates h l = a * 0x400 + b + 0x10000" by (simp add: join_surrogates_def a_def b_def)
  have "(a * 0x400 + b) div 0x400 = a" "(a * 0x400 + b) mod 0x400 = b" using ab(2) by simp_all
  then show ?thesis using ab by (simp add: j scalar_def units_of_def parts)
qed

lemma scalar_less: "scalar v \<Longrightarrow> v < 0x110000"
  by (auto simp: scalar_def)

lemma unreserved_plain:
  assumes "unreserved c"
  shows "unat c < 0x80" and "code (chr (unat c)) = unat c" and "unat c \<noteq> 37" and "\<not> is_low c" and "\<not> is_high c"
  using assms by (auto simp: unreserved_def Let_def is_digit_def is_upper_def is_lower_def is_low_def is_high_def)

lemma encoded_decodes:
  "encodeURIComponent s = Inr t \<Longrightarrow> utf8_decode (map code (replace_percent t)) = Some s"
proof (induction s arbitrary: t rule: encodeURIComponent.induct)
  case (2 c s)
  have chars: "map code (map chr (utf8 v)) = utf8 v" if "scalar v" for v
    using utf8_bytes [OF scalar_less [OF that]] by (simp add: map_idI)
  have escaped: "utf8_decode (map code (replace_percent (escaped v @ u))) =
      map_option ((@) (units_of v)) (utf8_decode (map code (replace_percent u)))" if "scalar v" for v u
    using that by (simp add: replace_percent_escaped scalar_less chars utf8_decode_one del: map_map)
  show ?case
  proof (cases "unreserved c")
    case True
    note plain = unreserved_plain [OF True]
    from True "2.prems" obtain u where u: "encodeURIComponent s = Inr u" "t = chr (unat c) # u"
      by (cases "encodeURIComponent s") auto
    with "2.IH"(1) [OF True u(1)] plain unit_scalar [OF plain(4,5)] show ?thesis
      by (simp add: replace_percent_other)
  next
    case False
    show ?thesis
    proof (cases "is_high c")
      case True
      with False "2.prems" obtain d s' where s: "s = d # s'" "is_low d" "\<not> is_low c"
        by (auto split: if_splits list.splits)
      with False True "2.prems" obtain u where u: "encodeURIComponent s' = Inr u" "t = escaped (join_surrogates c d) @ u"
        by (cases "encodeURIComponent s'") auto
      from "2.IH"(2) [OF False s(3) True s(1,2) u(1)] joined_scalar [OF True s(2)] show ?thesis
        by (simp add: s(1) u(2) escaped)
    next
      case low: False
      with False "2.prems" obtain u where u: "encodeURIComponent s = Inr u" "t = escaped (unat c) @ u" "\<not> is_low c"
        by (cases "encodeURIComponent s") (auto split: if_splits)
      with "2.IH"(3) [OF False u(3) low u(1)] unit_scalar [OF u(3) low] show ?thesis
        by (simp add: escaped)
    qed
  qed
qed simp

lemma well_paired_Nil: "well_paired []"
  by (simp add: well_paired_def)

lemma high_not_low: "is_high c \<Longrightarrow> \<not> is_low c"
  by (simp add: is_high_def is_low_def)

lemma well_paired_single:
  assumes "\<not> is_low c" and "\<not> is_high c"
  shows "well_paired (c # s) \<longleftrightarrow> well_paired s"
proof
  assume w: "well_paired (c # s)"
  have "(is_high (s ! i) \<longrightarrow> Suc i < length s \<and> is_low (s ! Suc i)) \<and> (is_low (s ! i) \<longrightarrow> 0 < i \<and> is_high (s ! (i - 1)))"
    if "i < length s" for i
    using w [unfolded well_paired_def, THEN spec [of _ "Suc i"]] that assms by (cases i) simp_all
  then show "well_paired s" by (simp add: well_paired_def)
next
  assume w: "well_paired s"
  have "(is_high ((c # s) ! i) \<longrightarrow> Suc i < length (c # s) \<and> is_low ((c # s) ! Suc i)) \<and>
      (is_low ((c # s) ! i) \<longrightarrow> 0 < i \<and> is_high ((c # s) ! (i - 1)))" if "i < length (c # s)" for i
  proof (cases i)
    case (Suc j)
    with w [unfolded well_paired_def, THEN spec [of _ j]] that show ?thesis by (cases j) auto
  qed (use assms in simp)
  then show "well_paired (c # s)" unfolding well_paired_def by blast
qed

lemma well_paired_pair:
  assumes "is_high c" and "is_low d"
  shows "well_paired (c # d # s) \<longleftrightarrow> well_paired s"
proof
  note apart = high_not_low [OF assms(1)] high_not_low [of d] assms
  {
    assume w: "well_paired (c # d # s)"
    have "(is_high (s ! i) \<longrightarrow> Suc i < length s \<and> is_low (s ! Suc i)) \<and> (is_low (s ! i) \<longrightarrow> 0 < i \<and> is_high (s ! (i - 1)))"
      if "i < length s" for i
      using w [unfolded well_paired_def, THEN spec [of _ "Suc (Suc i)"]] that apart by (cases i) auto
    then show "well_paired s" by (simp add: well_paired_def)
  }
  {
    assume w: "well_paired s"
    have "(is_high ((c # d # s) ! i) \<longrightarrow> Suc i < length (c # d # s) \<and> is_low ((c # d # s) ! Suc i)) \<and>
        (is_low ((c # d # s) ! i) \<longrightarrow> 0 < i \<and> is_high ((c # d # s) ! (i - 1)))" if "i < length (c # d # s)" for i
    proof (cases "i < 2")
      case True
      then have "i = 0 \<or> i = 1" by auto
      with apart show ?thesis by auto
    next
      case False
      then obtain j where "i = Suc (Suc j)" by (metis Suc_1 add_2_eq_Suc le_add_diff_inverse not_less)
      with w [unfolded well_paired_def, THEN spec [of _ j]] that show ?thesis by (cases j) auto
    qed
    then show "well_paired (c # d # s)" unfolding well_paired_def by blast
  }
qed

lemma not_well_paired:
  "is_low c \<Longrightarrow> \<not> well_paired (c # s)" "is_high c \<Longrightarrow> \<not> well_paired [c]"
  "is_high c \<Longrightarrow> \<not> is_low d \<Longrightarrow> \<not> well_paired (c # d # s)"
  by (auto simp: well_paired_def intro: exI [of _ 0])

lemma encode_outcome:
  "if well_paired s then \<exists>t. encodeURIComponent s = Inr t else encodeURIComponent s = Inl uri_error"
proof (induction s rule: encodeURIComponent.induct)
  case (2 c s)
  show ?case
  proof (cases "unreserved c")
    case True
    with "2.IH"(1) unreserved_plain(4,5) [OF True] show ?thesis by (auto simp: well_paired_single split: if_splits)
  next
    case plain: False
    show ?thesis
    proof (cases "is_low c")
      case False
      show ?thesis
      proof (cases "is_high c")
        case True
        show ?thesis
        proof (cases s)
          case Nil
          with plain True False show ?thesis by (simp add: not_well_paired)
        next
          case (Cons d s')
          with "2.IH"(2) [OF plain False True Cons] plain True False show ?thesis
            by (cases "is_low d") (auto simp: well_paired_pair not_well_paired split: if_splits)
        qed
      qed (use plain False "2.IH"(3) in \<open>auto simp: well_paired_single split: if_splits\<close>)
    qed (use plain in \<open>simp add: not_well_paired\<close>)
  qed
qed (simp add: well_paired_Nil)

lemma char_units_paired: "well_paired (char_units s)"
proof -
  have small: "unat (word_of_nat (code c) :: 16 word) < 256" for c
    using code_less [of c] by (simp add: unsigned_of_nat take_bit_eq_mod)
  have "\<not> is_high (word_of_nat (code c)) \<and> \<not> is_low (word_of_nat (code c))" for c
    unfolding is_high_def is_low_def using small [of c] by linarith
  then show ?thesis by (simp add: well_paired_def char_units_def)
qed

lemma char_units_encoded: "\<exists>t. b64EncodeUnicode (char_units s) = Inr t"
  using encode_outcome [of "char_units s"] char_units_paired by (auto simp: b64EncodeUnicode_def)

section \<open>Property\<close>

text \<open>
  C37. The SVG text that goes into a data URL comes out of it, whatever its characters. On every
  string of 16-bit code units whose surrogates are paired, \<open>b64EncodeUnicode\<close> gives a text
  from which base64 and UTF-8 decoding recover the string, with the characters of one to four
  bytes; on every other string it throws the URIError of \<open>encodeURIComponent\<close>.
\<close>

theorem b64_roundtrip:
  "case b64EncodeUnicode str of
     Inr s \<Rightarrow> well_paired str \<and> utf8_decode (atob s) = Some str
   | Inl e \<Rightarrow> \<not> well_paired str \<and> e = uri_error"
  using encode_outcome [of str] encoded_decodes [of str]
  by (cases "encodeURIComponent str") (auto simp: b64EncodeUnicode_def atob_btoa split: if_splits)

end
