(* ===== verification/Viz_Render.thy ===== *)
theory Viz_Render
  imports Viz Viz_Base64
begin

text \<open>
  The render methods of viz.js: the options they complete and pass on, the files and images
  of the caller, and what they make of the rendered text: an SVG element, a JSON value or an
  image.
\<close>

section \<open>Options and the arrays of the caller\<close>

text \<open>
  The value of an option; arrays are addresses in a store. An element of the arrays that
  the methods use is an object with string properties.
\<close>

datatype option_value =
    OUndefined
  | OString jsstr
  | OBool bool
  | ONumber rat
  | OArray nat

type_synonym options = "(jsstr \<times> option_value) list"
type_synonym js_object = "(jsstr \<times> jsstr) list"
type_synonym store = "js_object list list"

definition given :: "jsstr \<Rightarrow> options \<Rightarrow> option_value option" where
  "given key opts = (case map_get opts key of Some OUndefined \<Rightarrow> None | v \<Rightarrow> v)"

definition option_or :: "jsstr \<Rightarrow> option_value \<Rightarrow> options \<Rightarrow> option_value" where
  "option_or key preset opts = (case given key opts of Some v \<Rightarrow> v | None \<Rightarrow> preset)"

text \<open>\<open>Object.assign(target, ...sources)\<close>, here \<open>_extends\<close>.\<close>

fun extends :: "(jsstr \<times> 'v) list \<Rightarrow> (jsstr \<times> 'v) list list \<Rightarrow> (jsstr \<times> 'v) list" where
  "extends target [] = target"
| "extends target (source # sources) =
     extends (fold (\<lambda>(key, v) target. set_prop key v target) source target) sources"

definition prop_text :: "jsstr \<Rightarrow> js_object \<Rightarrow> jsstr" where
  "prop_text key obj = (case map_get obj key of Some s \<Rightarrow> s | None \<Rightarrow> ''undefined'')"

definition dquote :: jsstr where
  "dquote = [chr 34]"

text \<open>The SVG document of a given size that stands for an image.\<close>

definition image_svg :: "js_object \<Rightarrow> jsstr" where
  "image_svg img =
     ''<?xml version='' @ dquote @ ''1.0'' @ dquote @ '' encoding='' @ dquote @ ''UTF-8'' @ dquote @
     '' standalone='' @ dquote @ ''no'' @ dquote @ ''?>'' @ [chr 10] @
     ''<!DOCTYPE svg PUBLIC '' @ dquote @ ''-//W3C//DTD SVG 1.1//EN'' @ dquote @ '' '' @ dquote @
     ''http://www.w3.org/Graphics/SVG/1.1/DTD/svg11.dtd'' @ dquote @ ''>'' @ [chr 10] @
     ''<svg width='' @ dquote @ prop_text ''width'' img @ dquote @
     '' height='' @ dquote @ prop_text ''height'' img @ dquote @ ''></svg>''"

definition image_file :: "js_object \<Rightarrow> js_object" where
  "image_file img =
     (case map_get img ''path'' of Some p \<Rightarrow> [(''path'', p)] | None \<Rightarrow> []) @ [(''data'', image_svg img)]"

record render_request =
  rr_src :: jsstr
  rr_format :: option_value
  rr_engine :: option_value
  rr_files :: "js_object list"
  rr_images :: "js_object list"
  rr_yInvert :: option_value
  rr_nop :: option_value

definition array_at :: "store \<Rightarrow> nat \<Rightarrow> js_object list" where
  "array_at st a = (if a < length st then st ! a else [])"

text \<open>The loop \<open>files.push\<close> over the images.\<close>

fun push_images :: "nat \<Rightarrow> js_object list \<Rightarrow> store \<Rightarrow> store" where
  "push_images a [] st = st"
| "push_images a (img # images) st = push_images a images (st[a := array_at st a @ [image_file img]])"

text \<open>
  \<open>renderString\<close> up to the call of the wrapper. The request holds the contents that the two
  arrays have then: the worker gets a copy, the module renders at once. \<open>files\<close> and
  \<open>images\<close> are arrays or missing, as documented; the arrays of the defaults are new.
\<close>

definition array_option :: "jsstr \<Rightarrow> options \<Rightarrow> store \<Rightarrow> nat \<times> store" where
  "array_option key opts st =
     (case given key opts of Some (OArray a) \<Rightarrow> (a, st) | _ \<Rightarrow> (length st, st @ [[]]))"

definition renderString :: "jsstr \<Rightarrow> options \<Rightarrow> store \<Rightarrow> render_request \<times> store" where
  "renderString src opts st =
     (let (files, st1) = array_option ''files'' opts st;
          (images, st2) = array_option ''images'' opts st1;
          st3 = push_images files (array_at st2 images) st2
      in (\<lparr>rr_src = src,
           rr_format = option_or ''format'' (OString ''svg'') opts,
           rr_engine = option_or ''engine'' (OString ''dot'') opts,
           rr_files = array_at st3 files,
           rr_images = array_at st3 images,
           rr_yInvert = option_or ''yInvert'' (OBool False) opts,
           rr_nop = option_or ''nop'' (ONumber 0) opts\<rparr>, st3))"

definition with_format :: "option_value \<Rightarrow> options \<Rightarrow> options" where
  "with_format format opts = extends [] [opts, [(''format'', format)]]"

definition renderSVG :: "jsstr \<Rightarrow> options \<Rightarrow> store \<Rightarrow> render_request \<times> store" where
  "renderSVG src opts st = renderString src (with_format (OString ''svg'') opts) st"

text \<open>\<open>parse_svg\<close> is \<open>DOMParser\<close> with the type image/svg+xml, \<open>documentElement\<close> included.\<close>

definition svg_element :: "(jsstr \<Rightarrow> 'element) \<Rightarrow> jsstr promise \<Rightarrow> 'element promise" where
  "svg_element parse_svg res = then_promise res (\<lambda>str. Inr (parse_svg str))"

text \<open>The format of \<open>renderJSONObject\<close>: the condition is a disjunction of inequalities.\<close>

definition json_format :: "options \<Rightarrow> option_value" where
  "json_format opts =
     (let format = option_or ''format'' OUndefined opts
      in if format \<noteq> OString ''json'' \<or> format \<noteq> OString ''json0'' then OString ''json'' else format)"

definition renderJSONObject :: "jsstr \<Rightarrow> options \<Rightarrow> store \<Rightarrow> render_request \<times> store" where
  "renderJSONObject src opts st = renderString src (with_format (json_format opts) opts) st"

definition json_object :: "jsstr promise \<Rightarrow> json promise" where
  "json_object res =
     then_promise res (\<lambda>str. case json_parse str of
       Some j \<Rightarrow> Inr j | None \<Rightarrow> Inl (ErrorObject ''SyntaxError'' ''JSON.parse''))"

section \<open>Images\<close>

record image_args =
  ia_scale :: "rat option"
  ia_mimeType :: "jsstr option"
  ia_quality :: "rat option"

definition defaultScale :: "rat option \<Rightarrow> rat" where
  "defaultScale devicePixelRatio = (case devicePixelRatio of Some r \<Rightarrow> if r > 1 then r else 1 | None \<Rightarrow> 1)"

definition the_scale :: "rat option \<Rightarrow> image_args \<Rightarrow> rat" where
  "the_scale dpr args = (case ia_scale args of Some s \<Rightarrow> s | None \<Rightarrow> defaultScale dpr)"

definition the_mimeType :: "image_args \<Rightarrow> jsstr" where
  "the_mimeType args = (case ia_mimeType args of Some m \<Rightarrow> m | None \<Rightarrow> ''image/png'')"

definition the_quality :: "image_args \<Rightarrow> rat" where
  "the_quality args = (case ia_quality args of Some q \<Rightarrow> q | None \<Rightarrow> 1)"

record image_element =
  im_src :: jsstr
  im_width :: nat
  im_height :: nat

text \<open>The conversion through an image element and a canvas, waiting for the browser.\<close>

record image_job =
  ij_src :: jsstr
  ij_loaded :: "(nat \<times> nat) option"
  ij_canvas :: "(nat \<times> nat \<times> jsstr \<times> rat) list"  \<comment> \<open>the calls of \<open>toBlob\<close>\<close>
  ij_promise :: "image_element promise"

text \<open>An exception of \<open>b64EncodeUnicode\<close> rejects the promise, and the image gets no source.\<close>

definition svgXmlToImageElement :: "unit_string \<Rightarrow> image_job" where
  "svgXmlToImageElement svgXml =
     (case b64EncodeUnicode svgXml of
        Inr encoded \<Rightarrow>
          \<lparr>ij_src = ''data:image/svg+xml;base64,'' @ encoded, ij_loaded = None, ij_canvas = [], ij_promise = Waiting\<rparr>
      | Inl e \<Rightarrow> \<lparr>ij_src = [], ij_loaded = None, ij_canvas = [], ij_promise = Rejected e\<rparr>)"

text \<open>Setting the size of a canvas truncates to an integer.\<close>

definition scaled :: "nat \<Rightarrow> rat \<Rightarrow> nat" where
  "scaled n scale = nat \<lfloor>of_nat n * scale\<rfloor>"

definition image_onload :: "rat option \<Rightarrow> image_args \<Rightarrow> nat \<Rightarrow> nat \<Rightarrow> image_job \<Rightarrow> image_job" where
  "image_onload dpr args width height job =
     job\<lparr>ij_loaded := Some (width, height),
         ij_canvas := ij_canvas job @
           [(scaled width (the_scale dpr args), scaled height (the_scale dpr args),
             the_mimeType args, the_quality args)]\<rparr>"

text \<open>The callback of \<open>toBlob\<close>; \<open>url\<close> is the object URL of the blob.\<close>

definition image_onblob :: "jsstr \<Rightarrow> image_job \<Rightarrow> image_job" where
  "image_onblob url job =
     (case ij_loaded job of
        Some (w, h) \<Rightarrow>
          job\<lparr>ij_promise := settle (Resolved \<lparr>im_src = url, im_width = w, im_height = h\<rparr>) (ij_promise job)\<rparr>
      | None \<Rightarrow> job)"

definition image_onerror :: "js_error option \<Rightarrow> image_job \<Rightarrow> image_job" where
  "image_onerror error job =
     job\<lparr>ij_promise := settle (Rejected (case error of Some e \<Rightarrow> e
       | None \<Rightarrow> ErrorObject ''Error'' ''Error loading SVG'')) (ij_promise job)\<rparr>"

text \<open>
  The conversion with fabric: \<open>group\<close> is \<open>groupSVGElements\<close> and may throw, \<open>dataURL\<close> is what
  the canvas gives for a format, a multiplier and a quality. The first component of the
  result is the promise, the second what escapes from the callback.
\<close>

record 'o fabric =
  fb_group :: "'o list \<Rightarrow> nat \<Rightarrow> nat \<Rightarrow> js_error + 'o"
  fb_dataURL :: "'o \<Rightarrow> nat \<Rightarrow> nat \<Rightarrow> jsstr option \<Rightarrow> rat \<Rightarrow> rat \<Rightarrow> jsstr"

definition fabric_format :: "jsstr \<Rightarrow> jsstr option" where
  "fabric_format mimeType =
     (if mimeType = ''image/jpeg'' then Some ''jpeg''
      else if mimeType = ''image/png'' then Some ''png'' else None)"

definition fabric_loaded ::
  "'o fabric \<Rightarrow> rat option \<Rightarrow> image_args \<Rightarrow> 'o list \<Rightarrow> nat \<Rightarrow> nat \<Rightarrow> image_element promise \<times> js_error option" where
  "fabric_loaded fb dpr args objects width height =
     (let p = (if objects = []
               then settle (Rejected (ErrorObject ''Error'' ''Error loading SVG with Fabric'')) Waiting
               else Waiting)
      in case fb_group fb objects width height of
           Inl e \<Rightarrow> (p, Some e)
         | Inr obj \<Rightarrow>
             (settle (Resolved
                \<lparr>im_src = fb_dataURL fb obj width height (fabric_format (the_mimeType args))
                            (the_scale dpr args) (the_quality args),
                 im_width = width, im_height = height\<rparr>) p, None))"

text \<open>\<open>renderImageElement\<close>: the three options it reads, and the converter it chooses.\<close>

definition number_option :: "jsstr \<Rightarrow> options \<Rightarrow> rat option" where
  "number_option key opts = (case given key opts of Some (ONumber n) \<Rightarrow> Some n | _ \<Rightarrow> None)"

definition string_option :: "jsstr \<Rightarrow> options \<Rightarrow> jsstr option" where
  "string_option key opts = (case given key opts of Some (OString s) \<Rightarrow> Some s | _ \<Rightarrow> None)"

definition image_options :: "options \<Rightarrow> image_args" where
  "image_options opts =
     \<lparr>ia_scale = number_option ''scale'' opts, ia_mimeType = string_option ''mimeType'' opts,
      ia_quality = number_option ''quality'' opts\<rparr>"

datatype converter = WithFabric jsstr image_args | WithCanvas image_job image_args

definition image_converter :: "bool \<Rightarrow> options \<Rightarrow> jsstr \<Rightarrow> converter" where
  "image_converter has_fabric opts str =
     (if has_fabric then WithFabric str (image_options opts)
      else WithCanvas (svgXmlToImageElement (char_units str)) (image_options opts))"

section \<open>The options of a call\<close>

lemma map_get_extends_one: "map_get (fold (\<lambda>(k, v) t. set_prop k v t) source target) key =
    (case map_of (rev source) key of Some v \<Rightarrow> Some v | None \<Rightarrow> map_get target key)"
  by (induction source arbitrary: target) (auto split: option.splits)

lemma with_format_get:
  assumes "distinct (map fst opts)"
  shows "map_get (with_format f opts) key = (if key = ''format'' then Some f else map_get opts key)"
proof -
  have "map_of (rev opts) = map_of opts"
    using assms by (subst map_of_inject_set) (simp_all add: rev_map [symmetric])
  then show ?thesis
    by (simp add: with_format_def map_get_extends_one split: option.splits)
qed

lemma with_format_given:
  "distinct (map fst opts) \<Longrightarrow> key \<noteq> ''format'' \<Longrightarrow> given key (with_format f opts) = given key opts"
  by (simp add: given_def with_format_get)

lemma json_format_json: "json_format opts = OString ''json''"
  by (simp add: json_format_def Let_def)

lemma push_images_spec:
  "a < length st \<Longrightarrow> push_images a images st = st[a := st ! a @ map image_file images]"
  by (induction images arbitrary: st) (simp_all add: array_at_def)

text \<open>What a call of \<open>renderString\<close> sends and leaves in the arrays of the caller.\<close>

lemma renderString_arrays:
  assumes "given ''files'' opts = Some (OArray a)" and "given ''images'' opts = Some (OArray b)"
    and "a < length st" and "b < length st" and "a \<noteq> b"
  shows "renderString src opts st =
    (\<lparr>rr_src = src,
      rr_format = option_or ''format'' (OString ''svg'') opts,
      rr_engine = option_or ''engine'' (OString ''dot'') opts,
      rr_files = st ! a @ map image_file (st ! b), rr_images = st ! b,
      rr_yInvert = option_or ''yInvert'' (OBool False) opts,
      rr_nop = option_or ''nop'' (ONumber 0) opts\<rparr>,
     st[a := st ! a @ map image_file (st ! b)])"
  using assms by (simp add: renderString_def array_option_def push_images_spec array_at_def)

section \<open>Properties\<close>

text \<open>The store after some calls with the same options.\<close>

primrec render_again :: "nat \<Rightarrow> jsstr \<Rightarrow> options \<Rightarrow> store \<Rightarrow> store" where
  "render_again 0 src opts st = st"
| "render_again (Suc n) src opts st = render_again n src opts (snd (renderString src opts st))"

lemma render_again_arrays:
  assumes "given ''files'' opts = Some (OArray a)" and "given ''images'' opts = Some (OArray b)"
    and "a < length st" and "b < length st" and "a \<noteq> b"
  shows "render_again n src opts st =
    st[a := st ! a @ concat (replicate n (map image_file (st ! b)))]"
  using assms(3,4)
proof (induction n arbitrary: st)
  case (Suc n)
  have "render_again (Suc n) src opts st = render_again n src opts (st[a := st ! a @ map image_file (st ! b)])"
    by (simp add: renderString_arrays [OF assms(1,2) Suc.prems assms(5)])
  also have "\<dots> = st[a := st ! a @ map image_file (st ! b) @ concat (replicate n (map image_file (st ! b)))]"
    using Suc.IH [of "st[a := st ! a @ map image_file (st ! b)]"] Suc.prems assms(5) by simp
  finally show ?case by simp
qed simp

text \<open>
  Every call of \<open>renderString\<close> appends the stand-ins of the images to the files array of
  the caller: when the same options are used again, the request of the call number \<open>n\<close>
  (from 0) carries the files of the caller followed by \<open>n + 1\<close> copies of the stand-ins,
  while format, engine and the rest stay those of the options or the defaults.
\<close>

theorem renderString_repeats_files:
  assumes "given ''files'' opts = Some (OArray a)" and "given ''images'' opts = Some (OArray b)"
    and "a < length st" and "b < length st" and "a \<noteq> b"
  shows "fst (renderString src opts (render_again n src opts st)) =
    \<lparr>rr_src = src,
     rr_format = option_or ''format'' (OString ''svg'') opts,
     rr_engine = option_or ''engine'' (OString ''dot'') opts,
     rr_files = st ! a @ concat (replicate (Suc n) (map image_file (st ! b))), rr_images = st ! b,
     rr_yInvert = option_or ''yInvert'' (OBool False) opts,
     rr_nop = option_or ''nop'' (ONumber 0) opts\<rparr>"
proof -
  let ?st = "render_again n src opts st"
  have "?st = st[a := st ! a @ concat (replicate n (map image_file (st ! b)))]"
    by (rule render_again_arrays [OF assms])
  then have "length ?st = length st" "?st ! b = st ! b"
      "?st ! a = st ! a @ concat (replicate n (map image_file (st ! b)))"
    using assms(3-5) by simp_all
  moreover have "concat (replicate n xs) @ xs = concat (replicate (Suc n) xs)" for xs :: "'x list"
    by (induction n) simp_all
  ultimately show ?thesis
    using renderString_arrays [OF assms(1,2), of ?st src] assms(3-5) by simp
qed

lemma renderString_repeats_files_witness:
  "length (rr_files (fst (renderString ''graph {}''
     [(''files'', OArray 0), (''images'', OArray 1)]
     (render_again 1 ''graph {}'' [(''files'', OArray 0), (''images'', OArray 1)]
       [[], [[(''path'', ''a.png''), (''width'', ''4''), (''height'', ''4'')]]])))) = 2"
  using renderString_repeats_files [of "[(''files'', OArray 0), (''images'', OArray 1)]" 0 1
      "[[], [[(''path'', ''a.png''), (''width'', ''4''), (''height'', ''4'')]]]" "''graph {}''" 1]
  by (simp add: given_def)

text \<open>
  \<open>renderJSONObject\<close> always asks for the format json, whatever format its options name,
  json0 included, and passes every other option on; its promise is rejected when the
  rendering fails or the text is no JSON, and holds the parsed value otherwise.
\<close>

theorem renderJSONObject_format:
  assumes "distinct (map fst opts)"
  shows "rr_format (fst (renderJSONObject src opts st)) = OString ''json'' \<and>
    (\<forall>key. key \<noteq> ''format'' \<longrightarrow> given key (with_format (json_format opts) opts) = given key opts) \<and>
    json_object (Rejected e) = Rejected e \<and>
    (json_ok j \<longrightarrow> json_object (Resolved (json_stringify j)) = Resolved j)"
proof -
  have "option_or ''format'' d (with_format (OString ''json'') opts) = OString ''json''" for d
    by (simp add: option_or_def given_def with_format_get [OF assms])
  then have "rr_format (fst (renderJSONObject src opts st)) = OString ''json''"
    by (simp add: renderJSONObject_def renderString_def json_format_json case_prod_unfold Let_def)
  then show ?thesis
    by (simp add: with_format_given [OF assms] json_object_def json_parse_stringify_ok)
qed

lemma renderJSONObject_format_witness:
  "rr_format (fst (renderJSONObject ''graph {}'' [(''format'', OString ''json0'')] [])) = OString ''json''"
  using renderJSONObject_format [of "[(''format'', OString ''json0'')]" "''graph {}''" "[]"] by simp

text \<open>
  Converting SVG into an image: with fabric the promise is rejected exactly when no
  objects were found, although the callback goes on to build and offer an image; through
  the canvas the image has the natural size of the SVG, drawn on a canvas of the scaled
  size, and an error after the image is ready changes nothing.
\<close>

theorem image_conversion_outcome:
  "fst (fabric_loaded fb dpr args [] width height) =
     Rejected (ErrorObject ''Error'' ''Error loading SVG with Fabric'') \<and>
   ij_promise (image_onerror error (image_onblob url (image_onload dpr args w h (svgXmlToImageElement (char_units svg))))) =
     Resolved \<lparr>im_src = url, im_width = w, im_height = h\<rparr> \<and>
   ij_canvas (image_onload dpr args w h (svgXmlToImageElement (char_units svg))) =
     [(scaled w (the_scale dpr args), scaled h (the_scale dpr args), the_mimeType args, the_quality args)] \<and>
   ij_promise (image_onblob url (image_onerror (Some e) (image_onload dpr args w h (svgXmlToImageElement (char_units svg))))) =
     Rejected e"
proof -
  obtain t where "b64EncodeUnicode (char_units svg) = Inr t" using char_units_encoded by blast
  then show ?thesis
    by (simp add: fabric_loaded_def Let_def settle_def image_onerror_def image_onblob_def image_onload_def
        svgXmlToImageElement_def split: sum.splits)
qed

end
