(* ===== verification/Spec2Isabelle.thy ===== *)
theory Spec2Isabelle
  imports Stimulus_Events Stimulus_Restart Gui_Getters Gui_Document_Fit Stimulus_Classes Stimulus_Wiring Stimulus_Throwing Stimulus_Application Gui_Termination Viz_Render
begin

text \<open>
  Verification of the web interface of the node, in src/gui/web/assets/scripts: the page code
  main.js, the controller library stimulus.js and the client viz.js of the graph renderer.

  The program. stimulus.js watches the document: an \<open>ElementObserver\<close> gets mutation records,
  and above it the attribute, token list and value list observers turn them into tokens
  and values appearing and disappearing. One such tower reads the controller attribute
  (\<open>ScopeObserver\<close> and \<open>Router\<close>, which create and connect a \<open>Context\<close> for each module and
  scope), another one per context reads the action attribute (\<open>BindingObserver\<close>, which files
  bindings in the \<open>Dispatcher\<close>). A controller reaches its elements, attributes and values
  through its \<open>Scope\<close> and the properties that blessings add to its class. \<open>Application\<close> owns
  dispatcher and router and starts them when the document is parsed. main.js registers
  eleven controllers; their methods validate input fields, talk to the node by HTTP and
  report results and errors as flash messages; Routing draws its graph through viz.js.

  Theories of the library, with what their lemmas show.
  Js_Prelude: maps and sets in insertion order, errors. Js_Strings: case conversions, trimming,
  splitting. Js_Json: \<open>JSON.stringify\<close>, \<open>JSON.parse\<close> and \<open>parseInt\<close>; parsing inverts printing.
  Js_Generator: \<open>__generator\<close> as an instruction machine with try regions and delegation, and
  \<open>__awaiter\<close>; a body without try regions runs as its segments one after the other.

  Theories of stimulus.js.
  Stimulus_Multimap: \<open>Multimap\<close>, \<open>IndexedMultimap\<close> refine finite relations.
  Stimulus_Action: \<open>Action\<close> and the descriptor syntax; printing and parsing round trip.
  Stimulus_Observers: the observer tower; the locales state what a delegate promises, and the
  incremental token diff equals reading the attribute afresh.
  Stimulus_Dispatcher: \<open>Binding\<close>, \<open>EventListener\<close>, \<open>Dispatcher\<close>; it files the active bindings.
  Stimulus_Binding: \<open>BindingObserver\<close>; bindings follow the action tokens.
  Stimulus_Router: \<open>Module\<close>, \<open>ScopeObserver\<close>, \<open>Router\<close>; the life cycle of every context is legal.
  Stimulus_Sync: batches of records that cover the changes of a document keep the tower in
  step with it, so the connected contexts are those the document names.
  Stimulus_Live: router, contexts and the shared dispatcher composed; each event of the
  router's log starts or stops a binding observer. Stimulus_Actions: after any history the
  dispatcher binds exactly the actions that the current document declares. Stimulus_Events:
  event objects, dispatch and error reports; an event calls exactly the declared actions.
  Stimulus_Restart: what a stop and a new start of the observers miss.
  Stimulus_Application: \<open>Application\<close> and \<open>domReady\<close>; the router gets exactly the planned calls.
  Stimulus_Scope: \<open>Scope\<close>, \<open>TargetSet\<close>, \<open>Guide\<close>, \<open>DataMap\<close>, \<open>ClassMap\<close> on element trees; lookups
  find the elements of the scope. Stimulus_Values: value definitions, readers and writers;
  getters are typed and setting is read back. Stimulus_Context: \<open>StringMapObserver\<close>,
  \<open>ValueObserver\<close>, \<open>Context\<close>; the observed map follows the attributes, life cycle errors are
  handled. Stimulus_Throwing: what a changed callback that throws does to \<open>Module\<close> and to the
  promise of \<open>start\<close>; without exceptions a module is as in Stimulus_Router. Stimulus_Blessings: inherited definitions, blessed and shadowed properties.
  Stimulus_Blessed: for every class, which properties blessing adds and which it keeps.
  Stimulus_Classes: constructors and prototypes as objects with links, \<open>__extends\<close> and \<open>extend\<close>;
  chains of classes are an abstraction of them, lookups and blessing included.
  Stimulus_Wiring: the references between the objects, set by the constructors in their order,
  and the getters that follow them; all objects of a context agree on what they share.

  Theories of main.js and viz.js.
  Gui_Page: the page, \<open>Flash\<close>, \<open>initCollapsible\<close>. Gui_Async: awaits as continuations, and
  \<open>BaseElement\<close>. Gui_Messaging, Gui_DataSharing: the other controllers, one definition per
  method. Gui_World: the page under every interleaving of calls and settled awaits; all
  calls are answered, empty input sends nothing, valid input is posted, and what each
  update leaves on the page. Gui_Termination: every handler awaits at most six times.
  Gui_Getters: the getters by which the controllers find each other through the router.
  Gui_Classes: the classes of main.js with their static targets and members; each is blessed
  with the accessors of exactly the targets that the model of the page provides.
  Gui_Document: the element tree of node.html, and what the scripts find in a document.
  Gui_Document_Fit: the page has one element for every declared target, its actions are those
  of the handlers that a click starts, and it starts in the states that the others assume.
  Viz: the worker and module wrappers; replies reach the call with their number.
  Viz_Base64: data URLs, on strings of 16-bit code units. Viz_Render: the options, images and results of the render methods.
  This theory composes them for the script \<open>main\<close>.

  Conventions. The page node.html is a value, every other document arbitrary. A class is a record, its methods are functions that return the changed record;
  objects compared by identity carry numbers. A method that may throw returns a sum, or an
  error with the state it left (Stimulus_Context). Observers read the document of the moment,
  a snapshot that each call is given. Asynchronous methods of main.js, which the browser
  runs natively, are continuations; the one of stimulus.js goes through the model of the
  helpers the source carries. The browser, the network, the renderer, fabric and the
  time of day are parameters or arbitrary events.

  Bounds. Strings are over characters with codes 0 to 255, but for Viz_Base64; numbers are
  integers, or rationals in Stimulus_Values and Viz_Render, and the rounding of floating point
  numbers is not modelled: numbers of requests are right up to 2^53. The router, the
  application and the theories that compose them take the changed callbacks of values not to
  throw while controllers connect (main.js has no values). The tag and the attributes of
  an element that give an action its default event do not change. The JSON parser has fuel, the length of its input plus one, which is enough
  because every recursive call consumes a character. Reading through getters has fuel forty
  (Stimulus_Wiring), more than the longest path, and the property shows that the reads
  succeed; following prototype links has the number of objects as fuel (Stimulus_Classes),
  enough because a link leads to an older object (\<open>heap_ok\<close>). \<open>gen_step\<close> may not return when a body jumps forever; the
  properties show that it returns for the bodies considered. A batch of records is taken to
  cover the changes it reports (\<open>batch_covers\<close>), as the browser promises, but for the rest
  is arbitrary, and the observer reads the document after the whole batch.

  Not modelled: the module wrappers, the helpers of viz.js for old browsers and the repeated
  copies of those of stimulus.js, console output, viz.lite.render.js (generated code), the
  linter configuration, and the Go code of the peer and its HTTP node, which is the network of
  this model.
\<close>

section \<open>The page of main.js\<close>

text \<open>\<open>main\<close> starts an application and registers the controllers of main.js, while the document is still being parsed.\<close>

definition main_identifiers :: "jsstr list" where
  "main_identifiers =
     [''flash'', ''peerInfo'', ''messaging'', ''unicast'', ''routing'', ''packets'', ''broadcast'',
      ''catalog'', ''dataSharing'', ''search'', ''naming'']"

definition main_script :: "page_event list" where
  "main_script = CallStart # map (\<lambda>i. CallLoad [i]) main_identifiers"

text \<open>Changes of the document with the records of each, as events and as calls of the router.\<close>

type_synonym document_changes = "(dom \<times> mutation list) list"

definition changes_events :: "document_changes \<Rightarrow> page_event list" where
  "changes_events = map (\<lambda>(dm, ms). Changed dm ms)"

definition changes_calls :: "document_changes \<Rightarrow> application_call list" where
  "changes_calls = map (\<lambda>(dm, ms). Observe (Mutations dm ms))"

definition document_after :: "dom \<Rightarrow> document_changes \<Rightarrow> dom" where
  "document_after dm cs = fold (\<lambda>(dm', ms) _. dm') cs dm"

lemma plan_append:
  "plan p (evs @ evs') =
     (case plan p evs of (cs, p') \<Rightarrow> (case plan p' evs' of (cs', p'') \<Rightarrow> (cs @ cs', p'')))"
  by (induction evs arbitrary: p) (auto split: prod.splits)

lemma plan_loads: "plan p (map (\<lambda>i. CallLoad [i]) is) = (map Load is, p)"
  by (induction "is") simp_all

lemma plan_changes:
  "plan (loading, l, r, dm) (changes_events cs) = (changes_calls cs, (loading, l, r, document_after dm cs))"
  by (induction cs arbitrary: dm) (auto simp: changes_events_def changes_calls_def document_after_def)

lemma last_document_changes: "last_document dm (changes_calls cs) = document_after dm cs"
  by (induction cs arbitrary: dm) (auto simp: changes_calls_def document_after_def)

lemma registers_loads: "list_all registers (map Load is)" "list_all registers (changes_calls cs)"
  by (induction "is") (simp_all, induction cs, auto simp: changes_calls_def)

lemma loaded_after_calls:
  "fold loaded_step (map Load is) K = K \<union> set is" "fold loaded_step (changes_calls cs) K = K"
  by (induction "is" arbitrary: K) (simp_all, induction cs arbitrary: K, auto simp: changes_calls_def)

lemma started_after_changes:
  "eo_started app \<Longrightarrow> eo_started (fold app_call (changes_calls cs) app)"
  by (induction cs arbitrary: app) (auto simp: changes_calls_def processMutations_started)

text \<open>The run that the properties are about: the router has got the planned calls.\<close>

lemma main_page:
  fixes root :: nat
  assumes "dom_ok root (document_after dm parsing)"
    and "follows root (document_after dm parsing) (changes_calls batches)"
  shows "\<exists>ps s calls. page_run (main_script @ changes_events parsing @ [Parsed, ContentLoaded, Microtask] @
        changes_events batches) ([], new_page_state root True dm) = Some (ps, s) \<and>
      ps = [Fulfilled Undef] \<and> dp_started (ap_dispatcher s) \<and> ap_router s = app_run root calls \<and>
      loaded_after calls = set main_identifiers \<and>
      mirrors controller_attribute root (ap_document s) (app_run root calls)"
proof -
  let ?evs = "main_script @ changes_events parsing @ [Parsed, ContentLoaded, Microtask] @ changes_events batches"
  let ?before = "map Load main_identifiers @ changes_calls parsing"
  let ?parsed = "document_after dm parsing"
  let ?calls = "?before @ Observe (Start ?parsed) # changes_calls batches"
  have plan: "plan (True, 0, 0, dm) ?evs = (?calls, (False, 0, 0, document_after ?parsed batches))"
    by (simp add: main_script_def plan_append plan_loads plan_changes)
  have start: "plan_of (new_page_state root True dm) = (True, 0, 0, dm)"
      "ap_router (new_page_state root True dm) = new_application root"
    by (simp_all add: plan_of_def new_page_state_def)
  obtain ps s where run: "page_run ?evs ([], new_page_state root True dm) = Some (ps, s)" "starts_ok (ps, s)"
      "length ps = length (filter (\<lambda>ev. ev = CallStart) ?evs)" "ap_router s = app_run root ?calls"
      "plan_of s = (False, 0, 0, document_after ?parsed batches)"
    using page_run_ok [OF starts_ok_new, of ?evs root True dm]
    unfolding start plan app_run_def fst_conv snd_conv list.size(3) add_0 by blast
  note ok = starts_okD [OF run(2)]
  have "filter (\<lambda>ev. ev = CallStart) (changes_events cs) = []" for cs
    by (induction cs) (auto simp: changes_events_def)
  moreover have "filter (\<lambda>ev. ev = CallStart) (map (\<lambda>i. CallLoad [i]) is) = []" for "is"
    by (induction "is") simp_all
  ultimately have "length ps = 1" using run(3) by (simp add: main_script_def)
  moreover have idle: "waiting_ids s = []" and document: "ap_document s = document_after ?parsed batches"
    using run(5) by (simp_all add: plan_of_def waiting_ids_def)
  ultimately have ps: "ps = [Fulfilled Undef]" using ok(4) [of 0] by (cases ps) simp_all
  have before: "list_all registers ?before" using registers_loads by simp
  have mirrors: "mirrors controller_attribute root (ap_document s) (app_run root ?calls)"
    using start_follows_mirrors [OF before assms] by (simp add: document last_document_changes)
  have loaded: "loaded_after ?calls = set main_identifiers"
    by (simp add: loaded_after_def loaded_after_calls)
  have "eo_started (ap_router s)"
    by (simp add: run(4) app_run_def started_after_changes app_call_started del: app_call.simps)
  then have "dp_started (ap_dispatcher s)" using ok(5) by simp
  with run(1,4) ps mirrors loaded show ?thesis by blast
qed


text \<open>
  C3. The page of main.js comes up with its controllers and keeps up with the document. The
  script runs while the document is parsed, the parser changes the document further, and
  at the end of it the pending start goes on; from then on the browser reports the changes of
  the document in batches that cover them. Then the modules of the router are the eleven
  controllers of main.js, and the connected contexts of each belong to exactly the
  elements of the current document whose controller attribute names it.
\<close>

theorem main_connects_controllers:
  fixes root :: nat
  assumes "dom_ok root (document_after dm parsing)"
    and "follows root (document_after dm parsing) (changes_calls batches)"
  shows "\<exists>ps s. page_run (main_script @ changes_events parsing @ [Parsed, ContentLoaded, Microtask] @
        changes_events batches) ([], new_page_state root True dm) = Some (ps, s) \<and>
      ps = [Fulfilled Undef] \<and> dp_started (ap_dispatcher s) \<and>
      (case map_get (rt_modules (app_router (ap_router s))) ident of
         None \<Rightarrow> ident \<notin> set main_identifiers
       | Some m \<Rightarrow> ident \<in> set main_identifiers \<and>
           set (m_connected m) = {\<lparr>sc_element = e, sc_identifier = ident\<rparr> | e.
             e \<in> set (subtree (ap_document s) root) \<and>
             ident \<in> set (attribute_words controller_attribute (ap_document s) e)})"
proof -
  obtain ps s calls where run: "page_run (main_script @ changes_events parsing @ [Parsed, ContentLoaded, Microtask] @
        changes_events batches) ([], new_page_state root True dm) = Some (ps, s)"
    "ps = [Fulfilled Undef]" "dp_started (ap_dispatcher s)" "ap_router s = app_run root calls"
    "loaded_after calls = set main_identifiers"
    "mirrors controller_attribute root (ap_document s) (app_run root calls)"
    using main_page [OF assms] by blast
  with connected_in_document [OF run(6), of ident, unfolded run(5), folded run(4)] show ?thesis by blast
qed

lemma main_connects_controllers_witness:
  "let here = \<lparr>getAttr = (\<lambda>e n. if e = 7 \<and> n = ''data-controller'' then Some ''flash'' else None),
       contained = (\<lambda>e. e = 1 \<or> e = 7), subtree = (\<lambda>e. if e = 1 then [1, 7] else [e])\<rparr>;
     later = here\<lparr>getAttr := (\<lambda>e n. if e = 7 \<and> n = ''data-controller'' then Some ''search'' else None)\<rparr>
   in \<exists>ps s. page_run (main_script @ changes_events [(here, [])] @ [Parsed, ContentLoaded, Microtask] @
        changes_events [(later, [AttributeMutation 7 ''data-controller''])]) ([], new_page_state 1 True later) = Some (ps, s) \<and>
      (case map_get (rt_modules (app_router (ap_router s))) ''search'' of None \<Rightarrow> False
       | Some m \<Rightarrow> set (m_connected m) = {\<lparr>sc_element = 7, sc_identifier = ''search''\<rparr>})"
proof -
  define here where "here = \<lparr>getAttr = (\<lambda>e n. if e = 7 \<and> n = ''data-controller'' then Some ''flash'' else None),
    contained = (\<lambda>e::nat. e = 1 \<or> e = 7), subtree = (\<lambda>e. if e = 1 then [1, 7] else [e])\<rparr>"
  define later where "later = here\<lparr>getAttr :=
    (\<lambda>e n. if e = 7 \<and> n = ''data-controller'' then Some ''search'' else None)\<rparr>"
  let ?batches = "[(later, [AttributeMutation 7 ''data-controller''])]"
  have parsed: "document_after later [(here, [])] = here" by (simp add: document_after_def)
  have ok: "dom_ok 1 here" "dom_ok 1 later" by (auto simp: dom_ok_def here_def later_def)
  have "batch_covers controller_attribute 1 here later [AttributeMutation 7 ''data-controller'']"
    by (auto simp: batch_covers_def covers_element_def listed_def here_def later_def)
  then have "follows 1 here (changes_calls ?batches)" using ok by (simp add: changes_calls_def)
  then obtain ps s where run: "page_run (main_script @ changes_events [(here, [])] @
        [Parsed, ContentLoaded, Microtask] @ changes_events ?batches) ([], new_page_state 1 True later) = Some (ps, s)"
    and result: "case map_get (rt_modules (app_router (ap_router s))) ''search'' of
         None \<Rightarrow> ''search'' \<notin> set main_identifiers
       | Some m \<Rightarrow> ''search'' \<in> set main_identifiers \<and>
           set (m_connected m) = {\<lparr>sc_element = e, sc_identifier = ''search''\<rparr> | e.
             e \<in> set (subtree (ap_document s) 1) \<and>
             ''search'' \<in> set (attribute_words controller_attribute (ap_document s) e)}"
    using main_connects_controllers [where root = 1 and dm = later and parsing = "[(here, [])]"
        and batches = ?batches and ident = "''search''"] ok(1) parsed by auto
  have "plan_of s = snd (plan (plan_of (new_page_state 1 True later)) (main_script @
      changes_events [(here, [])] @ [Parsed, ContentLoaded, Microtask] @ changes_events ?batches))"
    using page_run_ok [OF starts_ok_new] run by (metis option.inject prod.inject)
  then have document: "ap_document s = later"
    by (simp add: plan_append plan_loads plan_changes main_script_def plan_of_def new_page_state_def document_after_def)
  have "attribute_words controller_attribute later e = (if e = 7 then [''search''] else [])" for e
    by (cases "e = 7") (simp_all add: attribute_words_def later_def here_def, code_simp, code_simp)
  moreover have "set (subtree later 1) = {1, 7}" by (simp add: later_def here_def)
  ultimately have "{\<lparr>sc_element = e, sc_identifier = ''search''\<rparr> | e. e \<in> set (subtree (ap_document s) 1) \<and>
      ''search'' \<in> set (attribute_words controller_attribute (ap_document s) e)} =
      {\<lparr>sc_element = 7, sc_identifier = ''search''\<rparr>}"
    unfolding document by auto
  with result have "case map_get (rt_modules (app_router (ap_router s))) ''search'' of None \<Rightarrow> False
      | Some m \<Rightarrow> set (m_connected m) = {\<lparr>sc_element = 7, sc_identifier = ''search''\<rparr>}"
    by (simp add: main_identifiers_def split: option.splits)
  with run show ?thesis by (simp only: Let_def here_def later_def) blast
qed

text \<open>
  C4. The controllers of main.js find each other. On the page of the property above, each
  getter of main.js (\<open>flash\<close>, \<open>peerInfo\<close>, \<open>messagingController\<close>) gives a controller exactly
  when the element with the id it looks for is in the current document and names that
  controller; then it is the connected controller of that element and name. The application
  lists every connected controller once.
\<close>

theorem getters_find_controllers:
  fixes root :: nat
  assumes "dom_ok root (document_after dm parsing)"
    and "follows root (document_after dm parsing) (changes_calls batches)"
    and "(name, look) \<in> set getters"
  shows "\<exists>ps s. page_run (main_script @ changes_events parsing @ [Parsed, ContentLoaded, Microtask] @
        changes_events batches) ([], new_page_state root True dm) = Some (ps, s) \<and>
      (look by_id (ap_router s) \<noteq> None \<longleftrightarrow>
        (\<exists>e. by_id name = Some e \<and> e \<in> set (subtree (ap_document s) root) \<and>
           name \<in> set (attribute_words controller_attribute (ap_document s) e))) \<and>
      (case look by_id (ap_router s) of None \<Rightarrow> True
       | Some (n, scope) \<Rightarrow> by_id name = Some (sc_element scope) \<and> sc_identifier scope = name \<and>
           (n, scope) \<in> set (application_controllers (ap_router s))) \<and>
      distinct (application_controllers (ap_router s))"
proof -
  obtain ps s calls where run: "page_run (main_script @ changes_events parsing @ [Parsed, ContentLoaded, Microtask] @
        changes_events batches) ([], new_page_state root True dm) = Some (ps, s)"
    "ap_router s = app_run root calls" "loaded_after calls = set main_identifiers"
    "mirrors controller_attribute root (ap_document s) (app_run root calls)"
    using main_page [OF assms(1,2)] by blast
  let ?app = "app_run root calls"
  note ok = app_run_ok [of calls root]
  have "name \<in> loaded_after calls" using assms(3) by (auto simp: run(3) getters_def main_identifiers_def)
  then have loaded: "map_get (rt_modules (app_router ?app)) name \<noteq> None"
    using app_loaded [OF ok, of name] by (simp add: module_loaded_def)
  have get: "look by_id ?app = getControllerForElementAndIdentifier ?app (by_id name) name"
    by (rule getters_lookup [OF assms(3)])
  have found: "look by_id ?app = Some (n, scope) \<longleftrightarrow> by_id name = Some (sc_element scope) \<and> sc_identifier scope = name \<and>
      (n, scope) \<in> set (application_controllers ?app)" for n scope
    unfolding get by (rule getController_run)
  have "look by_id ?app \<noteq> None \<longleftrightarrow> (\<exists>n scope. look by_id ?app = Some (n, scope))" by auto
  also have "\<dots> \<longleftrightarrow> (\<exists>scope. by_id name = Some (sc_element scope) \<and> sc_identifier scope = name \<and> scope \<in> page_scopes ?app)"
    unfolding found controllers_listed(2) [OF ok listed_run] using loaded by auto
  also have "\<dots> \<longleftrightarrow> (\<exists>e. by_id name = Some e \<and> e \<in> set (subtree (ap_document s) root) \<and>
      name \<in> set (attribute_words controller_attribute (ap_document s) e))"
    unfolding mirrored_scopes [OF ok run(4)] by auto (metis scope.select_convs)
  finally have "look by_id ?app \<noteq> None \<longleftrightarrow> (\<exists>e. by_id name = Some e \<and> e \<in> set (subtree (ap_document s) root) \<and>
      name \<in> set (attribute_words controller_attribute (ap_document s) e))" .
  moreover have "case look by_id ?app of None \<Rightarrow> True
       | Some (n, scope) \<Rightarrow> by_id name = Some (sc_element scope) \<and> sc_identifier scope = name \<and>
           (n, scope) \<in> set (application_controllers ?app)"
    using found by (auto split: option.splits)
  ultimately show ?thesis using run(1) controllers_listed(1) [OF ok listed_run] unfolding run(2) [symmetric] by blast
qed

definition flash_dom :: dom where
  "flash_dom = \<lparr>getAttr = (\<lambda>e n. if e = 7 \<and> n = ''data-controller'' then Some ''flash'' else None),
     contained = (\<lambda>e. e = 1 \<or> e = 7), subtree = (\<lambda>e. if e = 1 then [1, 7] else [e])\<rparr>"

lemma getters_find_controllers_witness:
  "\<exists>ps s n. page_run (main_script @ [Parsed, ContentLoaded, Microtask]) ([], new_page_state 1 True flash_dom) = Some (ps, s) \<and>
     flash_getter (\<lambda>i. if i = ''flash'' then Some 7 else None) (ap_router s) =
       Some (n, \<lparr>sc_element = 7, sc_identifier = ''flash''\<rparr>)"
proof -
  let ?by_id = "\<lambda>i. if i = ''flash'' then Some 7 else None"
  have ok: "dom_ok 1 (document_after flash_dom [])" by (auto simp: dom_ok_def flash_dom_def document_after_def)
  have follows: "follows 1 (document_after flash_dom []) (changes_calls [])" by (simp add: changes_calls_def)
  have flash: "(''flash'', flash_getter) \<in> set getters" by (simp add: getters_def)
  obtain ps s where raw: "page_run (main_script @ changes_events [] @ [Parsed, ContentLoaded, Microtask] @ changes_events [])
        ([], new_page_state 1 True flash_dom) = Some (ps, s)"
    and found: "flash_getter ?by_id (ap_router s) \<noteq> None \<longleftrightarrow>
        (\<exists>e. ?by_id ''flash'' = Some e \<and> e \<in> set (subtree (ap_document s) 1) \<and>
           ''flash'' \<in> set (attribute_words controller_attribute (ap_document s) e))"
    and right: "case flash_getter ?by_id (ap_router s) of None \<Rightarrow> True
      | Some (n, scope) \<Rightarrow> ?by_id ''flash'' = Some (sc_element scope) \<and> sc_identifier scope = ''flash'' \<and>
          (n, scope) \<in> set (application_controllers (ap_router s))"
    using getters_find_controllers [OF ok follows flash, of ?by_id] by blast
  then have run: "page_run (main_script @ [Parsed, ContentLoaded, Microtask]) ([], new_page_state 1 True flash_dom) = Some (ps, s)"
    by (simp add: changes_events_def)
  have "plan_of s = snd (plan (plan_of (new_page_state 1 True flash_dom)) (main_script @ [Parsed, ContentLoaded, Microtask]))"
    using page_run_ok [OF starts_ok_new] run by (metis option.inject prod.inject)
  then have document: "ap_document s = flash_dom"
    by (simp add: plan_append plan_loads main_script_def plan_of_def new_page_state_def)
  have "7 \<in> set (subtree flash_dom 1) \<and> ''flash'' \<in> set (attribute_words controller_attribute flash_dom 7)" by code_simp
  with found document obtain n scope where "flash_getter ?by_id (ap_router s) = Some (n, scope)" by auto
  moreover from this right have "scope = \<lparr>sc_element = 7, sc_identifier = ''flash''\<rparr>" by simp
  ultimately show ?thesis using run by blast
qed

end
